(* ===== verification/Prelude.thy ===== *)
theory Prelude
  imports Main "HOL-Library.Word" "HOL-Library.Monad_Syntax"
begin

text \<open>
  Shared vocabulary of the development: the machine integer types of the i386 target, byte
  memory and its little-endian 32-bit view, the counted loops in which most of the kernel's
  code is written, and the generic facts about words that the component theories rely on.

  A value of type \<open>'a option\<close> is the result of code that can leave the defined part of the
  language: \<open>None\<close> is an access outside an array, a dereference of a null pointer or a loop
  that does not return, and each component says which of these it can be.
\<close>

unbundle bit_operations_syntax

type_synonym u8 = "8 word"
type_synonym u16 = "16 word"
type_synonym u32 = "32 word"
type_synonym u64 = "64 word"
type_synonym addr = "32 word"
type_synonym memory = "32 word \<Rightarrow> 8 word"

named_theorems loop_simps \<open>unfolding of the counted loops\<close>
named_theorems word_conv \<open>moving between words and natural numbers\<close>

section \<open>Definitions\<close>

subsection \<open>Counted loops\<close>

text \<open>
  \<open>for_range i n f s\<close> is \<open>for (; i < n; i++) s = f(i, s);\<close> and \<open>for_rangeM\<close> the same loop
  with a body that may fault. \<open>for_downto i f s\<close> is \<open>for (; i != 0; i--) s = f(i, s);\<close>.
  The counters are 32-bit; a loop guarded by \<open>i < n\<close> never wraps, which is the termination
  argument.
\<close>

lemma unat_Suc_less:
  fixes i n :: "'a::len word"
  assumes "i < n"
  shows "unat (i + 1) = Suc (unat i)"
proof -
  have "Suc (unat i) \<le> unat n" using assms by (simp add: word_less_nat_alt)
  then have "Suc (unat i) < 2 ^ LENGTH('a)" by (rule order.strict_trans1) simp
  then show ?thesis by (simp add: unat_word_ariths)
qed

lemma word_loop_measure:
  fixes i n :: "'a::len word"
  assumes "i < n"
  shows "unat n - unat (i + 1) < unat n - unat i"
proof -
  have "unat i < unat n" using assms by (simp add: word_less_nat_alt)
  then show ?thesis using assms by (simp add: unat_Suc_less)
qed

lemma word_downto_measure:
  fixes i :: "'a::len word"
  assumes "i \<noteq> 0"
  shows "unat (i - 1) < unat i"
  using assms by (simp add: measure_unat)

function for_range :: "'a::len word \<Rightarrow> 'a word \<Rightarrow> ('a word \<Rightarrow> 's \<Rightarrow> 's) \<Rightarrow> 's \<Rightarrow> 's" where
  "for_range i n f s = (if i < n then for_range (i + 1) n f (f i s) else s)"
  by pat_completeness auto
termination
  by (relation "measure (\<lambda>(i, n, f, s). unat n - unat i)") (auto simp: word_loop_measure)

function for_rangeM ::
  "'a::len word \<Rightarrow> 'a word \<Rightarrow> ('a word \<Rightarrow> 's \<Rightarrow> 's option) \<Rightarrow> 's \<Rightarrow> 's option" where
  "for_rangeM i n f s =
     (if i < n then Option.bind (f i s) (for_rangeM (i + 1) n f) else Some s)"
  by pat_completeness auto
termination
  by (relation "measure (\<lambda>(i, n, f, s). unat n - unat i)") (auto simp: word_loop_measure)

function for_downto :: "'a::len word \<Rightarrow> ('a word \<Rightarrow> 's \<Rightarrow> 's) \<Rightarrow> 's \<Rightarrow> 's" where
  "for_downto i f s = (if i \<noteq> 0 then for_downto (i - 1) f (f i s) else s)"
  by pat_completeness auto
termination
  by (relation "measure (\<lambda>(i, f, s). unat i)") (auto simp: word_downto_measure)

declare for_range.simps [simp del, loop_simps]
declare for_rangeM.simps [simp del, loop_simps]
declare for_downto.simps [simp del, loop_simps]

subsection \<open>Byte memory\<close>

text \<open>The \<open>uint32_t\<close> at an address, in the little-endian layout of the i386.\<close>

definition load32 :: "memory \<Rightarrow> addr \<Rightarrow> u32" where
  "load32 m a =
     ucast (m a) OR push_bit 8 (ucast (m (a + 1))) OR
     push_bit 16 (ucast (m (a + 2))) OR push_bit 24 (ucast (m (a + 3)))"

definition store32 :: "memory \<Rightarrow> addr \<Rightarrow> u32 \<Rightarrow> memory" where
  "store32 m a w =
     m(a := ucast w, a + 1 := ucast (drop_bit 8 w),
       a + 2 := ucast (drop_bit 16 w), a + 3 := ucast (drop_bit 24 w))"

text \<open>The \<open>n\<close> bytes from an address on, as a list.\<close>

definition bytes_at :: "memory \<Rightarrow> addr \<Rightarrow> nat \<Rightarrow> u8 list" where
  "bytes_at m a n = map (\<lambda>i. m (a + of_nat i)) [0..<n]"

section \<open>Facts\<close>

subsection \<open>Words and natural numbers\<close>

lemma unat_of_nat_le [word_conv]:
  fixes n :: "'a::len word"
  shows "k \<le> unat n \<Longrightarrow> unat (of_nat k :: 'a word) = k"
  by (metis le_unat_uoi)

lemma unat_of_nat32 [word_conv]: "n < 2 ^ 32 \<Longrightarrow> unat (of_nat n :: u32) = n"
  by (simp add: unat_of_nat take_bit_nat_eq_self)

lemma sint_small: "unat (w :: u32) < 2 ^ 31 \<Longrightarrow> sint w = int (unat w)"
proof -
  assume "unat w < 2 ^ 31"
  then have "int (unat w) < int (2 ^ 31)" by (simp only: of_nat_less_iff)
  then have "uint w < 2 ^ 31" by simp
  then have "signed_take_bit 31 (uint w) = uint w"
    by (intro signed_take_bit_int_eq_self) (simp_all add: order.trans [OF _ uint_ge_0])
  then have "sint w = uint w" by (simp add: sint_uint)
  then show ?thesis by simp
qed

lemma of_nat_less_word [word_conv]:
  fixes n :: "'a::len word"
  shows "k < unat n \<Longrightarrow> (of_nat k :: 'a word) < n"
  by (simp add: word_less_nat_alt unat_of_nat_le [OF less_imp_le])

lemma of_nat_word_inj:
  fixes n :: "'a::len word"
  assumes "j \<le> unat n" "k \<le> unat n" "(of_nat j :: 'a word) = of_nat k"
  shows "j = k"
  using assms by (metis unat_of_nat_le)

lemma word_offset_split:
  fixes a p n :: "'a::len word"
  assumes "a - p < n"
  obtains k where "k < unat n" "a = p + of_nat k"
proof
  show "unat (a - p) < unat n" using assms by (simp add: word_less_nat_alt)
  show "a = p + of_nat (unat (a - p))" by simp
qed

lemma word_offset_less:
  fixes p n :: "'a::len word"
  shows "k < unat n \<Longrightarrow> (p + of_nat k) - p < n"
  by (simp add: of_nat_less_word)

subsection \<open>Rules for the loops\<close>

text \<open>
  An invariant \<open>P k\<close> that holds before the \<open>k\<close>-th iteration holds at the end for the loop's
  bound. The rule for \<^const>\<open>for_rangeM\<close> also shows that no iteration faults.
\<close>

lemma for_range_from_inv:
  fixes n :: "'a::len word"
  assumes "P (unat i) s" and "i \<le> n"
    and step: "\<And>k s. k < unat n \<Longrightarrow> P k s \<Longrightarrow> P (Suc k) (f (of_nat k) s)"
  shows "P (unat n) (for_range i n f s)"
  using assms
proof (induction i n f s rule: for_range.induct [case_names loop])
  case (loop i n f s)
  show ?case
  proof (cases "i < n")
    case True
    have "P (Suc (unat i)) (f i s)"
      using loop.prems(3) [of "unat i" s] loop.prems(1) True by (simp add: word_less_nat_alt)
    then have "P (unat n) (for_range (i + 1) n f (f i s))"
      using True by (intro loop.IH loop.prems(3))
        (auto simp: unat_Suc_less word_le_nat_alt word_less_nat_alt)
    then show ?thesis using True by (simp add: for_range.simps [of i n f s])
  next
    case False
    then have "i = n" using loop.prems(2) by simp
    then show ?thesis using loop.prems(1) False by (simp add: for_range.simps [of n n f s])
  qed
qed

lemma for_range_inv:
  fixes n :: "'a::len word"
  assumes "P 0 s"
    and "\<And>k s. k < unat n \<Longrightarrow> P k s \<Longrightarrow> P (Suc k) (f (of_nat k) s)"
  shows "P (unat n) (for_range 0 n f s)"
  by (rule for_range_from_inv [where i = 0]) (use assms in auto)

lemma for_rangeM_from_inv:
  fixes n :: "'a::len word"
  assumes "P (unat i) s" and "i \<le> n"
    and step: "\<And>k s. k < unat n \<Longrightarrow> P k s \<Longrightarrow> \<exists>s'. f (of_nat k) s = Some s' \<and> P (Suc k) s'"
  shows "\<exists>s'. for_rangeM i n f s = Some s' \<and> P (unat n) s'"
  using assms
proof (induction i n f s rule: for_rangeM.induct [case_names loop])
  case (loop i n f s)
  show ?case
  proof (cases "i < n")
    case True
    obtain s1 where s1: "f i s = Some s1" "P (Suc (unat i)) s1"
      using loop.prems(3) [of "unat i" s] loop.prems(1) True by (auto simp: word_less_nat_alt)
    then have "\<exists>s'. for_rangeM (i + 1) n f s1 = Some s' \<and> P (unat n) s'"
      using True by (intro loop.IH loop.prems(3))
        (auto simp: unat_Suc_less word_le_nat_alt word_less_nat_alt)
    then show ?thesis using True s1(1) by (simp add: for_rangeM.simps [of i n f s])
  next
    case False
    then have "i = n" using loop.prems(2) by simp
    then show ?thesis using loop.prems(1) False by (simp add: for_rangeM.simps [of n n f s])
  qed
qed

lemma for_rangeM_inv:
  fixes n :: "'a::len word"
  assumes "P 0 s"
    and "\<And>k s. k < unat n \<Longrightarrow> P k s \<Longrightarrow> \<exists>s'. f (of_nat k) s = Some s' \<and> P (Suc k) s'"
  shows "\<exists>s'. for_rangeM 0 n f s = Some s' \<and> P (unat n) s'"
  by (rule for_rangeM_from_inv [where i = 0]) (use assms in auto)

text \<open>A reflexive and transitive relation that every turn keeps holds across the loop.\<close>

lemma for_rangeM_rel:
  assumes "for_rangeM i n f s = Some s'" and "\<And>s. R s s" and "\<And>s t u. R s t \<Longrightarrow> R t u \<Longrightarrow> R s u"
    and "\<And>i s s'. f i s = Some s' \<Longrightarrow> R s s'"
  shows "R s s'"
  using assms
proof (induction i n f s rule: for_rangeM.induct [case_names loop])
  case (loop i n f s)
  show ?case
  proof (cases "i < n")
    case True
    then obtain s1 where s1: "f i s = Some s1" "for_rangeM (i + 1) n f s1 = Some s'"
      using loop.prems(1) by (subst (asm) for_rangeM.simps) (auto simp: bind_eq_Some_conv)
    then have "R s1 s'" using loop.IH [OF True s1] loop.prems(2-4) by blast
    then show ?thesis using loop.prems(3) [OF loop.prems(4) [OF s1(1)]] by blast
  next
    case False
    then show ?thesis using loop.prems(1,2) by (simp add: for_rangeM.simps)
  qed
qed

text \<open>A turn that faults in every state makes the whole loop fault.\<close>

lemma for_rangeM_None:
  fixes n :: "'a::len word"
  assumes "j < unat n" "\<And>s. f (of_nat j) s = None"
  shows "for_rangeM 0 n f s = None"
proof -
  have "for_rangeM i n f s = None" if "unat i \<le> j" for i s
    using that
  proof (induction "j - unat i" arbitrary: i s)
    case 0
    then have "unat i = j" by simp
    then have "i = of_nat j" by (metis of_nat_unat ucast_id)
    then show ?case using assms of_nat_less_word [OF assms(1)] by (subst for_rangeM.simps) simp
  next
    case (Suc k)
    then have less: "i < n" using assms(1) by (simp add: word_less_nat_alt)
    then have "k = j - unat (i + 1)" "unat (i + 1) \<le> j" using Suc.hyps(2) by (simp_all add: unat_Suc_less)
    then have "for_rangeM (i + 1) n f s' = None" for s' by (rule Suc.hyps(1))
    then show ?case using less by (subst for_rangeM.simps) (simp split: bind_splits)
  qed
  then show ?thesis by simp
qed

lemma for_downto_inv:
  fixes i :: "'a::len word"
  assumes "P (unat i) s"
    and step: "\<And>k s. 0 < k \<Longrightarrow> k \<le> unat i \<Longrightarrow> P k s \<Longrightarrow> P (k - 1) (f (of_nat k) s)"
  shows "P 0 (for_downto i f s)"
  using assms
proof (induction i f s rule: for_downto.induct [case_names loop])
  case (loop i f s)
  show ?case
  proof (cases "i = 0")
    case True
    then show ?thesis using loop.prems(1) by (simp add: for_downto.simps [of 0 f s])
  next
    case False
    then have pos: "0 < unat i" by (simp add: unat_gt_0)
    have i1: "unat (i - 1) = unat i - 1"
      using False by (simp add: unat_minus_one)
    have "P (unat (i - 1)) (f i s)"
      using loop.prems(2) [of "unat i" s] loop.prems(1) pos i1 by simp
    then have "P 0 (for_downto (i - 1) f (f i s))"
      using False i1 by (intro loop.IH loop.prems(2)) auto
    then show ?thesis using False by (simp add: for_downto.simps [of i f s])
  qed
qed

subsection \<open>The 32-bit view of memory\<close>

lemma load32_cong:
  assumes "\<And>i. i < 4 \<Longrightarrow> m (a + i) = m' (a + i)"
  shows "load32 m a = load32 m' a"
  using assms [of 0] assms [of 1] assms [of 2] assms [of 3] by (simp add: load32_def)

lemma store32_apply:
  "store32 m a w b =
     (if b = a then ucast w else if b = a + 1 then ucast (drop_bit 8 w)
      else if b = a + 2 then ucast (drop_bit 16 w)
      else if b = a + 3 then ucast (drop_bit 24 w) else m b)"
  by (auto simp: store32_def)

lemma bytes_of_word:
  "ucast (ucast w :: u8) OR push_bit 8 (ucast (ucast (drop_bit 8 w) :: u8)) OR
   push_bit 16 (ucast (ucast (drop_bit 16 w) :: u8)) OR
   push_bit 24 (ucast (ucast (drop_bit 24 w) :: u8)) = (w :: u32)"
proof (rule bit_word_eqI)
  fix n assume "n < LENGTH(32)"
  then consider "n < 8" | "8 \<le> n" "n < 16" | "16 \<le> n" "n < 24" | "24 \<le> n" "n < 32" by fastforce
  then show "bit (ucast (ucast w :: u8) OR push_bit 8 (ucast (ucast (drop_bit 8 w) :: u8)) OR
      push_bit 16 (ucast (ucast (drop_bit 16 w) :: u8)) OR
      push_bit 24 (ucast (ucast (drop_bit 24 w) :: u8)) :: u32) n = bit w n"
    by cases (auto simp: bit_simps)
qed

lemma load32_store32_same [simp]: "load32 (store32 m a w) a = w"
  by (simp add: load32_def store32_def bytes_of_word)

lemma aligned4_offset:
  fixes a :: addr
  assumes "unat a mod 4 = 0" "i < 4"
  shows "unat (a + i) = unat a + unat i"
proof -
  obtain q where q: "unat a = 4 * q" using assms(1) by auto
  then have "q < 1073741824" using unsigned_less [of a, where ?'a = nat] by simp
  moreover have "unat i < 4" using assms(2) by (simp add: word_less_nat_alt)
  ultimately have "unat a + unat i < 4294967296" using q by simp
  then show ?thesis by (simp add: unat_word_ariths)
qed

lemma aligned4_disjoint:
  fixes a b :: addr
  assumes "unat a mod 4 = 0" "unat b mod 4 = 0" "a \<noteq> b" "i < 4" "j < 4"
  shows "a + i \<noteq> b + j"
proof
  assume "a + i = b + j"
  then have "unat a + unat i = unat b + unat j"
    using assms by (metis aligned4_offset)
  moreover have "unat i < 4" "unat j < 4" using assms(4,5) by (simp_all add: word_less_nat_alt)
  ultimately have "unat a = unat b" using assms(1,2) by presburger
  then show False using assms(3) by (simp add: word_unat_eq_iff)
qed

lemma load32_store32_other [simp]:
  assumes "unat a mod 4 = 0" "unat b mod 4 = 0" "a \<noteq> b"
  shows "load32 (store32 m b w) a = load32 m a"
proof (rule load32_cong)
  fix i :: u32 assume i: "i < 4"
  note ne = aligned4_disjoint [OF assms i]
  show "store32 m b w (a + i) = m (a + i)"
    using ne [of 0] ne [of 1] ne [of 2] ne [of 3] by (simp add: store32_apply)
qed

end
