(* ===== verification/Libk_String.thy ===== *)
theory Libk_String
  imports Prelude
begin

text \<open>
  The memory and string functions of \<open>Kernel/Libk/Libk.cpp\<close>, over byte memory. A function
  that returns its destination pointer returns it paired with the new memory. The copy
  functions share one contract, the locale \<open>byte_copier\<close>, which \<open>memcpy\<close> and \<open>memmove\<close>
  interpret here.
\<close>

section \<open>Definitions\<close>

definition memset :: "memory \<Rightarrow> addr \<Rightarrow> u32 \<Rightarrow> u32 \<Rightarrow> addr \<times> memory" where
  "memset m bufptr value n =
     (bufptr, for_range 0 n (\<lambda>i m. m(bufptr + i := ucast value)) m)"

definition memmove :: "memory \<Rightarrow> addr \<Rightarrow> addr \<Rightarrow> u32 \<Rightarrow> addr \<times> memory" where
  "memmove m dst src n =
     (dst,
      if dst < src then for_range 0 n (\<lambda>i m. m(dst + i := m (src + i))) m
      else for_downto n (\<lambda>i m. m(dst + (i - 1) := m (src + (i - 1)))) m)"

function memcmp_loop :: "memory \<Rightarrow> addr \<Rightarrow> addr \<Rightarrow> u32 \<Rightarrow> u32 \<Rightarrow> int" where
  "memcmp_loop m a b i n =
     (if i < n then
        if m (a + i) < m (b + i) then - 1
        else if m (b + i) < m (a + i) then 1
        else memcmp_loop m a b (i + 1) n
      else 0)"
  by pat_completeness auto
termination
  by (relation "measure (\<lambda>(m, a, b, i, n). unat n - unat i)")
    (auto simp: word_loop_measure)

declare memcmp_loop.simps [simp del, loop_simps]

definition memcmp :: "memory \<Rightarrow> addr \<Rightarrow> addr \<Rightarrow> u32 \<Rightarrow> int" where
  "memcmp m a b n = memcmp_loop m a b 0 n"

definition memcpy :: "memory \<Rightarrow> addr \<Rightarrow> addr \<Rightarrow> u32 \<Rightarrow> addr \<times> memory" where
  "memcpy m dst src n = (dst, for_range 0 n (\<lambda>i m. m(dst + i := m (src + i))) m)"

text \<open>\<open>strlen\<close> returns only if there is a zero byte; \<open>None\<close> is the loop that does not end.\<close>

partial_function (option) strlen_loop :: "memory \<Rightarrow> addr \<Rightarrow> u32 \<Rightarrow> u32 option" where
  "strlen_loop m str len =
     (if m (str + len) \<noteq> 0 then strlen_loop m str (len + 1) else Some len)"

definition strlen :: "memory \<Rightarrow> addr \<Rightarrow> u32 option" where
  "strlen m str = strlen_loop m str 0"

definition strcpy :: "memory \<Rightarrow> addr \<Rightarrow> addr \<Rightarrow> (addr \<times> memory) option" where
  "strcpy m destination source =
     do { n \<leftarrow> strlen m source; Some (destination, snd (memcpy m destination source n)) }"

text \<open>
  The abstract effects: filling a range, copying a range as if through a temporary buffer,
  and a zero-terminated string in memory.
\<close>

definition fill_range :: "memory \<Rightarrow> addr \<Rightarrow> nat \<Rightarrow> u8 \<Rightarrow> memory" where
  "fill_range m p n v = (\<lambda>a. if unat (a - p) < n then v else m a)"

definition copy_range :: "memory \<Rightarrow> addr \<Rightarrow> addr \<Rightarrow> nat \<Rightarrow> memory" where
  "copy_range m dst src n = (\<lambda>a. if unat (a - dst) < n then m (src + (a - dst)) else m a)"

definition cstring :: "memory \<Rightarrow> addr \<Rightarrow> u8 list \<Rightarrow> bool" where
  "cstring m p xs \<longleftrightarrow>
     length xs < 2 ^ 32 \<and> bytes_at m p (length xs) = xs \<and> 0 \<notin> set xs \<and>
     m (p + of_nat (length xs)) = 0"

section \<open>The contract of a copy function\<close>

text \<open>
  What the callers of a copy function rely on: when source and destination do not overlap (and
  neither range wraps), the destination pointer is returned and the destination holds the
  source's bytes, everything else being unchanged.
\<close>

definition ranges_apart :: "addr \<Rightarrow> addr \<Rightarrow> u32 \<Rightarrow> bool" where
  "ranges_apart p q n \<longleftrightarrow>
     unat p + unat n \<le> 2 ^ 32 \<and> unat q + unat n \<le> 2 ^ 32 \<and>
     (unat p + unat n \<le> unat q \<or> unat q + unat n \<le> unat p)"

locale byte_copier =
  fixes cp :: "memory \<Rightarrow> addr \<Rightarrow> addr \<Rightarrow> u32 \<Rightarrow> addr \<times> memory"
  assumes cp_apart:
    "ranges_apart dst src n \<Longrightarrow> cp m dst src n = (dst, copy_range m dst src (unat n))"
begin

lemma copied_byte:
  assumes "ranges_apart dst src n" "k < unat n"
  shows "snd (cp m dst src n) (dst + of_nat k) = m (src + of_nat k)"
  using assms by (simp add: cp_apart copy_range_def unat_of_nat_le [OF less_imp_le])

lemma copied_bytes:
  assumes "ranges_apart dst src n"
  shows "bytes_at (snd (cp m dst src n)) dst (unat n) = bytes_at m src (unat n)"
  using copied_byte [OF assms] by (simp add: bytes_at_def)

lemma source_kept:
  assumes "ranges_apart dst src n"
  shows "bytes_at (snd (cp m dst src n)) src (unat n) = bytes_at m src (unat n)"
proof -
  have "snd (cp m dst src n) (src + of_nat k) = m (src + of_nat k)" if "k < unat n" for k
  proof -
    have k: "unat (of_nat k :: u32) = k" using that by (simp add: unat_of_nat_le [OF less_imp_le])
    have "unat (src + of_nat k) = unat src + k"
      using assms that k unfolding ranges_apart_def by (simp add: unat_word_ariths)
    then have "\<not> unat (src + of_nat k - dst) < unat n"
      using assms that unfolding ranges_apart_def by (simp add: unat_sub_if') linarith
    then show ?thesis using assms by (simp add: cp_apart copy_range_def)
  qed
  then show ?thesis by (simp add: bytes_at_def)
qed

end

section \<open>Correctness\<close>

subsection \<open>Offsets into a range\<close>

lemma unat_offset_eq:
  fixes a p n :: addr
  assumes "k < unat n"
  shows "unat (a - p) = k \<longleftrightarrow> a = p + of_nat k"
proof
  assume "unat (a - p) = k"
  then have "of_nat k = a - p" by auto
  then show "a = p + of_nat k" by simp
next
  assume "a = p + of_nat k"
  then show "unat (a - p) = k" using assms by (simp add: unat_of_nat_le [OF less_imp_le])
qed

lemma unat_diff_of_nat:
  fixes n :: addr
  assumes "j \<le> k" "k \<le> unat n"
  shows "unat (of_nat k - of_nat j :: addr) = k - j"
proof -
  have "(of_nat k - of_nat j :: addr) = of_nat (k - j)" using assms by simp
  moreover have "unat (of_nat (k - j) :: addr) = k - j"
    using assms by (intro unat_of_nat_le [of _ n]) simp
  ultimately show ?thesis by simp
qed

subsection \<open>memset\<close>

lemma fill_range_Suc:
  assumes "k < unat (n :: u32)"
  shows "(fill_range m p k v)(p + of_nat k := v) = fill_range m p (Suc k) v"
  using unat_offset_eq [OF assms] by (auto simp: fill_range_def fun_eq_iff less_Suc_eq)

lemma memset_spec: "memset m p v n = (p, fill_range m p (unat n) (ucast v))"
proof -
  have "for_range 0 n (\<lambda>i m. m(p + i := ucast v)) m = fill_range m p (unat n) (ucast v)"
    by (rule for_range_inv [where P = "\<lambda>k m'. m' = fill_range m p k (ucast v)"])
      (simp_all add: fill_range_Suc, simp add: fill_range_def)
  then show ?thesis by (simp add: memset_def)
qed

subsection \<open>memcpy and memmove\<close>

text \<open>
  A forward copy is right unless the destination starts inside the source range: a byte of the
  source would be overwritten before it is read.
\<close>

lemma copy_forward_step:
  assumes k: "k < unat (n :: u32)" and safe: "dst = src \<or> n \<le> dst - src"
  shows "(let m' = copy_range m dst src k in m'(dst + of_nat k := m' (src + of_nat k))) =
         copy_range m dst src (Suc k)"
proof -
  have "copy_range m dst src k (src + of_nat k) = m (src + of_nat k)"
  proof (cases "dst = src")
    case True
    then show ?thesis using k by (simp add: copy_range_def unat_of_nat_le [OF less_imp_le])
  next
    case False
    have "\<not> unat (src + of_nat k - dst) < k"
    proof
      define j where "j = unat (src + of_nat k - dst)"
      assume "unat (src + of_nat k - dst) < k"
      then have j: "j < k" by (simp add: j_def)
      have "(of_nat j :: addr) = src + of_nat k - dst"
        unfolding j_def by simp
      then have "dst - src = of_nat k - of_nat j" by (simp add: algebra_simps)
      then have "unat (dst - src) = k - j"
        using j k by (simp add: unat_diff_of_nat [where n = n])
      then show False using safe False k by (auto simp: word_le_nat_alt)
    qed
    then show ?thesis by (simp add: copy_range_def)
  qed
  then show ?thesis
    using unat_offset_eq [OF k, of _ dst]
    by (auto simp: copy_range_def fun_eq_iff less_Suc_eq Let_def)
qed

lemma copy_forward:
  assumes "dst = src \<or> n \<le> dst - src"
  shows "for_range 0 n (\<lambda>i m. m(dst + i := m (src + i))) m = copy_range m dst src (unat n)"
  by (rule for_range_inv [where P = "\<lambda>k m'. m' = copy_range m dst src k"])
    (use copy_forward_step [OF _ assms] in \<open>simp_all add: Let_def\<close>, simp add: copy_range_def)

text \<open>A backward copy is right unless the source starts inside the destination range.\<close>

definition copied_above :: "memory \<Rightarrow> addr \<Rightarrow> addr \<Rightarrow> nat \<Rightarrow> nat \<Rightarrow> memory" where
  "copied_above m dst src k n =
     (\<lambda>a. if k \<le> unat (a - dst) \<and> unat (a - dst) < n then m (src + (a - dst)) else m a)"

lemma copy_backward_step:
  assumes k: "k < unat (n :: u32)" and safe: "dst = src \<or> n \<le> src - dst"
  shows "(let m' = copied_above m dst src (Suc k) (unat n)
          in m'(dst + of_nat k := m' (src + of_nat k))) =
         copied_above m dst src k (unat n)"
proof -
  have "copied_above m dst src (Suc k) (unat n) (src + of_nat k) = m (src + of_nat k)"
  proof (cases "dst = src")
    case True
    then show ?thesis using k by (simp add: copied_above_def unat_of_nat_le [OF less_imp_le])
  next
    case False
    have "\<not> (Suc k \<le> unat (src + of_nat k - dst) \<and> unat (src + of_nat k - dst) < unat n)"
    proof
      define j where "j = unat (src + of_nat k - dst)"
      assume "Suc k \<le> unat (src + of_nat k - dst) \<and> unat (src + of_nat k - dst) < unat n"
      then have j: "k < j" "j < unat n" by (simp_all add: j_def)
      have "(of_nat j :: addr) = src + of_nat k - dst"
        unfolding j_def by simp
      then have "src - dst = of_nat j - of_nat k" by (simp add: algebra_simps)
      then have "unat (src - dst) = j - k"
        using j k by (simp add: unat_diff_of_nat [where n = n])
      then show False using safe False j by (auto simp: word_le_nat_alt)
    qed
    then show ?thesis by (auto simp: copied_above_def)
  qed
  moreover have "((copied_above m dst src (Suc k) (unat n))(dst + of_nat k := m (src + of_nat k))) a =
      copied_above m dst src k (unat n) a" for a
  proof (cases "unat (a - dst) = k")
    case True
    then have "a = dst + of_nat k" using unat_offset_eq [OF k] by blast
    then show ?thesis using k by (simp add: copied_above_def unat_of_nat_le [OF less_imp_le])
  next
    case False
    then have "a \<noteq> dst + of_nat k" using unat_offset_eq [OF k] by blast
    moreover have "(Suc k \<le> unat (a - dst)) = (k \<le> unat (a - dst))" using False by linarith
    ultimately show ?thesis by (simp add: copied_above_def)
  qed
  ultimately show ?thesis by (simp add: Let_def fun_eq_iff)
qed

lemma copy_backward:
  assumes "dst = src \<or> n \<le> src - dst"
  shows "for_downto n (\<lambda>i m. m(dst + (i - 1) := m (src + (i - 1)))) m =
         copy_range m dst src (unat n)"
proof -
  have "for_downto n (\<lambda>i m. m(dst + (i - 1) := m (src + (i - 1)))) m =
        copied_above m dst src 0 (unat n)"
  proof (rule for_downto_inv [where P = "\<lambda>k m'. m' = copied_above m dst src k (unat n)"])
    show "m = copied_above m dst src (unat n) (unat n)" by (auto simp: copied_above_def fun_eq_iff)
  next
    fix k s assume k: "0 < k" "k \<le> unat n" and s: "s = copied_above m dst src k (unat n)"
    obtain j where j: "k = Suc j" using k(1) by (cases k) auto
    have "(of_nat k - 1 :: addr) = of_nat j" by (simp add: j)
    then show "s(dst + (of_nat k - 1) := s (src + (of_nat k - 1))) =
               copied_above m dst src (k - 1) (unat n)"
      using copy_backward_step [of j n dst src m] assms k j s by (simp add: Let_def)
  qed
  then show ?thesis by (simp add: copied_above_def copy_range_def)
qed

lemma memcpy_spec:
  assumes "dst = src \<or> n \<le> dst - src"
  shows "memcpy m dst src n = (dst, copy_range m dst src (unat n))"
  using copy_forward [OF assms] by (simp add: memcpy_def)

lemma wrapped_distance:
  fixes p q n :: addr
  assumes "p < q" "unat q + unat n \<le> 2 ^ 32"
  shows "n \<le> p - q"
proof -
  have "unat (p - q) = 2 ^ 32 + unat p - unat q"
    using assms(1) by (simp add: unat_sub_if' word_less_nat_alt)
  then show ?thesis using assms unsigned_less [of q, where ?'a = nat]
    by (simp add: word_le_nat_alt word_less_nat_alt)
qed

lemma memmove_spec:
  assumes "unat dst + unat n \<le> 2 ^ 32" "unat src + unat n \<le> 2 ^ 32"
  shows "memmove m dst src n = (dst, copy_range m dst src (unat n))"
proof (cases "dst < src")
  case True
  then show ?thesis using wrapped_distance [OF True assms(2)] copy_forward
    by (simp add: memmove_def)
next
  case False
  then have "dst = src \<or> n \<le> src - dst"
    using wrapped_distance [OF _ assms(1), of src] by fastforce
  then show ?thesis using False copy_backward by (simp add: memmove_def)
qed

lemma ranges_apart_distance:
  assumes "ranges_apart dst src n"
  shows "dst = src \<or> n \<le> dst - src"
proof (cases "dst < src")
  case True
  then show ?thesis using wrapped_distance [of dst src n] assms by (simp add: ranges_apart_def)
next
  case False
  then have "unat (dst - src) = unat dst - unat src" by (simp add: unat_sub not_less)
  then show ?thesis using assms False
    by (auto simp: ranges_apart_def word_le_nat_alt word_less_nat_alt)
qed

interpretation memcpy: byte_copier memcpy
  by unfold_locales (rule memcpy_spec, rule ranges_apart_distance)

interpretation memmove: byte_copier memmove
  by unfold_locales (rule memmove_spec, auto simp: ranges_apart_def)

subsection \<open>memcmp\<close>

text \<open>The reference: the first position at which the two ranges differ decides.\<close>

definition first_difference :: "memory \<Rightarrow> addr \<Rightarrow> addr \<Rightarrow> nat \<Rightarrow> nat \<Rightarrow> nat option" where
  "first_difference m a b i n = find (\<lambda>k. m (a + of_nat k) \<noteq> m (b + of_nat k)) [i..<n]"

lemma memcmp_loop_first_difference:
  "memcmp_loop m a b i n =
     (case first_difference m a b (unat i) (unat n) of None \<Rightarrow> 0
      | Some k \<Rightarrow> if m (a + of_nat k) < m (b + of_nat k) then - 1 else 1)"
proof (induction m a b i n rule: memcmp_loop.induct [case_names loop])
  case (loop m a b i n)
  show ?case
  proof (cases "i < n")
    case True
    then have "[unat i..<unat n] = unat i # [unat (i + 1)..<unat n]"
      by (simp add: unat_Suc_less upt_conv_Cons word_less_nat_alt)
    moreover have "m (a + i) < m (b + i) \<or> m (b + i) < m (a + i) \<or> m (a + i) = m (b + i)"
      by (rule linorder_less_linear [THEN disjE]) auto
    ultimately show ?thesis
      using loop.IH [OF True] True
      by (auto simp: memcmp_loop.simps [of m a b i n] first_difference_def)
  next
    case False
    then have "unat n \<le> unat i" by (simp add: word_less_nat_alt)
    then show ?thesis
      using False by (simp add: memcmp_loop.simps [of m a b i n] first_difference_def)
  qed
qed

lemma find_upt_None: "find P [i..<n] = None \<longleftrightarrow> (\<forall>k. i \<le> k \<and> k < n \<longrightarrow> \<not> P k)"
  by (auto simp: find_None_iff)

subsection \<open>strlen and strcpy\<close>

lemma strlen_loop_Some_zero:
  assumes "strlen_loop m p len = Some r"
  shows "m (p + r) = 0"
proof (rule strlen_loop.raw_induct [where P = "\<lambda>m p len r. m (p + r) = 0", OF _ assms])
  fix f and m' :: memory and p' len' r' :: addr
  assume "\<And>m p len r. f m p len = Some r \<Longrightarrow> m (p + r) = (0 :: u8)"
    and "(if m' (p' + len') \<noteq> 0 then f m' p' (len' + 1) else Some len') = Some r'"
  then show "m' (p' + r') = 0" by (auto split: if_splits)
qed

lemma strlen_loop_skip:
  assumes "\<And>i. k \<le> i \<Longrightarrow> i < n \<Longrightarrow> m (p + of_nat i) \<noteq> 0" "m (p + of_nat n) = 0" "k \<le> n"
  shows "strlen_loop m p (of_nat k) = Some (of_nat n)"
  using assms
proof (induction "n - k" arbitrary: k)
  case 0
  then show ?case by (simp add: strlen_loop.simps)
next
  case (Suc d)
  then have "strlen_loop m p (of_nat (Suc k)) = Some (of_nat n)"
    by (intro Suc.hyps(1)) auto
  moreover have "m (p + of_nat k) \<noteq> 0" using Suc by simp
  ultimately show ?case by (simp add: strlen_loop.simps [of m p "of_nat k"] add.commute)
qed

lemma cstring_bytes:
  "cstring m p xs \<Longrightarrow> i < length xs \<Longrightarrow> m (p + of_nat i) = xs ! i"
  unfolding cstring_def bytes_at_def by (metis (no_types, lifting) add_0 diff_zero length_upt nth_map nth_upt)

lemma strlen_cstring:
  assumes "cstring m p xs"
  shows "strlen m p = Some (of_nat (length xs))"
  unfolding strlen_def
proof (rule strlen_loop_skip [where k = 0, simplified])
  fix i assume "i < length xs"
  then show "m (p + of_nat i) \<noteq> 0"
    using assms cstring_bytes [OF assms] by (metis cstring_def nth_mem)
qed (use assms in \<open>simp add: cstring_def\<close>)

lemma cstring_exists:
  assumes "m (p + r) = 0"
  shows "\<exists>n < 2 ^ 32. cstring m p (bytes_at m p n)"
proof -
  define n where "n = (LEAST k. m (p + of_nat k) = 0)"
  have ex: "m (p + of_nat (unat r)) = 0" using assms by simp
  have zero: "m (p + of_nat n) = 0" unfolding n_def using ex by (rule LeastI [where P = "\<lambda>k. m (p + of_nat k) = 0"])
  have "n \<le> unat r" unfolding n_def using ex by (rule Least_le [where P = "\<lambda>k. m (p + of_nat k) = 0"])
  then have lt: "n < 2 ^ 32" using unsigned_less [of r, where ?'a = nat] by simp
  have "m (p + of_nat i) \<noteq> 0" if "i < n" for i using not_less_Least that unfolding n_def by blast
  then have "0 \<notin> set (bytes_at m p n)" by (auto simp: bytes_at_def)
  then have "cstring m p (bytes_at m p n)"
    using zero lt by (simp add: cstring_def) (simp add: bytes_at_def)
  then show ?thesis using lt by blast
qed

section \<open>Properties\<close>

text \<open>
  Property C25: \<open>memmove\<close> copies correctly however the two ranges overlap. The
  destination ends up with the bytes the source had before the call, and every byte outside
  the destination keeps its value, provided neither range runs past the end of memory.
\<close>

theorem memmove_copies:
  assumes "unat dst + unat n \<le> 2 ^ 32" "unat src + unat n \<le> 2 ^ 32"
  shows "fst (memmove m dst src n) = dst \<and>
    bytes_at (snd (memmove m dst src n)) dst (unat n) = bytes_at m src (unat n) \<and>
    (\<forall>a. unat n \<le> unat (a - dst) \<longrightarrow> snd (memmove m dst src n) a = m a)"
  using memmove_spec [OF assms]
  by (auto simp: bytes_at_def copy_range_def unat_of_nat_le [OF less_imp_le])

theorem memmove_copies_witness:
  "bytes_at (snd (memmove ((\<lambda>_. 0)(10 := 1, 11 := 2, 12 := 3)) 11 10 3)) 11 3 = [1, 2, 3]"
proof -
  have "bytes_at (snd (memmove ((\<lambda>_. 0)(10 := 1, 11 := 2, 12 := 3)) 11 10 3)) 11 (unat (3 :: u32))
      = bytes_at ((\<lambda>_. 0)(10 := 1, 11 := 2, 12 := 3)) 10 (unat (3 :: u32))"
    by (rule memmove_copies [THEN conjunct2, THEN conjunct1]) simp_all
  then show ?thesis by (simp add: bytes_at_def upt_rec)
qed

text \<open>
  \<open>memcmp\<close> is decided by the first byte at which the two ranges differ: it
  returns 0 exactly when they agree on all \<open>n\<close> bytes, and otherwise the sign of the unsigned
  comparison at the first difference.
\<close>

theorem memcmp_first_difference:
  "memcmp m a b n =
     (case first_difference m a b 0 (unat n) of None \<Rightarrow> 0
      | Some k \<Rightarrow> if m (a + of_nat k) < m (b + of_nat k) then - 1 else 1) \<and>
   (memcmp m a b n = 0 \<longleftrightarrow> bytes_at m a (unat n) = bytes_at m b (unat n)) \<and>
   memcmp m b a n = - memcmp m a b n"
proof (intro conjI)
  show spec: "memcmp m a b n =
     (case first_difference m a b 0 (unat n) of None \<Rightarrow> 0
      | Some k \<Rightarrow> if m (a + of_nat k) < m (b + of_nat k) then - 1 else 1)"
    by (simp add: memcmp_def memcmp_loop_first_difference)
  have "first_difference m a b 0 (unat n) = None \<longleftrightarrow> bytes_at m a (unat n) = bytes_at m b (unat n)"
    by (auto simp: first_difference_def find_upt_None bytes_at_def)
  then show "memcmp m a b n = 0 \<longleftrightarrow> bytes_at m a (unat n) = bytes_at m b (unat n)"
    unfolding spec by (auto split: option.splits)
  have "(\<lambda>k. m (b + of_nat k) \<noteq> m (a + of_nat k)) = (\<lambda>k. m (a + of_nat k) \<noteq> m (b + of_nat k))"
    by (rule ext) metis
  then have sym: "first_difference m b a 0 (unat n) = first_difference m a b 0 (unat n)"
    by (simp only: first_difference_def)
  have "m (a + of_nat k) \<noteq> m (b + of_nat k)" if "first_difference m a b 0 (unat n) = Some k" for k
    using that by (auto simp: first_difference_def find_Some_iff)
  then show "memcmp m b a n = - memcmp m a b n"
    by (cases "first_difference m a b 0 (unat n)")
      (auto simp: memcmp_def memcmp_loop_first_difference sym)
qed

text \<open>
  \<open>strlen\<close> returns exactly when there is a terminating zero, and then the
  number of bytes before the first one; without a zero byte it never returns.
\<close>

theorem strlen_iff:
  "(strlen m p = Some n \<longleftrightarrow> cstring m p (bytes_at m p (unat n))) \<and>
   (strlen m p = None \<longleftrightarrow> 0 \<notin> range m)"
proof (cases "\<exists>r. m (p + r) = 0")
  case True
  then obtain k where k: "k < 2 ^ 32" "cstring m p (bytes_at m p k)"
    using cstring_exists by blast
  then have len: "strlen m p = Some (of_nat k)" using strlen_cstring by (fastforce simp: bytes_at_def)
  have "0 \<in> range m" using True by (metis rangeI)
  moreover have "cstring m p (bytes_at m p (unat n)) \<Longrightarrow> strlen m p = Some n"
    using strlen_cstring by (fastforce simp: bytes_at_def)
  moreover have "unat (of_nat k :: u32) = k" using k(1) by (simp add: unat_of_nat)
  ultimately show ?thesis using len k(2) by auto
next
  case False
  then have "strlen m p = None"
    using strlen_loop_Some_zero unfolding strlen_def by (metis not_None_eq)
  moreover have "m a \<noteq> 0" for a using False by (metis add.commute diff_add_cancel)
  then have "0 \<notin> range m" by (metis rangeE)
  moreover have "\<not> cstring m p (bytes_at m p (unat n))" using False by (auto simp: cstring_def)
  ultimately show ?thesis by simp
qed

text \<open>
  \<open>strcpy\<close> copies the characters of the source but not its terminating
  zero: the byte after them in the destination keeps whatever value it had, so the result is
  a string only if that byte happened to be zero.
\<close>

theorem strcpy_without_terminator:
  assumes "cstring m src xs" "ranges_apart dst src (of_nat (length xs))"
  shows "\<exists>m'. strcpy m dst src = Some (dst, m') \<and> bytes_at m' dst (length xs) = xs \<and>
    m' (dst + of_nat (length xs)) = m (dst + of_nat (length xs))"
proof -
  have len: "unat (of_nat (length xs) :: u32) = length xs"
    using assms(1) by (simp add: cstring_def unat_of_nat)
  let ?m = "snd (memcpy m dst src (of_nat (length xs)))"
  have "strcpy m dst src = Some (dst, ?m)"
    by (simp add: strcpy_def strlen_cstring [OF assms(1)])
  moreover have "bytes_at ?m dst (length xs) = xs"
    using memcpy.copied_bytes [OF assms(2), of m] assms(1) len by (simp add: cstring_def)
  moreover have "?m (dst + of_nat (length xs)) = m (dst + of_nat (length xs))"
    using memcpy.cp_apart [OF assms(2), of m] len by (simp add: copy_range_def)
  ultimately show ?thesis by blast
qed

theorem strcpy_without_terminator_witness:
  "\<exists>m'. strcpy (\<lambda>a. if a = 100 then 65 else if a = 101 then 0 else 7) 200 100 = Some (200, m') \<and>
     bytes_at m' 200 1 = [65] \<and> m' 201 = 7"
  using strcpy_without_terminator
    [of "\<lambda>a. if a = 100 then 65 else if a = 101 then 0 else 7" 100 "[65]" 200]
  by (simp add: cstring_def bytes_at_def ranges_apart_def)

end
