(* ===== verification/Scheduler.thy ===== *)
theory Scheduler
  imports Prelude
begin

text \<open>
  The round-robin scheduler of \<open>Kernel/Scheduler.cpp\<close> and \<open>Kernel/Scheduler.h\<close>, with the
  register switch of \<open>Kernel/Arch/i386/taskswitch.S\<close>. Tasks are objects in a store indexed by
  their address and linked through their \<open>next\<close> field; address 0 is the null pointer. The
  operations that need other components (\<open>createTask\<close> and \<open>start\<close>) are in later theories.
\<close>

section \<open>Definitions\<close>

record TaskRegisters =
  eax :: u32
  ebx :: u32
  ecx :: u32
  edx :: u32
  esi :: u32
  edi :: u32
  esp :: u32
  ebp :: u32
  eip :: u32
  eflags :: u32
  cr3 :: u32

datatype TaskState = NoState | Running | Sleep

record Task =
  regs :: TaskRegisters
  next_task :: addr
  task_name :: string
  wakeupTime :: u64
  task_state :: TaskState

text \<open>
  The scheduler's static data. \<open>mainTask\<close> is the address of the static task object, \<open>cpu\<close> the
  processor's registers as the caller of \<open>switchTask\<close> sees them, and \<open>word0\<close> the word at
  linear address 0, which the switch reads.
\<close>

record scheduler =
  tasks :: "addr \<Rightarrow> Task"
  mainTask :: addr
  m_runningTask :: addr
  m_taskTail :: addr
  m_timeMs :: u64
  schedulerEnabled :: bool
  cpu :: TaskRegisters
  word0 :: u32

definition upd_task :: "addr \<Rightarrow> (Task \<Rightarrow> Task) \<Rightarrow> scheduler \<Rightarrow> scheduler" where
  "upd_task p f s = s\<lparr>tasks := (tasks s)(p := f (tasks s p))\<rparr>"

text \<open>
  \<open>switchTask(old, new)\<close>: the registers are saved into \<open>old\<close> and loaded from \<open>new\<close>. The
  extra \<open>push $0\<close> before the final \<open>xchg\<close> makes \<open>eax\<close> the word at address 0 and leaves
  one word (the register block's address) on the new stack.
\<close>

definition switchTask :: "addr \<Rightarrow> addr \<Rightarrow> scheduler \<Rightarrow> scheduler" where
  "switchTask old new s =
     (let s1 = upd_task old (\<lambda>t. t\<lparr>regs := cpu s\<rparr>) s;
          r = regs (tasks s1 new)
      in s1\<lparr>cpu := r\<lparr>eax := word0 s, esp := esp r - 4\<rparr>\<rparr>)"

definition runnable :: "scheduler \<Rightarrow> addr \<Rightarrow> bool" where
  "runnable s p \<longleftrightarrow>
     task_state (tasks s p) = Running \<or>
     task_state (tasks s p) = Sleep \<and> m_timeMs s > wakeupTime (tasks s p)"

partial_function (option) goToNextTask_loop :: "scheduler \<Rightarrow> addr \<Rightarrow> (addr \<times> scheduler) option"
where
  "goToNextTask_loop s nextTask =
     (if nextTask = 0 then Some (0, s)
      else if runnable s nextTask
      then Some (nextTask, upd_task nextTask (\<lambda>t. t\<lparr>task_state := Running\<rparr>) s)
      else goToNextTask_loop s (next_task (tasks s nextTask)))"

definition goToNextTask :: "scheduler \<Rightarrow> (addr \<times> scheduler) option" where
  "goToNextTask s = goToNextTask_loop s (next_task (tasks s (m_runningTask s)))"

text \<open>\<open>schedule\<close> is \<open>None\<close> when the search for a task does not return.\<close>

definition schedule :: "scheduler \<Rightarrow> scheduler option" where
  "schedule s =
     (if schedulerEnabled s then
        do {
          (nxt, s1) \<leftarrow> goToNextTask s;
          if nxt \<noteq> 0
          then Some (switchTask (m_runningTask s) nxt (s1\<lparr>m_runningTask := nxt\<rparr>))
          else Some s1
        }
      else Some s)"

definition scheduler_irqCallback :: "scheduler \<Rightarrow> scheduler option" where
  "scheduler_irqCallback s = schedule (s\<lparr>m_timeMs := m_timeMs s + 1\<rparr>)"

definition sleep :: "u64 \<Rightarrow> scheduler \<Rightarrow> scheduler option" where
  "sleep sleepMs s =
     schedule (upd_task (m_runningTask s)
       (\<lambda>t. t\<lparr>task_state := Sleep, wakeupTime := m_timeMs s + sleepMs\<rparr>) s)"

definition taskStart :: "addr \<Rightarrow> u32 \<Rightarrow> scheduler \<Rightarrow> scheduler" where
  "taskStart task entry s =
     (let s1 = upd_task task (\<lambda>t. t\<lparr>regs := (regs t)\<lparr>eip := entry\<rparr>\<rparr>) s;
          s2 = upd_task (m_taskTail s1) (\<lambda>t. t\<lparr>next_task := task\<rparr>) s1;
          s3 = s2\<lparr>m_taskTail := task\<rparr>
      in upd_task task (\<lambda>t. t\<lparr>next_task := mainTask s3, task_state := Running\<rparr>) s3)"

definition sched_enable :: "scheduler \<Rightarrow> scheduler" where
  "sched_enable s = s\<lparr>schedulerEnabled := True\<rparr>"

definition sched_disable :: "scheduler \<Rightarrow> scheduler" where
  "sched_disable s = s\<lparr>schedulerEnabled := False\<rparr>"

definition getRunningTask :: "scheduler \<Rightarrow> Task" where
  "getRunningTask s = tasks s (m_runningTask s)"

text \<open>
  The invariant: the tasks form a ring that starts at \<open>mainTask\<close> and ends at the tail. With
  the main task alone the ring is not closed (its \<open>next\<close> is still null).
\<close>

definition ring :: "scheduler \<Rightarrow> addr list \<Rightarrow> bool" where
  "ring s ts \<longleftrightarrow>
     ts \<noteq> [] \<and> distinct ts \<and> 0 \<notin> set ts \<and> hd ts = mainTask s \<and> last ts = m_taskTail s \<and>
     m_runningTask s \<in> set ts \<and>
     (\<forall>i < length ts. next_task (tasks s (ts ! i)) =
        (if length ts = 1 then 0 else ts ! (Suc i mod length ts)))"

text \<open>
  The order in which the ring is searched from the task at index \<open>i\<close>: its \<open>k\<close>-th successor
  for \<open>k = 1, 2, \<dots>\<close>, the task itself last.
\<close>

definition ring_at :: "addr list \<Rightarrow> nat \<Rightarrow> nat \<Rightarrow> addr" where
  "ring_at ts i k = ts ! ((i + k) mod length ts)"

section \<open>The search for the next task\<close>

lemma upd_task_simps [simp]:
  "tasks (upd_task p f s) q = (if q = p then f (tasks s p) else tasks s q)"
  "mainTask (upd_task p f s) = mainTask s"
  "m_runningTask (upd_task p f s) = m_runningTask s"
  "m_taskTail (upd_task p f s) = m_taskTail s"
  "m_timeMs (upd_task p f s) = m_timeMs s"
  "schedulerEnabled (upd_task p f s) = schedulerEnabled s"
  "cpu (upd_task p f s) = cpu s"
  "word0 (upd_task p f s) = word0 s"
  by (simp_all add: upd_task_def)

text \<open>Following \<open>next\<close> from \<open>p\<close> visits the list \<open>ps\<close> and arrives at \<open>q\<close>.\<close>

primrec linked :: "scheduler \<Rightarrow> addr \<Rightarrow> addr list \<Rightarrow> addr \<Rightarrow> bool" where
  "linked s p [] q \<longleftrightarrow> p = q"
| "linked s p (x # xs) q \<longleftrightarrow> p = x \<and> linked s (next_task (tasks s x)) xs q"

lemma linked_append:
  "linked s p (xs @ ys) q \<longleftrightarrow> (\<exists>r. linked s p xs r \<and> linked s r ys q)"
  by (induction xs arbitrary: p) auto

lemma goToNextTask_loop_found:
  assumes "linked s p xs q" "0 \<notin> set xs" "\<forall>x \<in> set xs. \<not> runnable s x" "q \<noteq> 0" "runnable s q"
  shows "goToNextTask_loop s p = Some (q, upd_task q (\<lambda>t. t\<lparr>task_state := Running\<rparr>) s)"
  using assms
  by (induction xs arbitrary: p) (auto simp: goToNextTask_loop.simps)

text \<open>A closed chain of tasks none of which can run keeps the search going for ever.\<close>

lemma goToNextTask_loop_diverges:
  assumes "\<And>x. x \<in> A \<Longrightarrow> x \<noteq> 0 \<and> \<not> runnable s x \<and> next_task (tasks s x) \<in> A" "p \<in> A"
  shows "goToNextTask_loop s p = None"
proof (rule ccontr)
  assume "goToNextTask_loop s p \<noteq> None"
  then obtain r where "goToNextTask_loop s p = Some r" by auto
  then have "p \<in> A \<longrightarrow> (\<forall>x. x \<in> A \<longrightarrow> x \<noteq> 0 \<and> \<not> runnable s x \<and> next_task (tasks s x) \<in> A) \<longrightarrow> False"
    by (rule goToNextTask_loop.raw_induct
        [where P = "\<lambda>s p r. p \<in> A \<longrightarrow>
          (\<forall>x. x \<in> A \<longrightarrow> x \<noteq> 0 \<and> \<not> runnable s x \<and> next_task (tasks s x) \<in> A) \<longrightarrow> False", rotated])
      (auto split: if_splits, blast)
  then show False using assms by blast
qed

section \<open>The ring of tasks\<close>

lemma ring_at_mem: "ts \<noteq> [] \<Longrightarrow> ring_at ts i k \<in> set ts"
  by (simp add: ring_at_def)

lemma ring_at_nonzero: "ring s ts \<Longrightarrow> ring_at ts i k \<noteq> 0"
  using ring_at_mem [of ts i k] unfolding ring_def by auto

lemma ring_next:
  assumes "ring s ts" "2 \<le> length ts"
  shows "next_task (tasks s (ring_at ts i k)) = ring_at ts i (Suc k)"
proof -
  have "(i + k) mod length ts < length ts" using assms by (intro mod_less_divisor) auto
  then show ?thesis using assms unfolding ring_def ring_at_def by (auto simp: mod_Suc_eq)
qed

lemma ring_linked:
  assumes "ring s ts" "2 \<le> length ts"
  shows "linked s (ring_at ts i 1) (map (ring_at ts i) [1..<Suc k]) (ring_at ts i (Suc k))"
proof (induction k)
  case 0
  show ?case by simp
next
  case (Suc k)
  have "[1..<Suc (Suc k)] = [1..<Suc k] @ [Suc k]" by simp
  then show ?case using Suc ring_next [OF assms, of i "Suc k"] by (simp add: linked_append)
qed

lemma ring_indexE:
  assumes "ring s ts"
  obtains i where "i < length ts" "m_runningTask s = ts ! i"
  using assms unfolding ring_def by (metis in_set_conv_nth)

text \<open>
  The search returns the first runnable task in ring order. A ring of one task has no
  successor and the search returns the null pointer; a longer ring without a runnable task
  is searched for ever.
\<close>

lemma goToNextTask_ring:
  assumes ring: "ring s ts" and two: "2 \<le> length ts"
    and run: "m_runningTask s = ts ! i" "i < length ts"
    and k: "runnable s (ring_at ts i k)" "0 < k" "\<forall>j. 0 < j \<and> j < k \<longrightarrow> \<not> runnable s (ring_at ts i j)"
  shows "goToNextTask s =
    Some (ring_at ts i k, upd_task (ring_at ts i k) (\<lambda>t. t\<lparr>task_state := Running\<rparr>) s)"
proof -
  have i: "ring_at ts i 0 = m_runningTask s" using run by (simp add: ring_at_def)
  obtain k' where k': "k = Suc k'" using k(2) by (cases k) auto
  have "linked s (ring_at ts i 1) (map (ring_at ts i) [1..<k]) (ring_at ts i k)"
    using ring_linked [OF ring two, of i k'] k' by simp
  moreover have "0 \<notin> set (map (ring_at ts i) [1..<k])" "ring_at ts i k \<noteq> 0"
    using ring_at_nonzero [OF ring] by (auto simp: image_iff)
  moreover have "\<forall>x \<in> set (map (ring_at ts i) [1..<k]). \<not> runnable s x" using k(3) by auto
  ultimately have "goToNextTask_loop s (ring_at ts i 1) =
    Some (ring_at ts i k, upd_task (ring_at ts i k) (\<lambda>t. t\<lparr>task_state := Running\<rparr>) s)"
    using k(1) by (intro goToNextTask_loop_found)
  then show ?thesis using ring_next [OF ring two, of i 0] i by (simp add: goToNextTask_def)
qed

lemma goToNextTask_stuck:
  assumes "ring s ts" "2 \<le> length ts" "\<forall>t \<in> set ts. \<not> runnable s t"
  shows "goToNextTask s = None"
proof -
  obtain i where i: "i < length ts" "m_runningTask s = ts ! i" using ring_indexE [OF assms(1)] .
  have closed: "next_task (tasks s x) \<in> set ts" if x: "x \<in> set ts" for x
  proof -
    obtain j where "j < length ts" "x = ts ! j" using x by (auto simp: in_set_conv_nth)
    then have "x = ring_at ts j 0" by (simp add: ring_at_def)
    then have "next_task (tasks s x) = ring_at ts j 1"
      using ring_next [OF assms(1,2), of j 0] by simp
    then show ?thesis using assms(1) by (auto simp: ring_def intro: ring_at_mem)
  qed
  have "goToNextTask_loop s (next_task (tasks s (m_runningTask s))) = None"
    by (rule goToNextTask_loop_diverges [of "set ts"])
      (use assms closed i in \<open>auto simp: ring_def\<close>)
  then show ?thesis by (simp add: goToNextTask_def)
qed

lemma goToNextTask_alone:
  assumes "ring s [t]"
  shows "goToNextTask s = Some (0, s)"
proof -
  have "m_runningTask s = t" "next_task (tasks s t) = 0" using assms by (auto simp: ring_def)
  then show ?thesis by (simp add: goToNextTask_def goToNextTask_loop.simps [of s 0])
qed

section \<open>Every operation keeps the ring\<close>

lemma ring_upd_task:
  assumes "ring s ts" "\<And>t. next_task (f t) = next_task t"
  shows "ring (upd_task p f s) ts"
  using assms by (auto simp: ring_def)

lemma ring_running:
  assumes "ring s ts" "p \<in> set ts"
  shows "ring (s\<lparr>m_runningTask := p\<rparr>) ts"
  using assms by (auto simp: ring_def)

lemma ring_switch: "ring s ts \<Longrightarrow> ring (switchTask old new s) ts"
  by (auto simp: switchTask_def Let_def ring_def)

lemma ring_time: "ring s ts \<Longrightarrow> ring (s\<lparr>m_timeMs := t\<rparr>) ts"
  by (auto simp: ring_def)

lemma taskStart_ring:
  assumes ring: "ring s ts" and t: "t \<notin> set ts" "t \<noteq> 0"
  shows "ring (taskStart t e s) (ts @ [t])"
proof -
  let ?s = "taskStart t e s" and ?n = "length ts"
  have tail: "m_taskTail s = ts ! (?n - 1)" "m_taskTail s \<in> set ts"
    using ring unfolding ring_def by (metis last_conv_nth, metis last_in_set)
  have n0: "0 < ?n" using ring by (simp add: ring_def)
  have next_t: "next_task (tasks ?s t) = mainTask s" by (simp add: taskStart_def Let_def)
  have next_tail: "next_task (tasks ?s (m_taskTail s)) = t"
    using tail(2) t(1) by (auto simp: taskStart_def Let_def)
  have next_other: "next_task (tasks ?s x) = next_task (tasks s x)"
    if "x \<noteq> t" "x \<noteq> m_taskTail s" for x
    using that by (simp add: taskStart_def Let_def)
  have "next_task (tasks ?s ((ts @ [t]) ! i)) = (ts @ [t]) ! (Suc i mod Suc ?n)" if i: "i \<le> ?n" for i
  proof -
    consider "i = ?n" | "i = ?n - 1" "i < ?n" | "Suc i < ?n" using i by linarith
    then show ?thesis
    proof cases
      case 1
      moreover have "mainTask s = ts ! 0" using ring by (metis ring_def hd_conv_nth)
      ultimately show ?thesis using next_t n0 by (simp add: nth_append)
    next
      case 2
      then have "Suc i = ?n" by linarith
      then show ?thesis using next_tail tail(1) 2 by (simp add: nth_append)
    next
      case 3
      then have "ts ! i \<noteq> m_taskTail s"
        using ring tail(1) by (simp add: ring_def nth_eq_iff_index_eq)
      moreover have "ts ! i \<noteq> t" using t 3 by auto
      moreover have "next_task (tasks s (ts ! i)) = ts ! Suc i" using ring 3 by (simp add: ring_def)
      ultimately show ?thesis using next_other 3 by (simp add: nth_append)
    qed
  qed
  moreover have "mainTask ?s = mainTask s" "m_taskTail ?s = t" "m_runningTask ?s = m_runningTask s"
    by (simp_all add: taskStart_def Let_def)
  moreover have "hd (ts @ [t]) = mainTask s" "m_runningTask s \<in> set (ts @ [t])"
    "distinct (ts @ [t])" "0 \<notin> set (ts @ [t])"
    using ring t by (simp_all add: ring_def)
  ultimately show ?thesis
    using n0 unfolding ring_def by (simp add: less_Suc_eq_le)
qed

text \<open>The three outcomes of the search, each with the state it leaves.\<close>

lemma goToNextTask_cases:
  assumes ring: "ring s ts"
  obtains (alone) "length ts = 1" "goToNextTask s = Some (0, s)"
  | (stuck) "2 \<le> length ts" "\<forall>t \<in> set ts. \<not> runnable s t" "goToNextTask s = None"
  | (found) i k where "2 \<le> length ts" "i < length ts" "m_runningTask s = ts ! i" "0 < k"
      "runnable s (ring_at ts i k)" "\<forall>j. 0 < j \<and> j < k \<longrightarrow> \<not> runnable s (ring_at ts i j)"
      "goToNextTask s =
        Some (ring_at ts i k, upd_task (ring_at ts i k) (\<lambda>t. t\<lparr>task_state := Running\<rparr>) s)"
proof (cases "length ts = 1")
  case True
  then obtain t where "ts = [t]" by (auto simp: length_Suc_conv)
  then show ?thesis using goToNextTask_alone ring True alone by blast
next
  case False
  have "0 < length ts" using ring by (simp add: ring_def)
  then have two: "2 \<le> length ts" using False by linarith
  obtain i where i: "i < length ts" "m_runningTask s = ts ! i" using ring_indexE [OF ring] .
  show ?thesis
  proof (cases "\<exists>t \<in> set ts. runnable s t")
    case True
    then obtain j where j: "j < length ts" "runnable s (ts ! j)" by (auto simp: in_set_conv_nth)
    have "(i + (length ts - i + j)) mod length ts = j" using i j by simp
    then have "runnable s (ring_at ts i (length ts - i + j))" using j by (simp add: ring_at_def)
    then have ex: "\<exists>k. 0 < k \<and> runnable s (ring_at ts i k)" using i(1) by (metis add_gr_0 zero_less_diff)
    define k where "k = (LEAST k. 0 < k \<and> runnable s (ring_at ts i k))"
    have k: "0 < k \<and> runnable s (ring_at ts i k)" unfolding k_def by (rule LeastI_ex [OF ex])
    moreover have first: "\<forall>j. 0 < j \<and> j < k \<longrightarrow> \<not> runnable s (ring_at ts i j)"
      unfolding k_def using not_less_Least by blast
    ultimately show ?thesis
      using found [OF two i] goToNextTask_ring [OF ring two i(2,1)] by blast
  next
    case False
    then show ?thesis using two goToNextTask_stuck [OF ring two] by (intro stuck) auto
  qed
qed

lemma schedule_found:
  assumes "schedulerEnabled s" "goToNextTask s = Some (p, upd_task p f s)" "p \<noteq> 0"
  shows "schedule s = Some (switchTask (m_runningTask s) p ((upd_task p f s)\<lparr>m_runningTask := p\<rparr>))"
  using assms by (simp add: schedule_def)

lemma switchTask_simps [simp]:
  "m_runningTask (switchTask old new s) = m_runningTask s"
  "m_timeMs (switchTask old new s) = m_timeMs s"
  "schedulerEnabled (switchTask old new s) = schedulerEnabled s"
  "task_state (tasks (switchTask old new s) p) = task_state (tasks s p)"
  "wakeupTime (tasks (switchTask old new s) p) = wakeupTime (tasks s p)"
  by (simp_all add: switchTask_def Let_def)

lemma schedule_ring:
  assumes ring: "ring s ts" and "schedule s = Some s'"
  shows "ring s' ts"
proof (cases "schedulerEnabled s")
  case False
  then show ?thesis using assms by (simp add: schedule_def)
next
  case True
  from ring show ?thesis
  proof (cases rule: goToNextTask_cases)
    case alone
    then show ?thesis using assms True by (simp add: schedule_def)
  next
    case stuck
    then show ?thesis using assms True by (simp add: schedule_def)
  next
    case (found i k)
    let ?p = "ring_at ts i k"
    have "s' = switchTask (m_runningTask s) ?p
        ((upd_task ?p (\<lambda>t. t\<lparr>task_state := Running\<rparr>) s)\<lparr>m_runningTask := ?p\<rparr>)"
      using schedule_found [OF True found(7) ring_at_nonzero [OF ring]] assms(2) by simp
    moreover have "?p \<in> set ts" using found(1) by (intro ring_at_mem) auto
    ultimately show ?thesis
      using ring by (simp add: ring_switch ring_running ring_upd_task)
  qed
qed

section \<open>Timer ticks\<close>

primrec ticks :: "nat \<Rightarrow> scheduler \<Rightarrow> scheduler option" where
  "ticks 0 s = Some s"
| "ticks (Suc n) s = Option.bind (scheduler_irqCallback s) (ticks n)"

lemma ring_at_shift:
  assumes "k \<le> d"
  shows "ring_at ts ((i + k) mod length ts) (d - k) = ring_at ts i d"
proof -
  obtain e where "d = k + e" using assms by (auto simp: le_iff_add)
  then show ?thesis by (simp add: ring_at_def mod_add_left_eq add.assoc)
qed

text \<open>One tick moves the running task forward in the ring, never past a task that can run.\<close>

lemma tick_progress:
  assumes ring: "ring s ts" and two: "2 \<le> length ts" and en: "schedulerEnabled s"
    and i: "i < length ts" "m_runningTask s = ts ! i"
    and d: "0 < d" "task_state (tasks s (ring_at ts i d)) = Running"
  obtains k s' where "0 < k" "k \<le> d" "scheduler_irqCallback s = Some s'" "ring s' ts"
    "m_runningTask s' = ring_at ts i k" "schedulerEnabled s'"
    "task_state (tasks s' (ring_at ts i d)) = Running"
proof -
  let ?s = "s\<lparr>m_timeMs := m_timeMs s + 1\<rparr>"
  have ring1: "ring ?s ts" using ring by (rule ring_time)
  have run: "runnable ?s (ring_at ts i d)" using d(2) by (simp add: runnable_def)
  from ring1 show ?thesis
  proof (cases rule: goToNextTask_cases)
    case alone
    then show ?thesis using two by simp
  next
    case stuck
    then show ?thesis using run ring_at_mem [of ts i d] two by fastforce
  next
    case (found i' k)
    have "i' = i" using ring i found(2,3) by (simp add: ring_def nth_eq_iff_index_eq)
    then have "k \<le> d" using found(6) run d(1) by (meson not_le)
    let ?p = "ring_at ts i k"
    let ?s' = "switchTask (m_runningTask s) ?p
        ((upd_task ?p (\<lambda>t. t\<lparr>task_state := Running\<rparr>) ?s)\<lparr>m_runningTask := ?p\<rparr>)"
    have "scheduler_irqCallback s = Some ?s'"
      using schedule_found [of ?s] en found(7) ring_at_nonzero [OF ring] \<open>i' = i\<close>
      by (simp add: scheduler_irqCallback_def)
    moreover have "ring ?s' ts"
      using schedule_ring [OF ring1] calculation by (simp add: scheduler_irqCallback_def)
    ultimately show ?thesis
      using that [of k ?s'] found(4) \<open>k \<le> d\<close> en d(2) by simp
  qed
qed

lemma tick_reaches:
  assumes "ring s ts" "2 \<le> length ts" "schedulerEnabled s"
    "i < length ts" "m_runningTask s = ts ! i"
    "0 < d" "task_state (tasks s (ring_at ts i d)) = Running"
  shows "\<exists>n s'. 0 < n \<and> n \<le> d \<and> ticks n s = Some s' \<and> m_runningTask s' = ring_at ts i d"
  using assms
proof (induction d arbitrary: s i rule: less_induct)
  case (less d)
  obtain k s' where k: "0 < k" "k \<le> d" "scheduler_irqCallback s = Some s'" "ring s' ts"
    "m_runningTask s' = ring_at ts i k" "schedulerEnabled s'"
    "task_state (tasks s' (ring_at ts i d)) = Running"
    using tick_progress [OF less.prems] .
  show ?case
  proof (cases "k = d")
    case True
    then show ?thesis using k less.prems(6) by (intro exI [of _ 1]) auto
  next
    case False
    let ?i = "(i + k) mod length ts"
    have shift: "ring_at ts ?i (d - k) = ring_at ts i d" using k(2) by (rule ring_at_shift)
    have "\<exists>n s''. 0 < n \<and> n \<le> d - k \<and> ticks n s' = Some s'' \<and> m_runningTask s'' = ring_at ts ?i (d - k)"
      using False k less.prems(2) shift
      by (intro less.IH) (auto simp: ring_at_def intro!: mod_less_divisor)
    then obtain n s'' where "0 < n" "n \<le> d - k" "ticks n s' = Some s''"
      "m_runningTask s'' = ring_at ts i d" using shift by auto
    then show ?thesis using k by (intro exI [of _ "Suc n"] exI [of _ s'']) auto
  qed
qed

section \<open>Properties\<close>

text \<open>
  Property C18: starting a task appends it to the ring: the tasks known before keep their
  order, the new task becomes the tail, its successor is the main task, and the scheduler's
  ring invariant still holds.
\<close>

theorem taskStart_keeps_ring:
  assumes "ring s ts" "t \<notin> set ts" "t \<noteq> 0"
  shows "ring (taskStart t entry s) (ts @ [t]) \<and>
    m_taskTail (taskStart t entry s) = t \<and>
    task_state (tasks (taskStart t entry s) t) = Running \<and>
    eip (regs (tasks (taskStart t entry s) t)) = entry"
  using taskStart_ring [OF assms] by (auto simp: taskStart_def Let_def)

definition idle_regs :: TaskRegisters where
  "idle_regs = \<lparr>eax = 0, ebx = 0, ecx = 0, edx = 0, esi = 0, edi = 0, esp = 0, ebp = 0,
     eip = 0, eflags = 0, cr3 = 0\<rparr>"

definition booted :: scheduler where
  "booted = \<lparr>tasks = (\<lambda>_. \<lparr>regs = idle_regs, next_task = 0, task_name = ''main'', wakeupTime = 0,
       task_state = Running\<rparr>),
     mainTask = 16, m_runningTask = 16, m_taskTail = 16, m_timeMs = 0, schedulerEnabled = True,
     cpu = idle_regs, word0 = 7\<rparr>"

lemma booted_ring: "ring booted [16]"
  by (simp add: booted_def ring_def)

theorem taskStart_keeps_ring_witness:
  "ring (taskStart 32 4096 booted) [16, 32] \<and> m_taskTail (taskStart 32 4096 booted) = 32"
  using taskStart_keeps_ring [OF booted_ring, of 32 4096] by simp

text \<open>
  Property C9: the scheduler is fair. From any state of a ring of at least two tasks, a task
  in state \<open>Running\<close> is switched to within as many timer interrupts as it is places after
  the current task in the ring, whatever the other tasks do with their sleep times.
\<close>

theorem running_task_is_scheduled:
  assumes "ring s ts" "2 \<le> length ts" "schedulerEnabled s"
    "i < length ts" "m_runningTask s = ts ! i"
    "j < length ts" "task_state (tasks s (ts ! j)) = Running"
  shows "\<exists>n s'. 0 < n \<and> n \<le> length ts \<and> ticks n s = Some s' \<and> m_runningTask s' = ts ! j"
proof -
  define d where "d = (if i < j then j - i else length ts - i + j)"
  have d: "0 < d" "d \<le> length ts" using assms(4,6) by (auto simp: d_def)
  have "ring_at ts i d = ts ! j" using assms(4,6) by (simp add: ring_at_def d_def)
  then show ?thesis using tick_reaches [OF assms(1-5) d(1)] assms(7) d(2) by fastforce
qed

theorem running_task_is_scheduled_witness:
  "\<exists>n s'. 0 < n \<and> n \<le> 2 \<and> ticks n (taskStart 32 4096 booted) = Some s' \<and> m_runningTask s' = 32"
proof -
  have "ring (taskStart 32 4096 booted) [16, 32]"
    using taskStart_ring [OF booted_ring, of 32] by simp
  from running_task_is_scheduled [OF this, of 0 1] show ?thesis
    by (simp add: taskStart_def Let_def booted_def numeral_2_eq_2)
qed

text \<open>
  Property C20: a task is never resumed early. Whenever a call of \<open>schedule\<close> switches tasks,
  the task it picks was in state \<open>Running\<close>, or asleep with a wake-up time strictly before the
  current time; it is in state \<open>Running\<close> afterwards and the ring is kept.
\<close>

theorem schedule_picks_runnable:
  assumes "ring s ts" "schedule s = Some s'" "m_runningTask s' \<noteq> m_runningTask s"
  shows "ring s' ts \<and> runnable s (m_runningTask s') \<and>
    task_state (tasks s' (m_runningTask s')) = Running"
proof (cases "schedulerEnabled s")
  case False
  then show ?thesis using assms by (simp add: schedule_def)
next
  case True
  from assms(1) show ?thesis
  proof (cases rule: goToNextTask_cases)
    case (found i k)
    have "s' = switchTask (m_runningTask s) (ring_at ts i k)
        ((upd_task (ring_at ts i k) (\<lambda>t. t\<lparr>task_state := Running\<rparr>) s)\<lparr>m_runningTask := ring_at ts i k\<rparr>)"
      using schedule_found [OF True found(7) ring_at_nonzero [OF assms(1)]] assms(2) by simp
    then show ?thesis using schedule_ring [OF assms(1,2)] found(5) by simp
  qed (use assms True in \<open>auto simp: schedule_def\<close>)
qed

theorem schedule_picks_runnable_witness:
  "\<exists>s'. schedule (taskStart 32 4096 booted) = Some s' \<and>
     runnable (taskStart 32 4096 booted) (m_runningTask s')"
proof -
  let ?s = "taskStart 32 4096 booted"
  have ring: "ring ?s [16, 32]" using taskStart_ring [OF booted_ring, of 32] by simp
  have "goToNextTask ?s = Some (32, upd_task 32 (\<lambda>t. t\<lparr>task_state := Running\<rparr>) ?s)"
    by (simp add: goToNextTask_def goToNextTask_loop.simps taskStart_def Let_def booted_def runnable_def)
  then have "schedule ?s = Some (switchTask 16 32
      ((upd_task 32 (\<lambda>t. t\<lparr>task_state := Running\<rparr>) ?s)\<lparr>m_runningTask := 32\<rparr>))"
    using schedule_found [of ?s 32] by (simp add: taskStart_def Let_def booted_def)
  moreover from schedule_picks_runnable [OF ring this] have "runnable ?s 32"
    by (simp add: taskStart_def Let_def booted_def)
  ultimately show ?thesis by simp
qed

text \<open>
  Property C40: if every task of a ring of two or more is asleep and none is due, the search
  for the next task never returns, and neither does the \<open>schedule\<close> call of a timer interrupt
  or of \<open>sleep\<close>: there is no idle task to fall back on.
\<close>

theorem all_asleep_hangs:
  assumes "ring s ts" "2 \<le> length ts" "schedulerEnabled s"
    "\<forall>t \<in> set ts. task_state (tasks s t) = Sleep \<and> m_timeMs s \<le> wakeupTime (tasks s t)"
  shows "schedule s = None"
proof -
  have "goToNextTask s = None"
    using assms by (intro goToNextTask_stuck) (auto simp: runnable_def)
  then show ?thesis using assms(3) by (simp add: schedule_def)
qed

definition both_asleep :: scheduler where
  "both_asleep = upd_task 16 (\<lambda>t. t\<lparr>task_state := Sleep, wakeupTime := 9\<rparr>)
     (upd_task 32 (\<lambda>t. t\<lparr>task_state := Sleep, wakeupTime := 9\<rparr>) (taskStart 32 4096 booted))"

theorem all_asleep_hangs_witness: "schedule both_asleep = None"
proof -
  have "ring (taskStart 32 4096 booted) [16, 32]"
    using taskStart_ring [OF booted_ring, of 32] by simp
  then have "ring both_asleep [16, 32]" by (simp add: both_asleep_def ring_upd_task)
  from all_asleep_hangs [OF this] show ?thesis
    by (simp add: both_asleep_def taskStart_def Let_def booted_def)
qed

text \<open>
  Switching away from a task and back restores its program counter, flags, page
  directory and every general register except \<open>eax\<close> and \<open>esp\<close>: \<open>eax\<close> comes back as the
  word at address 0, and the stack pointer four bytes below the saved one.
\<close>

theorem switch_there_and_back:
  assumes "p \<noteq> q"
  shows "cpu (switchTask q p (switchTask p q s)) =
    (cpu s)\<lparr>eax := word0 s, esp := esp (cpu s) - 4\<rparr>"
  using assms by (simp add: switchTask_def Let_def)

theorem switch_there_and_back_witness:
  "cpu (switchTask 32 16 (switchTask 16 32 booted)) = idle_regs\<lparr>eax := 7, esp := - 4\<rparr>"
  using switch_there_and_back [of 16 32 booted] by (simp add: booted_def idle_regs_def)

end
