(* ===== verification/RingBuffer.thy ===== *)
theory RingBuffer
  imports Scheduler
begin

text \<open>
  The fixed-size queue template of \<open>Kernel/Libk/RingBuffer.h\<close>. Both operations run with the
  scheduler disabled and enable it before they return, so they act on a pair of the buffer and
  the scheduler. The queue's contract is the locale \<open>bounded_queue\<close>, which the template
  interprets for every capacity up to \<open>2 ^ 31\<close>.
\<close>

section \<open>Definitions\<close>

record 'a ringbuffer =
  m_buffer :: "'a list"
  m_head :: u32
  m_numElements :: u32

definition isFull :: "u32 \<Rightarrow> 'a ringbuffer \<Rightarrow> bool" where
  "isFull maxElements b \<longleftrightarrow> m_numElements b \<ge> maxElements"

definition isEmpty :: "'a ringbuffer \<Rightarrow> bool" where
  "isEmpty b \<longleftrightarrow> m_numElements b = 0"

definition numElements :: "'a ringbuffer \<Rightarrow> u32" where
  "numElements b = m_numElements b"

definition getTail :: "u32 \<Rightarrow> 'a ringbuffer \<Rightarrow> u32" where
  "getTail maxElements b = (m_head b + (maxElements - m_numElements b)) mod maxElements"

definition push ::
  "u32 \<Rightarrow> 'a \<Rightarrow> bool \<Rightarrow> 'a ringbuffer \<times> scheduler \<Rightarrow> bool \<times> 'a ringbuffer \<times> scheduler" where
  "push maxElements element force bs =
     (let (b, s) = bs;
          s1 = sched_disable s;
          full = isFull maxElements b;
          b1 = (if \<not> full \<or> force
                then b\<lparr>m_buffer := (m_buffer b)[unat (m_head b) := element],
                       m_head := (m_head b + 1) mod maxElements,
                       m_numElements := (if full then m_numElements b else m_numElements b + 1)\<rparr>
                else b);
          s2 = sched_enable s1
      in (\<not> full, b1, s2))"

text \<open>\<open>pop\<close> returns the element (the value stored through its pointer argument) when there is one.\<close>

definition pop ::
  "u32 \<Rightarrow> 'a ringbuffer \<times> scheduler \<Rightarrow> 'a option \<times> 'a ringbuffer \<times> scheduler" where
  "pop maxElements bs =
     (let (b, s) = bs;
          s1 = sched_disable s;
          (e, b1) = (if \<not> isEmpty b
                     then (Some (m_buffer b ! unat (getTail maxElements b)),
                           b\<lparr>m_numElements := m_numElements b - 1\<rparr>)
                     else (None, b));
          s2 = sched_enable s1
      in (e, b1, s2))"

text \<open>The queue a buffer stands for, oldest element first, and the class invariant.\<close>

definition rb_inv :: "u32 \<Rightarrow> 'a ringbuffer \<Rightarrow> bool" where
  "rb_inv mx b \<longleftrightarrow>
     0 < mx \<and> unat mx \<le> 2 ^ 31 \<and> length (m_buffer b) = unat mx \<and> m_head b < mx \<and>
     m_numElements b \<le> mx"

definition rb_tail :: "u32 \<Rightarrow> 'a ringbuffer \<Rightarrow> nat" where
  "rb_tail mx b = (unat (m_head b) + (unat mx - unat (m_numElements b))) mod unat mx"

definition rb_queue :: "u32 \<Rightarrow> 'a ringbuffer \<Rightarrow> 'a list" where
  "rb_queue mx b =
     map (\<lambda>i. m_buffer b ! ((rb_tail mx b + i) mod unat mx)) [0..<unat (m_numElements b)]"

section \<open>The contract of a bounded queue\<close>

text \<open>
  \<open>enq x q\<close> appends unless the queue is full and says whether it did; \<open>enq_force x q\<close> drops
  the oldest element when full; \<open>deq q\<close> takes the oldest element.
\<close>

locale bounded_queue =
  fixes enq :: "'a \<Rightarrow> 'q \<Rightarrow> bool \<times> 'q"
    and enq_force :: "'a \<Rightarrow> 'q \<Rightarrow> bool \<times> 'q"
    and deq :: "'q \<Rightarrow> 'a option \<times> 'q"
    and items :: "'q \<Rightarrow> 'a list"
    and inv :: "'q \<Rightarrow> bool"
    and cap :: nat
  assumes cap_pos: "0 < cap"
    and items_bound: "inv q \<Longrightarrow> length (items q) \<le> cap"
    and enq_inv: "inv q \<Longrightarrow> inv (snd (enq x q))"
    and force_inv: "inv q \<Longrightarrow> inv (snd (enq_force x q))"
    and deq_inv: "inv q \<Longrightarrow> inv (snd (deq q))"
    and enq_room: "inv q \<Longrightarrow> length (items q) < cap \<Longrightarrow>
      fst (enq x q) \<and> items (snd (enq x q)) = items q @ [x]"
    and enq_full: "inv q \<Longrightarrow> length (items q) = cap \<Longrightarrow>
      \<not> fst (enq x q) \<and> items (snd (enq x q)) = items q"
    and force_room: "inv q \<Longrightarrow> length (items q) < cap \<Longrightarrow>
      fst (enq_force x q) \<and> items (snd (enq_force x q)) = items q @ [x]"
    and force_full: "inv q \<Longrightarrow> length (items q) = cap \<Longrightarrow>
      \<not> fst (enq_force x q) \<and> items (snd (enq_force x q)) = tl (items q) @ [x]"
    and deq_some: "inv q \<Longrightarrow> items q = y # ys \<Longrightarrow> fst (deq q) = Some y \<and> items (snd (deq q)) = ys"
    and deq_none: "inv q \<Longrightarrow> items q = [] \<Longrightarrow> fst (deq q) = None \<and> items (snd (deq q)) = []"
begin

primrec enq_all :: "'a list \<Rightarrow> 'q \<Rightarrow> 'q" where
  "enq_all [] q = q"
| "enq_all (x # xs) q = enq_all xs (snd (enq x q))"

primrec deq_many :: "nat \<Rightarrow> 'q \<Rightarrow> 'a option list \<times> 'q" where
  "deq_many 0 q = ([], q)"
| "deq_many (Suc n) q =
     (let (x, q1) = deq q; (xs, q2) = deq_many n q1 in (x # xs, q2))"

text \<open>What is put in while there is room stays in order; what does not fit is dropped.\<close>

lemma enq_all_items:
  "inv q \<Longrightarrow> inv (enq_all xs q) \<and> items (enq_all xs q) = take cap (items q @ xs)"
proof (induction xs arbitrary: q)
  case Nil
  then show ?case using items_bound by simp
next
  case (Cons x xs)
  have q1: "inv (snd (enq x q))" using Cons.prems by (rule enq_inv)
  show ?case
  proof (cases "length (items q) < cap")
    case True
    then show ?thesis using Cons.IH [OF q1] enq_room [OF Cons.prems True, of x] by simp
  next
    case False
    then have full: "length (items q) = cap" using items_bound [OF Cons.prems] by simp
    then show ?thesis using Cons.IH [OF q1] enq_full [OF Cons.prems full, of x] by simp
  qed
qed

lemma deq_many_items:
  "inv q \<Longrightarrow> n \<le> length (items q) \<Longrightarrow>
    fst (deq_many n q) = map Some (take n (items q)) \<and>
    items (snd (deq_many n q)) = drop n (items q) \<and> inv (snd (deq_many n q))"
proof (induction n arbitrary: q)
  case 0
  then show ?case by simp
next
  case (Suc n)
  obtain y ys where q: "items q = y # ys" using Suc.prems(2) by (cases "items q") auto
  have q1: "inv (snd (deq q))" using Suc.prems(1) by (rule deq_inv)
  have "fst (deq q) = Some y" "items (snd (deq q)) = ys" using deq_some [OF Suc.prems(1) q] by auto
  then show ?case using Suc.IH [OF q1] Suc.prems(2) q by (simp add: split_beta Let_def)
qed

text \<open>First in, first out: what was put into an empty queue comes out in the same order.\<close>

lemma fifo:
  assumes "inv q" "items q = []" "length xs \<le> cap"
  shows "fst (deq_many (length xs) (enq_all xs q)) = map Some xs"
proof -
  have "inv (enq_all xs q)" "items (enq_all xs q) = xs"
    using enq_all_items [OF assms(1), of xs] assms(2,3) by auto
  then show ?thesis using deq_many_items [of "enq_all xs q" "length xs"] by simp
qed

end

section \<open>The template implements the contract\<close>

lemma rb_inv_nat:
  assumes "rb_inv mx b"
  shows "0 < unat mx" "unat mx \<le> 2 ^ 31" "length (m_buffer b) = unat mx"
    "unat (m_head b) < unat mx" "unat (m_numElements b) \<le> unat mx"
  using assms by (auto simp: rb_inv_def word_less_nat_alt word_le_nat_alt unat_gt_0)

lemma getTail_nat:
  assumes "rb_inv mx b"
  shows "unat (getTail mx b) = rb_tail mx b"
proof -
  note n = rb_inv_nat [OF assms]
  have "unat (mx - m_numElements b) = unat mx - unat (m_numElements b)"
    using n by (simp add: unat_sub word_le_nat_alt)
  moreover have "unat (m_head b) + (unat mx - unat (m_numElements b)) < 2 ^ 32" using n by simp
  ultimately show ?thesis
    by (simp add: getTail_def rb_tail_def unat_mod unat_word_ariths)
qed

lemma head_nat:
  assumes "rb_inv mx b"
  shows "unat ((m_head b + 1) mod mx) = Suc (unat (m_head b)) mod unat mx"
proof -
  have "unat (m_head b + 1) = Suc (unat (m_head b))"
    using assms by (intro unat_Suc_less [of _ mx]) (simp add: rb_inv_def)
  then show ?thesis by (simp add: unat_mod)
qed

text \<open>
  The index arithmetic, on natural numbers: slot \<open>(h + (n - c) + i) mod n\<close> holds the \<open>i\<close>-th
  oldest of the \<open>c\<close> elements when the head is at \<open>h\<close> in a buffer of \<open>n\<close> slots.
\<close>

definition slots :: "'a list \<Rightarrow> nat \<Rightarrow> nat \<Rightarrow> nat \<Rightarrow> 'a list" where
  "slots buf n h c = map (\<lambda>i. buf ! ((h + (n - c) + i) mod n)) [0..<c]"

lemma rb_queue_slots:
  assumes "rb_inv mx b"
  shows "rb_queue mx b = slots (m_buffer b) (unat mx) (unat (m_head b)) (unat (m_numElements b))"
  by (simp add: rb_queue_def rb_tail_def slots_def mod_add_left_eq)

lemma head_not_slot:
  assumes "(h::nat) < n" "0 < j" "j < n"
  shows "h \<noteq> (h + j) mod n"
proof (cases "h + j < n")
  case True
  then show ?thesis using assms by simp
next
  case False
  then have "(h + j) mod n = h + j - n" using assms by (simp add: le_mod_geq)
  then show ?thesis using assms False by linarith
qed

lemma slots_push:
  assumes "h < n" "c < n" "length buf = n"
  shows "slots (buf[h := x]) n (Suc h mod n) (Suc c) = slots buf n h c @ [x]"
proof -
  let ?j = "\<lambda>i. (h + (n - c) + i) mod n"
  have idx: "(Suc h mod n + (n - Suc c) + i) mod n = ?j i" for i
  proof -
    have "(Suc h mod n + (n - Suc c) + i) mod n = (Suc h + ((n - Suc c) + i)) mod n"
      by (simp add: mod_add_left_eq add.assoc)
    also have "Suc h + ((n - Suc c) + i) = h + (n - c) + i" using assms(2) by simp
    finally show ?thesis .
  qed
  have "h \<noteq> ?j i" if "i < c" for i
    using head_not_slot [of h n "n - c + i"] assms that by (simp add: add.assoc)
  then have old: "map (\<lambda>i. buf[h := x] ! ?j i) [0..<c] = map (\<lambda>i. buf ! ?j i) [0..<c]"
    by (intro map_cong refl nth_list_update_neq) auto
  have "?j c = h" using assms by simp
  then have new: "buf[h := x] ! ?j c = x" using assms by (simp only: nth_list_update_eq)
  show ?thesis using old new by (simp only: slots_def idx upt_Suc map_append list.map) simp
qed

lemma slots_force:
  assumes "h < n" "length buf = n"
  shows "slots (buf[h := x]) n (Suc h mod n) n = tl (slots buf n h n) @ [x]"
proof -
  let ?j = "\<lambda>i. (h + Suc i) mod n"
  have idx: "(Suc h mod n + (n - n) + i) mod n = ?j i" for i
    by (simp add: mod_add_left_eq)
  obtain k where k: "n = Suc k" using assms(1) by (cases n) auto
  have "h \<noteq> ?j i" if "i < k" for i
    using head_not_slot [of h n "Suc i"] assms that k by simp
  then have old: "map (\<lambda>i. buf[h := x] ! ?j i) [0..<k] = map (\<lambda>i. buf ! ?j i) [0..<k]"
    by (intro map_cong refl nth_list_update_neq) auto
  have "?j k = (h + n) mod n" by (simp only: k)
  then have "?j k = h" using assms by simp
  then have new: "buf[h := x] ! ?j k = x" using assms by (simp only: nth_list_update_eq)
  have "[0..<n] = 0 # map Suc [0..<k]" by (simp add: k upt_conv_Cons map_Suc_upt)
  then have "tl (slots buf n h n) = map (\<lambda>i. buf ! ?j i) [0..<k]"
    by (simp add: slots_def comp_def)
  moreover have "slots (buf[h := x]) n (Suc h mod n) n =
      map (\<lambda>i. buf[h := x] ! ?j i) [0..<k] @ [buf[h := x] ! ?j k]"
    by (simp only: slots_def idx) (simp add: k)
  ultimately show ?thesis by (simp only: old new)
qed

lemma slots_pop:
  assumes "h < n" "0 < c" "c \<le> n"
  shows "slots buf n h c = buf ! ((h + (n - c)) mod n) # slots buf n h (c - 1)"
proof -
  obtain k where k: "c = Suc k" using assms(2) by (cases c) auto
  have "[0..<Suc k] = 0 # map Suc [0..<k]" by (simp add: upt_conv_Cons map_Suc_upt)
  moreover have "h + (n - Suc k) + Suc i = h + (n - k) + i" for i using assms(3) k by simp
  ultimately show ?thesis by (simp add: slots_def k comp_def)
qed

lemma rb_items_full: "rb_inv mx b \<Longrightarrow> isFull mx b \<longleftrightarrow> length (rb_queue mx b) = unat mx"
  by (auto simp: isFull_def rb_queue_def rb_inv_def word_le_nat_alt)

lemma num_nat:
  assumes "rb_inv mx b" "\<not> isFull mx b"
  shows "unat (m_numElements b + 1) = Suc (unat (m_numElements b))"
  using assms by (intro unat_Suc_less [of _ mx]) (simp add: isFull_def)

lemma push_inv:
  assumes inv: "rb_inv mx b"
  shows "rb_inv mx (fst (snd (push mx x f (b, s))))"
proof -
  have head: "(m_head b + 1) mod mx < mx"
    using rb_inv_nat(1) [OF inv] by (simp add: word_less_nat_alt unat_mod)
  have "m_numElements b + 1 \<le> mx" if "\<not> isFull mx b"
    using num_nat [OF inv that] that by (simp add: isFull_def word_le_nat_alt)
  then show ?thesis using inv head by (simp add: push_def Let_def rb_inv_def)
qed

lemma push_queue:
  assumes inv: "rb_inv mx b"
  shows "fst (push mx x f (b, s)) = (length (rb_queue mx b) < unat mx)"
    "rb_queue mx (fst (snd (push mx x f (b, s)))) =
       (if length (rb_queue mx b) < unat mx then rb_queue mx b @ [x]
        else if f then tl (rb_queue mx b) @ [x] else rb_queue mx b)"
proof -
  note n = rb_inv_nat [OF inv]
  have len: "length (rb_queue mx b) = unat (m_numElements b)" by (simp add: rb_queue_def)
  have room: "(length (rb_queue mx b) < unat mx) = (\<not> isFull mx b)"
    using rb_items_full [OF inv] n(5) len by linarith
  show "fst (push mx x f (b, s)) = (length (rb_queue mx b) < unat mx)"
    using room by (simp add: push_def Let_def)
  let ?b = "fst (snd (push mx x f (b, s)))"
  have inv': "rb_inv mx ?b" using inv by (rule push_inv)
  consider (room) "\<not> isFull mx b" | (force) "isFull mx b" "f" | (full) "isFull mx b" "\<not> f" by blast
  then show "rb_queue mx ?b =
       (if length (rb_queue mx b) < unat mx then rb_queue mx b @ [x]
        else if f then tl (rb_queue mx b) @ [x] else rb_queue mx b)"
  proof cases
    case room
    then have b: "m_buffer ?b = (m_buffer b)[unat (m_head b) := x]"
      "m_head ?b = (m_head b + 1) mod mx" "m_numElements ?b = m_numElements b + 1"
      by (simp_all add: push_def Let_def)
    have c: "unat (m_numElements b) < unat mx" using room by (simp add: isFull_def word_le_nat_alt)
    show ?thesis
      using slots_push [OF n(4) c n(3), of x] rb_queue_slots [OF inv] rb_queue_slots [OF inv']
        head_nat [OF inv] num_nat [OF inv room] c len by (simp add: b)
  next
    case force
    then have b: "m_buffer ?b = (m_buffer b)[unat (m_head b) := x]"
      "m_head ?b = (m_head b + 1) mod mx" "m_numElements ?b = m_numElements b"
      by (simp_all add: push_def Let_def)
    have c: "unat (m_numElements b) = unat mx"
      using force(1) n(5) by (simp add: isFull_def word_le_nat_alt)
    have "rb_queue mx ?b = tl (rb_queue mx b) @ [x]"
      unfolding rb_queue_slots [OF inv'] rb_queue_slots [OF inv] b head_nat [OF inv] c
      by (rule slots_force [OF n(4) n(3)])
    then show ?thesis using c len force(2) by simp
  next
    case full
    then show ?thesis using room by (simp add: push_def Let_def)
  qed
qed

lemma pop_inv:
  assumes inv: "rb_inv mx b"
  shows "rb_inv mx (fst (snd (pop mx (b, s))))"
proof -
  have "m_numElements b - 1 \<le> mx" if "\<not> isEmpty b"
    using rb_inv_nat(5) [OF inv] that by (simp add: isEmpty_def word_le_nat_alt unat_minus_one)
  then show ?thesis using inv by (simp add: pop_def Let_def rb_inv_def)
qed

lemma pop_queue:
  assumes inv: "rb_inv mx b"
  shows "fst (pop mx (b, s)) = (case rb_queue mx b of [] \<Rightarrow> None | y # ys \<Rightarrow> Some y)"
    "rb_queue mx (fst (snd (pop mx (b, s)))) = tl (rb_queue mx b)"
proof -
  note n = rb_inv_nat [OF inv]
  let ?b = "fst (snd (pop mx (b, s)))"
  have inv': "rb_inv mx ?b" using inv by (rule pop_inv)
  have "fst (pop mx (b, s)) = (case rb_queue mx b of [] \<Rightarrow> None | y # ys \<Rightarrow> Some y) \<and>
    rb_queue mx ?b = tl (rb_queue mx b)"
  proof (cases "isEmpty b")
    case True
    then have "rb_queue mx b = []" by (simp add: rb_queue_def isEmpty_def)
    then show ?thesis using True by (simp add: pop_def Let_def)
  next
    case False
    then have c: "0 < unat (m_numElements b)" by (simp add: isEmpty_def unat_gt_0)
    have b: "m_buffer ?b = m_buffer b" "m_head ?b = m_head b" "m_numElements ?b = m_numElements b - 1"
      using False by (simp_all add: pop_def Let_def)
    have "unat (m_numElements ?b) = unat (m_numElements b) - 1"
      using False b(3) by (simp add: unat_minus_one isEmpty_def)
    then have "rb_queue mx b = m_buffer b ! rb_tail mx b # rb_queue mx ?b"
      using slots_pop [OF n(4) c n(5), of "m_buffer b"] rb_queue_slots [OF inv] rb_queue_slots [OF inv']
      by (simp add: b rb_tail_def)
    moreover have "fst (pop mx (b, s)) = Some (m_buffer b ! rb_tail mx b)"
      using False getTail_nat [OF inv] by (simp add: pop_def Let_def)
    ultimately show ?thesis by simp
  qed
  then show "fst (pop mx (b, s)) = (case rb_queue mx b of [] \<Rightarrow> None | y # ys \<Rightarrow> Some y)"
    "rb_queue mx ?b = tl (rb_queue mx b)" by auto
qed

text \<open>The scheduler is left enabled and otherwise untouched by both operations.\<close>

lemma push_sched: "snd (snd (push mx x f (b, s))) = s\<lparr>schedulerEnabled := True\<rparr>"
  by (simp add: push_def Let_def sched_enable_def sched_disable_def)

lemma pop_sched: "snd (snd (pop mx (b, s))) = s\<lparr>schedulerEnabled := True\<rparr>"
  by (simp add: pop_def Let_def sched_enable_def sched_disable_def split_beta)

lemma ringbuffer_is_bounded_queue:
  assumes "0 < mx" "unat mx \<le> 2 ^ 31"
  shows "bounded_queue (\<lambda>x. push mx x False) (\<lambda>x. push mx x True) (pop mx)
    (\<lambda>q. rb_queue mx (fst q)) (\<lambda>q. rb_inv mx (fst q)) (unat mx)"
proof unfold_locales
  show "0 < unat mx" using assms(1) by (simp add: unat_gt_0)
next
  fix q :: "'a ringbuffer \<times> scheduler" assume "rb_inv mx (fst q)"
  then show "length (rb_queue mx (fst q)) \<le> unat mx"
    using rb_inv_nat(5) by (simp add: rb_queue_def)
qed (auto simp: push_inv pop_inv push_queue pop_queue)

section \<open>Properties\<close>

text \<open>
  Property C12: the ring buffer refines a bounded queue. Under the class invariant, \<open>push\<close>
  appends the element if there is room and reports it; on a full buffer it changes nothing
  unless forced, when the oldest element makes way (and \<open>false\<close> is returned although the
  element was stored); \<open>pop\<close> removes and returns the oldest element; both keep the invariant
  and leave the scheduler enabled.
\<close>

theorem ringbuffer_refines_queue:
  assumes "rb_inv mx b"
  shows "(let (ok, b', s') = push mx x force (b, s) in
      rb_inv mx b' \<and> s' = s\<lparr>schedulerEnabled := True\<rparr> \<and>
      (ok \<longleftrightarrow> length (rb_queue mx b) < unat mx) \<and>
      rb_queue mx b' =
        (if ok then rb_queue mx b @ [x]
         else if force then tl (rb_queue mx b) @ [x] else rb_queue mx b)) \<and>
    (let (e, b', s') = pop mx (b, s) in
      rb_inv mx b' \<and> s' = s\<lparr>schedulerEnabled := True\<rparr> \<and>
      e = (case rb_queue mx b of [] \<Rightarrow> None | y # ys \<Rightarrow> Some y) \<and>
      rb_queue mx b' = tl (rb_queue mx b))"
proof
  obtain ok b' s' where push: "push mx x force (b, s) = (ok, b', s')" by (cases "push mx x force (b, s)")
  show "let (ok, b', s') = push mx x force (b, s) in
      rb_inv mx b' \<and> s' = s\<lparr>schedulerEnabled := True\<rparr> \<and>
      (ok \<longleftrightarrow> length (rb_queue mx b) < unat mx) \<and>
      rb_queue mx b' =
        (if ok then rb_queue mx b @ [x]
         else if force then tl (rb_queue mx b) @ [x] else rb_queue mx b)"
    using push_inv [OF assms, of x force s] push_queue [OF assms, of x force s]
      push_sched [of mx x force b s] by (simp add: push)
  obtain e b' s' where pop: "pop mx (b, s) = (e, b', s')" by (cases "pop mx (b, s)")
  show "let (e, b', s') = pop mx (b, s) in
      rb_inv mx b' \<and> s' = s\<lparr>schedulerEnabled := True\<rparr> \<and>
      e = (case rb_queue mx b of [] \<Rightarrow> None | y # ys \<Rightarrow> Some y) \<and>
      rb_queue mx b' = tl (rb_queue mx b)"
    using pop_inv [OF assms, of s] pop_queue [OF assms, of s] pop_sched [of mx b s] by (simp add: pop)
qed

theorem ringbuffer_refines_queue_witness:
  "(let (ok, b', s') = push 2 (5::nat) False (\<lparr>m_buffer = [8, 9], m_head = 1, m_numElements = 1\<rparr>, booted)
    in ok \<and> rb_queue 2 b' = [8, 5])"
  using ringbuffer_refines_queue
    [of 2 "\<lparr>m_buffer = [8, 9], m_head = 1, m_numElements = 1\<rparr> :: nat ringbuffer" 5 False booted]
  by (simp add: rb_inv_def rb_queue_def rb_tail_def Let_def split_beta)

end
