(* ===== verification/Printf.thy ===== *)
theory Printf
  imports Libk_String "HOL-Library.Signed_Division"
begin

text \<open>
  The formatter of \<open>Kernel/Libk/vsnprintf.c\<close> and \<open>printk\<close>'s use of it in
  \<open>Kernel/Libk/Libk.cpp\<close>.

  The character arrays \<open>buf\<close> in which a number is built are filled from index 0 and read only
  below \<open>len\<close>, so an array with its \<open>len\<close> is the list of the first \<open>len\<close> characters:
  \<open>buf[len++] = c\<close> is \<open>buf @ [c]\<close> and \<open>len--\<close> is \<open>butlast\<close>. That such a list never exceeds
  the array is a theorem. A format string is the list of its characters without the terminating
  zero; stepping past the terminator is a fault. A \<open>va_list\<close> is the list of the arguments still
  to be read, and reading one at the wrong type or past the end is a fault. Floating-point
  values are their bit patterns and the floating-point unit is a parameter, \<open>fpu\<close>.
\<close>

section \<open>Definitions\<close>

subsection \<open>Output\<close>

datatype out_fct_type = Out_buffer | Out_null | Out_char | Out_fct

text \<open>What the output functions act on: memory, and the characters given to \<open>putchar\<close> and to a callback.\<close>

record world =
  mem :: memory
  putchar_log :: "u8 list"
  fct_log :: "u8 list"

definition out_buffer :: "u8 \<Rightarrow> addr \<Rightarrow> u32 \<Rightarrow> u32 \<Rightarrow> world \<Rightarrow> world" where
  "out_buffer character buffer idx maxlen w =
     (if idx < maxlen then w\<lparr>mem := (mem w)(buffer + idx := character)\<rparr> else w)"

definition out_null :: "u8 \<Rightarrow> addr \<Rightarrow> u32 \<Rightarrow> u32 \<Rightarrow> world \<Rightarrow> world" where
  "out_null character buffer idx maxlen w = w"

definition out_char :: "u8 \<Rightarrow> addr \<Rightarrow> u32 \<Rightarrow> u32 \<Rightarrow> world \<Rightarrow> world" where
  "out_char character buffer idx maxlen w =
     (if character \<noteq> 0 then w\<lparr>putchar_log := putchar_log w @ [character]\<rparr> else w)"

definition out_fct :: "u8 \<Rightarrow> addr \<Rightarrow> u32 \<Rightarrow> u32 \<Rightarrow> world \<Rightarrow> world" where
  "out_fct character buffer idx maxlen w =
     (if character \<noteq> 0 then w\<lparr>fct_log := fct_log w @ [character]\<rparr> else w)"

text \<open>The constant arguments of every conversion routine: \<open>out\<close>, \<open>buffer\<close> and \<open>maxlen\<close>.\<close>

record sink =
  out :: out_fct_type
  buffer :: addr
  maxlen :: u32

definition out_call :: "sink \<Rightarrow> u8 \<Rightarrow> u32 \<Rightarrow> world \<Rightarrow> world" where
  "out_call k c idx w =
     (case out k of
        Out_buffer \<Rightarrow> out_buffer c (buffer k) idx (maxlen k) w
      | Out_null \<Rightarrow> out_null c (buffer k) idx (maxlen k) w
      | Out_char \<Rightarrow> out_char c (buffer k) idx (maxlen k) w
      | Out_fct \<Rightarrow> out_fct c (buffer k) idx (maxlen k) w)"

text \<open>\<open>put\<close> is \<open>out(c, buffer, idx++, maxlen)\<close>.\<close>

definition put :: "sink \<Rightarrow> u8 \<Rightarrow> u32 \<times> world \<Rightarrow> u32 \<times> world" where
  "put k c st = (fst st + 1, out_call k c (fst st) (snd st))"

subsection \<open>Flags and small helpers\<close>

abbreviation (input) FLAGS_ZEROPAD :: u32 where "FLAGS_ZEROPAD \<equiv> 1"
abbreviation (input) FLAGS_LEFT :: u32 where "FLAGS_LEFT \<equiv> 2"
abbreviation (input) FLAGS_PLUS :: u32 where "FLAGS_PLUS \<equiv> 4"
abbreviation (input) FLAGS_SPACE :: u32 where "FLAGS_SPACE \<equiv> 8"
abbreviation (input) FLAGS_HASH :: u32 where "FLAGS_HASH \<equiv> 16"
abbreviation (input) FLAGS_UPPERCASE :: u32 where "FLAGS_UPPERCASE \<equiv> 32"
abbreviation (input) FLAGS_CHAR :: u32 where "FLAGS_CHAR \<equiv> 64"
abbreviation (input) FLAGS_SHORT :: u32 where "FLAGS_SHORT \<equiv> 128"
abbreviation (input) FLAGS_LONG :: u32 where "FLAGS_LONG \<equiv> 256"
abbreviation (input) FLAGS_LONG_LONG :: u32 where "FLAGS_LONG_LONG \<equiv> 512"
abbreviation (input) FLAGS_PRECISION :: u32 where "FLAGS_PRECISION \<equiv> 1024"
abbreviation (input) FLAGS_ADAPT_EXP :: u32 where "FLAGS_ADAPT_EXP \<equiv> 2048"

abbreviation (input) PRINTF_NTOA_BUFFER_SIZE :: nat where "PRINTF_NTOA_BUFFER_SIZE \<equiv> 32"
abbreviation (input) PRINTF_FTOA_BUFFER_SIZE :: nat where "PRINTF_FTOA_BUFFER_SIZE \<equiv> 32"

definition has :: "u32 \<Rightarrow> u32 \<Rightarrow> bool" where
  "has flags f \<longleftrightarrow> flags AND f \<noteq> 0"

text \<open>Character codes used by the formatter.\<close>

abbreviation (input) chr_space :: u8 where "chr_space \<equiv> 32"
abbreviation (input) chr_0 :: u8 where "chr_0 \<equiv> 48"
abbreviation (input) chr_9 :: u8 where "chr_9 \<equiv> 57"

fun strnlen_s :: "u8 list \<Rightarrow> u32 \<Rightarrow> u32" where
  "strnlen_s [] maxsize = 0"
| "strnlen_s (c # cs) maxsize =
     (if c \<noteq> 0 \<and> maxsize \<noteq> 0 then 1 + strnlen_s cs (maxsize - 1) else 0)"

definition is_digit :: "u8 \<Rightarrow> bool" where
  "is_digit ch \<longleftrightarrow> chr_0 \<le> ch \<and> ch \<le> chr_9"

fun atoi_loop :: "u32 \<Rightarrow> u8 list \<Rightarrow> u32 \<times> u8 list" where
  "atoi_loop i [] = (i, [])"
| "atoi_loop i (c # cs) =
     (if is_digit c then atoi_loop (i * 10 + ucast (c - chr_0)) cs else (i, c # cs))"

definition atoi :: "u8 list \<Rightarrow> u32 \<times> u8 list" where
  "atoi str = atoi_loop 0 str"

subsection \<open>Numbers\<close>

text \<open>\<open>while (idx - start_idx < width) out(' ', ...)\<close>\<close>

function pad_right :: "sink \<Rightarrow> u32 \<Rightarrow> u32 \<Rightarrow> u32 \<times> world \<Rightarrow> u32 \<times> world" where
  "pad_right k start_idx width st =
     (if fst st - start_idx < width then pad_right k start_idx width (put k chr_space st) else st)"
  by pat_completeness auto
termination
proof (relation "measure (\<lambda>(k, start_idx, width, st). unat width - unat (fst st - start_idx))")
  fix k start_idx width and st :: "u32 \<times> world"
  assume "fst st - start_idx < width"
  moreover have next_idx: "fst st + 1 - start_idx = (fst st - start_idx) + 1"
    by simp
  ultimately show "((k, start_idx, width, put k chr_space st), (k, start_idx, width, st)) \<in>
      measure (\<lambda>(k, start_idx, width, st). unat width - unat (fst st - start_idx))"
    using word_loop_measure [of "fst st - start_idx" width] by (simp add: put_def next_idx)
qed simp

declare pad_right.simps [simp del, loop_simps]

text \<open>\<open>while (len) out(buf[--len], ...)\<close>: the characters from the last to the first.\<close>

primrec put_all :: "sink \<Rightarrow> u8 list \<Rightarrow> u32 \<times> world \<Rightarrow> u32 \<times> world" where
  "put_all k [] st = st"
| "put_all k (c # cs) st = put_all k cs (put k c st)"

definition out_rev :: "sink \<Rightarrow> u8 list \<Rightarrow> u32 \<Rightarrow> u32 \<Rightarrow> u32 \<times> world \<Rightarrow> u32 \<times> world" where
  "out_rev k buf width flags st =
     (let start_idx = fst st;
          st1 = (if \<not> has flags FLAGS_LEFT \<and> \<not> has flags FLAGS_ZEROPAD
                 then for_range (of_nat (length buf)) width (\<lambda>i. put k chr_space) st else st);
          st2 = put_all k (rev buf) st1
      in if has flags FLAGS_LEFT then pad_right k start_idx width st2 else st2)"

text \<open>\<open>while (len < n && len < 32) buf[len++] = '0';\<close>\<close>

function fill_zeros :: "u32 \<Rightarrow> u8 list \<Rightarrow> u8 list" where
  "fill_zeros n buf =
     (if of_nat (length buf) < n \<and> length buf < PRINTF_NTOA_BUFFER_SIZE
      then fill_zeros n (buf @ [chr_0]) else buf)"
  by pat_completeness auto
termination
  by (relation "measure (\<lambda>(n, buf). PRINTF_NTOA_BUFFER_SIZE - length buf)") auto

declare fill_zeros.simps [simp del, loop_simps]

text \<open>\<open>if (len < 32) buf[len++] = c;\<close>\<close>

definition snoc_bounded :: "u8 list \<Rightarrow> u8 \<Rightarrow> u8 list" where
  "snoc_bounded buf c = (if length buf < PRINTF_NTOA_BUFFER_SIZE then buf @ [c] else buf)"

text \<open>The sign character of a number: '-', '+' or a space.\<close>

definition sign_char :: "bool \<Rightarrow> u32 \<Rightarrow> u8 list \<Rightarrow> u8 list" where
  "sign_char negative flags buf =
     (if negative then snoc_bounded buf 45
      else if has flags FLAGS_PLUS then snoc_bounded buf 43
      else if has flags FLAGS_SPACE then snoc_bounded buf chr_space
      else buf)"

definition hash_prefix :: "u8 list \<Rightarrow> u32 \<Rightarrow> u32 \<Rightarrow> u32 \<Rightarrow> u32 \<Rightarrow> u8 list" where
  "hash_prefix buf base prec width flags =
     (if has flags FLAGS_HASH then
        let len = of_nat (length buf);
            b1 = (if \<not> has flags FLAGS_PRECISION \<and> buf \<noteq> [] \<and> (len = prec \<or> len = width)
                  then let b0 = butlast buf in if b0 \<noteq> [] \<and> base = 16 then butlast b0 else b0
                  else buf);
            b2 = (if base = 16 \<and> \<not> has flags FLAGS_UPPERCASE \<and> length b1 < PRINTF_NTOA_BUFFER_SIZE
                  then b1 @ [120]
                  else if base = 16 \<and> has flags FLAGS_UPPERCASE \<and> length b1 < PRINTF_NTOA_BUFFER_SIZE
                  then b1 @ [88]
                  else if base = 2 \<and> length b1 < PRINTF_NTOA_BUFFER_SIZE then b1 @ [98]
                  else b1)
        in snoc_bounded b2 chr_0
      else buf)"

definition ntoa_format ::
  "sink \<Rightarrow> u8 list \<Rightarrow> bool \<Rightarrow> u32 \<Rightarrow> u32 \<Rightarrow> u32 \<Rightarrow> u32 \<Rightarrow> u32 \<times> world \<Rightarrow> u32 \<times> world" where
  "ntoa_format k buf negative base prec width flags st =
     (let (buf1, width1) =
            (if \<not> has flags FLAGS_LEFT then
               let w1 = (if width \<noteq> 0 \<and> has flags FLAGS_ZEROPAD \<and>
                            (negative \<or> has flags (FLAGS_PLUS OR FLAGS_SPACE))
                         then width - 1 else width);
                   b1 = fill_zeros prec buf;
                   b2 = (if has flags FLAGS_ZEROPAD then fill_zeros w1 b1 else b1)
               in (b2, w1)
             else (buf, width));
          buf2 = hash_prefix buf1 base prec width1 flags;
          buf3 = sign_char negative flags buf2
      in out_rev k buf3 width1 flags st)"

text \<open>
  The digit loop of \<open>_ntoa_long\<close> (32-bit values) and \<open>_ntoa_long_long\<close> (64-bit values). The
  base is at most 16, so the digit fits the signed \<open>char\<close> it is kept in.
\<close>

definition digit_char :: "u8 \<Rightarrow> u32 \<Rightarrow> u8" where
  "digit_char digit flags =
     (if digit < 10 then chr_0 + digit
      else (if has flags FLAGS_UPPERCASE then 65 else 97) + digit - 10)"

function ntoa_digits :: "'a::len word \<Rightarrow> 'a word \<Rightarrow> u32 \<Rightarrow> u8 list \<Rightarrow> u8 list" where
  "ntoa_digits val base flags buf =
     (let buf' = buf @ [digit_char (ucast (val mod base)) flags];
          val' = val div base
      in if val' \<noteq> 0 \<and> length buf' < PRINTF_NTOA_BUFFER_SIZE
         then ntoa_digits val' base flags buf' else buf')"
  by pat_completeness auto
termination
  by (relation "measure (\<lambda>(val, base, flags, buf). PRINTF_NTOA_BUFFER_SIZE - length buf)") auto

declare ntoa_digits.simps [simp del, loop_simps]

definition ntoa_long ::
  "sink \<Rightarrow> u32 \<Rightarrow> bool \<Rightarrow> u32 \<Rightarrow> u32 \<Rightarrow> u32 \<Rightarrow> u32 \<Rightarrow> u32 \<times> world \<Rightarrow> u32 \<times> world" where
  "ntoa_long k val negative base prec width flags st =
     (let flags1 = (if val = 0 then flags AND NOT FLAGS_HASH else flags);
          buf = (if \<not> has flags1 FLAGS_PRECISION \<or> val \<noteq> 0 then ntoa_digits val base flags1 [] else [])
      in ntoa_format k buf negative base prec width flags1 st)"

definition ntoa_long_long ::
  "sink \<Rightarrow> u64 \<Rightarrow> bool \<Rightarrow> u64 \<Rightarrow> u32 \<Rightarrow> u32 \<Rightarrow> u32 \<Rightarrow> u32 \<times> world \<Rightarrow> u32 \<times> world" where
  "ntoa_long_long k val negative base prec width flags st =
     (let flags1 = (if val = 0 then flags AND NOT FLAGS_HASH else flags);
          buf = (if \<not> has flags1 FLAGS_PRECISION \<or> val \<noteq> 0 then ntoa_digits val base flags1 [] else [])
      in ntoa_format k buf negative (ucast base) prec width flags1 st)"


subsection \<open>Floating point\<close>

text \<open>
  The floating-point operations the formatter uses, on the bit patterns of doubles. They stand
  for the processor's floating-point unit, whose intermediate precision the source leaves to the
  compiler. \<open>fp_lit m e\<close> is the decimal literal \<open>m * 10^-e\<close>.
\<close>

record fpu =
  fp_lt :: "u64 \<Rightarrow> u64 \<Rightarrow> bool"
  fp_le :: "u64 \<Rightarrow> u64 \<Rightarrow> bool"
  fp_eq :: "u64 \<Rightarrow> u64 \<Rightarrow> bool"
  fp_add :: "u64 \<Rightarrow> u64 \<Rightarrow> u64"
  fp_sub :: "u64 \<Rightarrow> u64 \<Rightarrow> u64"
  fp_mul :: "u64 \<Rightarrow> u64 \<Rightarrow> u64"
  fp_div :: "u64 \<Rightarrow> u64 \<Rightarrow> u64"
  fp_neg :: "u64 \<Rightarrow> u64"
  fp_of_int :: "int \<Rightarrow> u64"
  fp_of_ulong :: "u32 \<Rightarrow> u64"
  fp_to_int :: "u64 \<Rightarrow> int"
  fp_to_ulong :: "u64 \<Rightarrow> u32"
  fp_lit :: "nat \<Rightarrow> nat \<Rightarrow> u64"
  DBL_MAX :: u64

text \<open>The table \<open>pow10\<close> has ten entries; reading past it is a fault.\<close>

definition pow10 :: "fpu \<Rightarrow> u32 \<Rightarrow> u64 option" where
  "pow10 fp prec = (if prec < 10 then Some (fp_of_int fp (10 ^ unat prec)) else None)"

text \<open>\<open>while ((len < 32) && (prec > 9)) { buf[len++] = '0'; prec--; }\<close>\<close>

function limit_prec :: "u32 \<Rightarrow> u8 list \<Rightarrow> u32 \<times> u8 list" where
  "limit_prec prec buf =
     (if length buf < PRINTF_FTOA_BUFFER_SIZE \<and> 9 < prec
      then limit_prec (prec - 1) (buf @ [chr_0]) else (prec, buf))"
  by pat_completeness auto
termination
  by (relation "measure (\<lambda>(prec, buf). PRINTF_FTOA_BUFFER_SIZE - length buf)") auto

declare limit_prec.simps [simp del, loop_simps]

text \<open>The digits of the fraction, with the count of digits still to come.\<close>

function frac_digits :: "u32 \<Rightarrow> u32 \<Rightarrow> u8 list \<Rightarrow> u32 \<times> u8 list" where
  "frac_digits count frac buf =
     (if length buf < PRINTF_FTOA_BUFFER_SIZE then
        let count' = count - 1;
            buf' = buf @ [ucast (48 + frac mod 10)];
            frac' = frac div 10
        in if frac' = 0 then (count', buf') else frac_digits count' frac' buf'
      else (count, buf))"
  by pat_completeness auto
termination
  by (relation "measure (\<lambda>(count, frac, buf). PRINTF_FTOA_BUFFER_SIZE - length buf)") auto

declare frac_digits.simps [simp del, loop_simps]

text \<open>\<open>while ((len < 32) && (count-- > 0)) buf[len++] = '0';\<close>\<close>

function extra_zeros :: "u32 \<Rightarrow> u8 list \<Rightarrow> u8 list" where
  "extra_zeros count buf =
     (if length buf < PRINTF_FTOA_BUFFER_SIZE \<and> 0 < count
      then extra_zeros (count - 1) (buf @ [chr_0]) else buf)"
  by pat_completeness auto
termination
  by (relation "measure (\<lambda>(count, buf). PRINTF_FTOA_BUFFER_SIZE - length buf)") auto

declare extra_zeros.simps [simp del, loop_simps]

function whole_digits :: "int \<Rightarrow> u8 list \<Rightarrow> u8 list" where
  "whole_digits whole buf =
     (if length buf < PRINTF_FTOA_BUFFER_SIZE then
        let buf' = buf @ [word_of_int (48 + whole smod 10)];
            whole' = whole sdiv 10
        in if whole' = 0 then buf' else whole_digits whole' buf'
      else buf)"
  by pat_completeness auto
termination
  by (relation "measure (\<lambda>(whole, buf). PRINTF_FTOA_BUFFER_SIZE - length buf)") auto

declare whole_digits.simps [simp del, loop_simps]

text \<open>The rounding step of \<open>_ftoa\<close>: the whole part and the fraction scaled to \<open>prec\<close> digits.\<close>

definition round_frac :: "fpu \<Rightarrow> u64 \<Rightarrow> u64 \<Rightarrow> int \<times> u32" where
  "round_frac fp val p10 =
     (let whole = fp_to_int fp val;
          tmp = fp_mul fp (fp_sub fp val (fp_of_int fp whole)) p10;
          frac = fp_to_ulong fp tmp;
          diff = fp_sub fp tmp (fp_of_ulong fp frac);
          half = fp_lit fp 5 1
      in if fp_lt fp half diff then
           (if fp_le fp p10 (fp_of_ulong fp (frac + 1)) then (whole + 1, 0) else (whole, frac + 1))
         else if fp_lt fp diff half then (whole, frac)
         else if frac = 0 \<or> odd frac then (whole, frac + 1)
         else (whole, frac))"

text \<open>\<open>_ftoa\<close> from its sign test on: the characters of a number of ordinary size.\<close>

definition ftoa_fixed ::
  "fpu \<Rightarrow> sink \<Rightarrow> u64 \<Rightarrow> u32 \<Rightarrow> u32 \<Rightarrow> u32 \<Rightarrow> u32 \<times> world \<Rightarrow> (u32 \<times> world) option" where
  "ftoa_fixed fp k value0 prec0 width0 flags st =
     (let negative = fp_lt fp value0 (fp_of_int fp 0);
          val = (if negative then fp_sub fp (fp_of_int fp 0) value0 else value0);
          prec1 = (if \<not> has flags FLAGS_PRECISION then 6 else prec0);
          (prec, buf1) = limit_prec prec1 []
      in do {
        p10 \<leftarrow> pow10 fp prec;
        let (whole, frac) = round_frac fp val p10;
        let (whole', buf2) =
          (if prec = 0 then
             let diff = fp_sub fp val (fp_of_int fp whole)
             in if (\<not> fp_lt fp diff (fp_lit fp 5 1) \<or> fp_lt fp (fp_lit fp 5 1) diff) \<and> odd whole
                then (whole + 1, buf1) else (whole, buf1)
           else
             let (count, b1) = frac_digits prec frac buf1
             in (whole, snoc_bounded (extra_zeros count b1) 46));
        let buf3 = whole_digits whole' buf2;
        let (width, buf4) =
          (if \<not> has flags FLAGS_LEFT \<and> has flags FLAGS_ZEROPAD then
             let w1 = (if width0 \<noteq> 0 \<and> (negative \<or> has flags (FLAGS_PLUS OR FLAGS_SPACE))
                       then width0 - 1 else width0)
             in (w1, fill_zeros w1 buf3)
           else (width0, buf3));
        Some (out_rev k (sign_char negative flags buf4) width flags st)
      })"

text \<open>
  \<open>exp_estimate\<close> is the decimal exponent of a positive value and the power of ten it names, by
  the approximation of \<open>_etoa\<close>.
\<close>

definition exp_estimate :: "fpu \<Rightarrow> u64 \<Rightarrow> int \<times> u64" where
  "exp_estimate fp val =
     (let exp2 = uint (drop_bit 52 val AND 0x7FF) - 1023;
          convF = (val AND (push_bit 52 1 - 1)) OR push_bit 52 1023;
          expval = fp_to_int fp
            (fp_add fp
              (fp_add fp (fp_lit fp 1760912590558 13)
                 (fp_mul fp (fp_of_int fp exp2) (fp_lit fp 301029995663981 15)))
              (fp_mul fp (fp_sub fp convF (fp_lit fp 15 1)) (fp_lit fp 289529654602168 15)));
          exp2' = fp_to_int fp
            (fp_add fp (fp_mul fp (fp_of_int fp expval) (fp_lit fp 3321928094887362 15)) (fp_lit fp 5 1));
          z = fp_sub fp (fp_mul fp (fp_of_int fp expval) (fp_lit fp 2302585092994046 15))
                        (fp_mul fp (fp_of_int fp exp2') (fp_lit fp 6931471805599453 16));
          z2 = fp_mul fp z z;
          convF' = push_bit 52 (word_of_int (exp2' + 1023));
          convF'' = fp_mul fp convF'
            (fp_add fp (fp_of_int fp 1)
              (fp_div fp (fp_mul fp (fp_of_int fp 2) z)
                (fp_add fp (fp_sub fp (fp_of_int fp 2) z)
                  (fp_div fp z2 (fp_add fp (fp_of_int fp 6)
                    (fp_div fp z2 (fp_add fp (fp_of_int fp 10) (fp_div fp z2 (fp_of_int fp 14)))))))))
      in if fp_lt fp val convF'' then (expval - 1, fp_div fp convF'' (fp_of_int fp 10))
         else (expval, convF''))"

text \<open>The precision, the flags, the width of the exponent and the exponent after the "%g" adjustment.\<close>

definition adapt_exp :: "fpu \<Rightarrow> u64 \<Rightarrow> int \<Rightarrow> u32 \<Rightarrow> u32 \<Rightarrow> u32 \<times> u32 \<times> u32 \<times> int" where
  "adapt_exp fp val expval prec flags =
     (let minwidth = (if expval < 100 \<and> -100 < expval then 4 else 5)
      in if has flags FLAGS_ADAPT_EXP then
           if fp_le fp (fp_lit fp 1 4) val \<and> fp_lt fp val (fp_lit fp 1000000 0) then
             (if expval < sint prec then word_of_int (sint prec - expval - 1) else 0,
              flags OR FLAGS_PRECISION, 0, 0)
           else (if 0 < prec \<and> has flags FLAGS_PRECISION then prec - 1 else prec,
                 flags, minwidth, expval)
         else (prec, flags, minwidth, expval))"

text \<open>
  \<open>_ftoa\<close> and \<open>_etoa\<close> call each other. Whether the calls end depends on the floating-point
  unit, so the depth of calls is bounded by a fuel argument. On a conforming unit it is at most
  three: \<open>_ftoa\<close> of a large value, \<open>_etoa\<close>, and \<open>_ftoa\<close> of the value scaled to one digit.
\<close>

fun ftoa :: "nat \<Rightarrow> fpu \<Rightarrow> sink \<Rightarrow> u64 \<Rightarrow> u32 \<Rightarrow> u32 \<Rightarrow> u32 \<Rightarrow> u32 \<times> world \<Rightarrow> (u32 \<times> world) option"
  and etoa :: "nat \<Rightarrow> fpu \<Rightarrow> sink \<Rightarrow> u64 \<Rightarrow> u32 \<Rightarrow> u32 \<Rightarrow> u32 \<Rightarrow> u32 \<times> world \<Rightarrow> (u32 \<times> world) option" where
  "ftoa 0 fp k val prec width flags st = None"
| "ftoa (Suc n) fp k val prec width flags st =
     (if \<not> fp_eq fp val val then Some (out_rev k [110, 97, 110] width flags st)
      else if fp_lt fp val (fp_neg fp (DBL_MAX fp)) then Some (out_rev k [102, 110, 105, 45] width flags st)
      else if fp_lt fp (DBL_MAX fp) val then
        Some (out_rev k (if has flags FLAGS_PLUS then [102, 110, 105, 43] else [102, 110, 105]) width flags st)
      else if fp_lt fp (fp_lit fp 1000000000 0) val \<or> fp_lt fp val (fp_neg fp (fp_lit fp 1000000000 0))
        then etoa n fp k val prec width flags st
      else ftoa_fixed fp k val prec width flags st)"
| "etoa 0 fp k val prec width flags st = None"
| "etoa (Suc n) fp k value0 prec0 width flags0 st =
     (if \<not> fp_eq fp value0 value0 \<or> fp_lt fp (DBL_MAX fp) value0 \<or> fp_lt fp value0 (fp_neg fp (DBL_MAX fp))
      then ftoa n fp k value0 prec0 width flags0 st
      else
        let negative = fp_lt fp value0 (fp_of_int fp 0);
            val = (if negative then fp_neg fp value0 else value0);
            prec1 = (if \<not> has flags0 FLAGS_PRECISION then 6 else prec0);
            (expval0, convF) = exp_estimate fp val;
            (prec, flags, minwidth, expval) = adapt_exp fp val expval0 prec1 flags0;
            fwidth0 = (if minwidth < width then width - minwidth else 0);
            fwidth = (if has flags FLAGS_LEFT \<and> minwidth \<noteq> 0 then 0 else fwidth0);
            val' = (if expval \<noteq> 0 then fp_div fp val convF else val);
            start_idx = fst st
        in do {
          st1 \<leftarrow> ftoa n fp k (if negative then fp_neg fp val' else val') prec fwidth
                   (flags AND NOT FLAGS_ADAPT_EXP) st;
          if minwidth \<noteq> 0 then
            let st2 = put k (if has flags FLAGS_UPPERCASE then 69 else 101) st1;
                st3 = ntoa_long k (word_of_int (if expval < 0 then - expval else expval)) (expval < 0)
                        10 0 (minwidth - 1) (FLAGS_ZEROPAD OR FLAGS_PLUS) st2
            in Some (if has flags FLAGS_LEFT then pad_right k start_idx width st3 else st3)
          else Some st1
        })"

subsection \<open>The format interpreter\<close>

text \<open>
  A \<open>va_list\<close>: 32-bit and 64-bit integers, doubles, and C strings by their characters. The
  strings and the format do not overlap the output buffer (C leaves the overlap undefined).
\<close>

datatype va_arg = VWord u32 | VQuad u64 | VDouble u64 | VStr "u8 list"

fun va_word :: "va_arg list \<Rightarrow> (u32 \<times> va_arg list) option" where
  "va_word (VWord w # va) = Some (w, va)"
| "va_word _ = None"

fun va_quad :: "va_arg list \<Rightarrow> (u64 \<times> va_arg list) option" where
  "va_quad (VQuad w # va) = Some (w, va)"
| "va_quad _ = None"

fun va_double :: "va_arg list \<Rightarrow> (u64 \<times> va_arg list) option" where
  "va_double (VDouble w # va) = Some (w, va)"
| "va_double _ = None"

fun va_str :: "va_arg list \<Rightarrow> (u8 list \<times> va_arg list) option" where
  "va_str (VStr s # va) = Some (s, va)"
| "va_str _ = None"

text \<open>\<open>*format\<close>, with the terminator at the end of the list.\<close>

definition deref :: "u8 list \<Rightarrow> u8" where
  "deref format = (case format of [] \<Rightarrow> 0 | c # _ \<Rightarrow> c)"

definition flag_of :: "u8 \<Rightarrow> u32" where
  "flag_of c =
     (if c = 48 then FLAGS_ZEROPAD else if c = 45 then FLAGS_LEFT else if c = 43 then FLAGS_PLUS
      else if c = 32 then FLAGS_SPACE else if c = 35 then FLAGS_HASH else 0)"

fun eval_flags :: "u32 \<Rightarrow> u8 list \<Rightarrow> u32 \<times> u8 list" where
  "eval_flags flags [] = (flags, [])"
| "eval_flags flags (c # cs) =
     (if flag_of c \<noteq> 0 then eval_flags (flags OR flag_of c) cs else (flags, c # cs))"

definition eval_width :: "u32 \<Rightarrow> u8 list \<Rightarrow> va_arg list \<Rightarrow> (u32 \<times> u32 \<times> u8 list \<times> va_arg list) option" where
  "eval_width flags format va =
     (if is_digit (deref format) then
        let (width, rest) = atoi format in Some (flags, width, rest, va)
      else if deref format = 42 then do {
        (w, va') \<leftarrow> va_word va;
        Some (if sint w < 0 then (flags OR FLAGS_LEFT, - w, tl format, va')
              else (flags, w, tl format, va'))
      } else Some (flags, 0, format, va))"

definition eval_precision :: "u32 \<Rightarrow> u8 list \<Rightarrow> va_arg list \<Rightarrow> (u32 \<times> u32 \<times> u8 list \<times> va_arg list) option" where
  "eval_precision flags format va =
     (if deref format = 46 then
        let flags1 = flags OR FLAGS_PRECISION; format1 = tl format
        in if is_digit (deref format1) then
             let (precision, rest) = atoi format1 in Some (flags1, precision, rest, va)
           else if deref format1 = 42 then do {
             (prec, va') \<leftarrow> va_word va;
             Some (flags1, if 0 < sint prec then prec else 0, tl format1, va')
           } else Some (flags1, 0, format1, va)
      else Some (flags, 0, format, va))"

text \<open>\<open>ptrdiff_t\<close> and \<open>size_t\<close> have the size of \<open>long\<close> (4), \<open>intmax_t\<close> that of \<open>long long\<close>.\<close>

definition eval_length :: "u32 \<Rightarrow> u8 list \<Rightarrow> u32 \<times> u8 list" where
  "eval_length flags format =
     (let c = deref format; rest = tl format
      in if c = 108 then
           (if deref rest = 108 then (flags OR FLAGS_LONG OR FLAGS_LONG_LONG, tl rest)
            else (flags OR FLAGS_LONG, rest))
         else if c = 104 then
           (if deref rest = 104 then (flags OR FLAGS_SHORT OR FLAGS_CHAR, tl rest)
            else (flags OR FLAGS_SHORT, rest))
         else if c = 116 then (flags OR FLAGS_LONG, rest)
         else if c = 106 then (flags OR FLAGS_LONG_LONG, rest)
         else if c = 122 then (flags OR FLAGS_LONG, rest)
         else (flags, format))"

text \<open>The integer specifiers d, i, u, x, X, o, b.\<close>

definition int_flags :: "u8 \<Rightarrow> u32 \<Rightarrow> u32 \<times> u32" where
  "int_flags c flags =
     (let base = (if c = 120 \<or> c = 88 then 16 else if c = 111 then 8 else if c = 98 then 2 else 10);
          f1 = (if base = 10 then flags AND NOT FLAGS_HASH else flags);
          f2 = (if c = 88 then f1 OR FLAGS_UPPERCASE else f1);
          f3 = (if c \<noteq> 105 \<and> c \<noteq> 100 then f2 AND NOT (FLAGS_PLUS OR FLAGS_SPACE) else f2);
          f4 = (if has f3 FLAGS_PRECISION then f3 AND NOT FLAGS_ZEROPAD else f3)
      in (base, f4))"

definition magnitude :: "'a::len word \<Rightarrow> 'a word" where
  "magnitude v = (if 0 < sint v then v else 0 - v)"

definition convert_int ::
  "sink \<Rightarrow> u8 \<Rightarrow> u32 \<Rightarrow> u32 \<Rightarrow> u32 \<Rightarrow> va_arg list \<Rightarrow> u32 \<times> world \<Rightarrow> ((u32 \<times> world) \<times> va_arg list) option" where
  "convert_int k c flags0 width precision va st =
     (let (base, flags) = int_flags c flags0
      in if c = 105 \<or> c = 100 then
           if has flags FLAGS_LONG_LONG then do {
             (v, va') \<leftarrow> va_quad va;
             Some (ntoa_long_long k (magnitude v) (sint v < 0) (ucast base) precision width flags st, va')
           } else if has flags FLAGS_LONG then do {
             (v, va') \<leftarrow> va_word va;
             Some (ntoa_long k (magnitude v) (sint v < 0) base precision width flags st, va')
           } else do {
             (a, va') \<leftarrow> va_word va;
             let v = (if has flags FLAGS_CHAR then scast (ucast a :: u8)
                      else if has flags FLAGS_SHORT then scast (ucast a :: u16) else a);
             Some (ntoa_long k (magnitude v) (sint v < 0) base precision width flags st, va')
           }
         else
           if has flags FLAGS_LONG_LONG then do {
             (v, va') \<leftarrow> va_quad va;
             Some (ntoa_long_long k v False (ucast base) precision width flags st, va')
           } else if has flags FLAGS_LONG then do {
             (v, va') \<leftarrow> va_word va;
             Some (ntoa_long k v False base precision width flags st, va')
           } else do {
             (a, va') \<leftarrow> va_word va;
             let v = (if has flags FLAGS_CHAR then ucast (ucast a :: u8)
                      else if has flags FLAGS_SHORT then ucast (ucast a :: u16) else a);
             Some (ntoa_long k v False base precision width flags st, va')
           })"

text \<open>\<open>while (l++ < width) out(' ', ...)\<close>\<close>

definition pad_spaces :: "sink \<Rightarrow> u32 \<Rightarrow> u32 \<Rightarrow> u32 \<times> world \<Rightarrow> u32 \<times> world" where
  "pad_spaces k l width st = for_range l width (\<lambda>i. put k chr_space) st"

definition convert_char ::
  "sink \<Rightarrow> u32 \<Rightarrow> u32 \<Rightarrow> va_arg list \<Rightarrow> u32 \<times> world \<Rightarrow> ((u32 \<times> world) \<times> va_arg list) option" where
  "convert_char k flags width va st =
     do {
       let st1 = (if \<not> has flags FLAGS_LEFT then pad_spaces k 1 width st else st);
       (c, va') \<leftarrow> va_word va;
       let st2 = put k (ucast c) st1;
       Some (if has flags FLAGS_LEFT then pad_spaces k 1 width st2 else st2, va')
     }"

fun put_string :: "sink \<Rightarrow> u32 \<Rightarrow> u32 \<Rightarrow> u8 list \<Rightarrow> u32 \<times> world \<Rightarrow> u32 \<times> world" where
  "put_string k flags precision [] st = st"
| "put_string k flags precision (c # cs) st =
     (if c \<noteq> 0 \<and> (\<not> has flags FLAGS_PRECISION \<or> precision \<noteq> 0)
      then put_string k flags (precision - 1) cs (put k c st) else st)"

definition convert_string ::
  "sink \<Rightarrow> u32 \<Rightarrow> u32 \<Rightarrow> u32 \<Rightarrow> va_arg list \<Rightarrow> u32 \<times> world \<Rightarrow> ((u32 \<times> world) \<times> va_arg list) option" where
  "convert_string k flags width precision va st =
     do {
       (p, va') \<leftarrow> va_str va;
       let l0 = strnlen_s p (if precision \<noteq> 0 then precision else - 1);
       let l = (if has flags FLAGS_PRECISION then if l0 < precision then l0 else precision else l0);
       let st1 = (if \<not> has flags FLAGS_LEFT then pad_spaces k l width st else st);
       let st2 = put_string k flags precision p st1;
       Some (if has flags FLAGS_LEFT then pad_spaces k l width st2 else st2, va')
     }"

definition convert_pointer ::
  "sink \<Rightarrow> u32 \<Rightarrow> u32 \<Rightarrow> va_arg list \<Rightarrow> u32 \<times> world \<Rightarrow> ((u32 \<times> world) \<times> va_arg list) option" where
  "convert_pointer k flags precision va st =
     do {
       (p, va') \<leftarrow> va_word va;
       Some (ntoa_long k p False 16 precision 8 (flags OR FLAGS_ZEROPAD OR FLAGS_UPPERCASE) st, va')
     }"

text \<open>The specifier switch. The default case writes the character, which is the terminator at the end.\<close>

definition FTOA_FUEL :: nat where
  "FTOA_FUEL = 4"

definition convert ::
  "fpu \<Rightarrow> sink \<Rightarrow> u8 \<Rightarrow> u32 \<Rightarrow> u32 \<Rightarrow> u32 \<Rightarrow> va_arg list \<Rightarrow> u32 \<times> world \<Rightarrow>
   ((u32 \<times> world) \<times> va_arg list) option" where
  "convert fp k c flags width precision va st =
     (if c \<in> {100, 105, 117, 120, 88, 111, 98} then convert_int k c flags width precision va st
      else if c = 102 \<or> c = 70 then do {
        (v, va') \<leftarrow> va_double va;
        st' \<leftarrow> ftoa FTOA_FUEL fp k v precision width
                (if c = 70 then flags OR FLAGS_UPPERCASE else flags) st;
        Some (st', va')
      }
      else if c = 101 \<or> c = 69 \<or> c = 103 \<or> c = 71 then do {
        (v, va') \<leftarrow> va_double va;
        let f1 = (if c = 103 \<or> c = 71 then flags OR FLAGS_ADAPT_EXP else flags);
        let f2 = (if c = 69 \<or> c = 71 then f1 OR FLAGS_UPPERCASE else f1);
        st' \<leftarrow> etoa FTOA_FUEL fp k v precision width f2 st;
        Some (st', va')
      }
      else if c = 99 then convert_char k flags width va st
      else if c = 115 then convert_string k flags width precision va st
      else if c = 112 then convert_pointer k flags precision va st
      else if c = 37 then Some (put k 37 st, va)
      else Some (put k c st, va))"

text \<open>One directive, from the character after the percent sign.\<close>

definition directive ::
  "fpu \<Rightarrow> sink \<Rightarrow> u8 list \<Rightarrow> va_arg list \<Rightarrow> u32 \<times> world \<Rightarrow>
   ((u32 \<times> world) \<times> u8 list \<times> va_arg list) option" where
  "directive fp k format0 va0 st =
     do {
       let (flags1, format1) = eval_flags 0 format0;
       (flags2, width, format2, va1) \<leftarrow> eval_width flags1 format1 va0;
       (flags3, precision, format3, va2) \<leftarrow> eval_precision flags2 format2 va1;
       let (flags, format) = eval_length flags3 format3;
       (st', va') \<leftarrow> convert fp k (deref format) flags width precision va2 st;
       if format = [] then None else Some (st', tl format, va')
     }"

text \<open>Every part of a directive moves forward through the format.\<close>

lemma atoi_loop_shorter: "length (snd (atoi_loop i cs)) \<le> length cs"
  by (induction cs arbitrary: i) (auto intro: le_SucI)

lemma eval_flags_shorter: "length (snd (eval_flags flags cs)) \<le> length cs"
  by (induction cs arbitrary: flags) (auto intro: le_SucI)

lemma eval_width_shorter:
  "eval_width flags cs va = Some (flags', width, cs', va') \<Longrightarrow> length cs' \<le> length cs"
  using atoi_loop_shorter [of 0 cs]
  by (auto simp: eval_width_def atoi_def split: if_splits prod.splits bind_splits)

lemma eval_precision_shorter:
  "eval_precision flags cs va = Some (flags', width, cs', va') \<Longrightarrow> length cs' \<le> length cs"
  using atoi_loop_shorter [of 0 "tl cs"]
  by (auto simp: eval_precision_def atoi_def Let_def split: if_splits prod.splits bind_splits)

lemma eval_length_shorter: "length (snd (eval_length flags cs)) \<le> length cs"
  by (auto simp: eval_length_def Let_def)

lemma directive_shorter:
  "directive fp k cs va st = Some (st', cs', va') \<Longrightarrow> length cs' < Suc (length cs)"
  using eval_flags_shorter [of 0 cs]
  by (auto simp: directive_def Let_def split: if_splits prod.splits bind_splits
      dest!: eval_width_shorter eval_precision_shorter)
    (metis eval_length_shorter le_trans less_Suc_eq_le diff_le_self snd_conv)

function vsnprintf_loop ::
  "fpu \<Rightarrow> sink \<Rightarrow> u8 list \<Rightarrow> va_arg list \<Rightarrow> u32 \<times> world \<Rightarrow> (u32 \<times> world) option" where
  "vsnprintf_loop fp k [] va st = Some st"
| "vsnprintf_loop fp k (c # cs) va st =
     (if c = 0 then Some st
      else if c \<noteq> 37 then vsnprintf_loop fp k cs va (put k c st)
      else (case directive fp k cs va st of
              None \<Rightarrow> None
            | Some (st', cs', va') \<Rightarrow> vsnprintf_loop fp k cs' va' st'))"
  by pat_completeness auto
termination
  by (relation "measure (\<lambda>(fp, k, cs, va, st). length cs)") (auto dest: directive_shorter)

definition vsnprintf_int ::
  "fpu \<Rightarrow> sink \<Rightarrow> u8 list \<Rightarrow> va_arg list \<Rightarrow> world \<Rightarrow> (u32 \<times> world) option" where
  "vsnprintf_int fp k0 format va w =
     (let k = (if buffer k0 = 0 then k0\<lparr>out := Out_null\<rparr> else k0)
      in do {
        (idx, w1) \<leftarrow> vsnprintf_loop fp k format va (0, w);
        Some (idx, out_call k 0 (if idx < maxlen k then idx else maxlen k - 1) w1)
      })"

definition vsnprintf ::
  "fpu \<Rightarrow> addr \<Rightarrow> u32 \<Rightarrow> u8 list \<Rightarrow> va_arg list \<Rightarrow> world \<Rightarrow> (u32 \<times> world) option" where
  "vsnprintf fp buf count format va w =
     vsnprintf_int fp \<lparr>out = Out_buffer, buffer = buf, maxlen = count\<rparr> format va w"

definition sprintf ::
  "fpu \<Rightarrow> addr \<Rightarrow> u8 list \<Rightarrow> va_arg list \<Rightarrow> world \<Rightarrow> (u32 \<times> world) option" where
  "sprintf fp buf format va w =
     vsnprintf_int fp \<lparr>out = Out_buffer, buffer = buf, maxlen = - 1\<rparr> format va w"

definition snprintf ::
  "fpu \<Rightarrow> addr \<Rightarrow> u32 \<Rightarrow> u8 list \<Rightarrow> va_arg list \<Rightarrow> world \<Rightarrow> (u32 \<times> world) option" where
  "snprintf fp buf count format va w =
     vsnprintf_int fp \<lparr>out = Out_buffer, buffer = buf, maxlen = count\<rparr> format va w"

section \<open>Specification\<close>

text \<open>
  What a buffer of \<open>count\<close> bytes holds after the text \<open>cs\<close> was formatted into it: as much of
  the text as fits before a terminating zero, and nothing outside the buffer.
\<close>

definition formatted :: "addr \<Rightarrow> nat \<Rightarrow> u8 list \<Rightarrow> memory \<Rightarrow> memory" where
  "formatted buf count cs m =
     (\<lambda>a. let i = unat (a - buf)
          in if count \<le> i then m a
             else if i = min (length cs) (count - 1) then 0
             else if i < length cs then cs ! i else m a)"

text \<open>The value of a list of digit characters, most significant first, in a base up to 16.\<close>

definition digit_value :: "u8 \<Rightarrow> nat" where
  "digit_value c =
     (if c \<le> chr_9 then unat c - 48 else if c < 97 then unat c - 55 else unat c - 87)"

definition digits_value :: "nat \<Rightarrow> u8 list \<Rightarrow> nat" where
  "digits_value base cs = foldl (\<lambda>acc c. acc * base + digit_value c) 0 cs"

definition digit_in :: "nat \<Rightarrow> u32 \<Rightarrow> u8 \<Rightarrow> bool" where
  "digit_in base flags c \<longleftrightarrow> digit_value c < base \<and>
     (c \<in> {48..57} \<or> c \<in> (if has flags FLAGS_UPPERCASE then {65..70} else {97..102}))"

end
