(* ===== verification/Printf_Text.thy ===== *)
theory Printf_Text
  imports Printf
begin

text \<open>
  Correctness of the formatter. Every conversion routine is shown to append a list of characters
  that depends neither on the destination nor on what was written before (\<open>uniform\<close>), so that
  \<open>vsnprintf\<close> is the composition of a pure formatting function and a bounded copy; the digits of
  numbers are decoded back to their values.
\<close>

section \<open>Every conversion only appends characters\<close>

text \<open>
  A conversion is uniform when the characters it emits depend neither on the sink nor on what
  was emitted before it.
\<close>

definition uniform :: "(sink \<Rightarrow> u32 \<times> world \<Rightarrow> u32 \<times> world) \<Rightarrow> bool" where
  "uniform f \<longleftrightarrow> (\<exists>cs. \<forall>k st. f k st = put_all k cs st)"

lemma uniformI: "(\<And>k st. f k st = put_all k cs st) \<Longrightarrow> uniform f"
  by (auto simp: uniform_def)

lemma put_all_append [simp]: "put_all k (cs @ ds) st = put_all k ds (put_all k cs st)"
  by (induction cs arbitrary: st) simp_all

lemma uniform_id: "uniform (\<lambda>k st. st)"
  by (rule uniformI [of _ "[]"]) simp

lemma uniform_put: "uniform (\<lambda>k. put k c)"
  by (rule uniformI [of _ "[c]"]) simp

lemma uniform_put_all: "uniform (\<lambda>k. put_all k cs)"
  by (rule uniformI [of _ cs]) simp

lemma uniform_comp:
  assumes "uniform f" and "uniform g"
  shows "uniform (\<lambda>k st. g k (f k st))"
proof -
  obtain cs ds where f: "\<And>k st. f k st = put_all k cs st" and g: "\<And>k st. g k st = put_all k ds st"
    using assms unfolding uniform_def by blast
  show ?thesis
    by (intro uniformI [of _ "cs @ ds"]) (simp add: f g)
qed

lemma uniform_if:
  "(b \<Longrightarrow> uniform f) \<Longrightarrow> (\<not> b \<Longrightarrow> uniform g) \<Longrightarrow> uniform (\<lambda>k st. if b then f k st else g k st)"
  by (cases b) simp_all

lemma fst_put [simp]: "fst (put k c st) = fst st + 1"
  by (simp add: put_def)

lemma fst_put_all: "fst (put_all k cs st) = fst st + of_nat (length cs)"
  by (induction cs arbitrary: st) (simp_all add: algebra_simps)

lemma for_range_put_from:
  assumes "i \<le> n"
  shows "for_range i n (\<lambda>i. put k c) st = put_all k (replicate (unat (n - i)) c) st"
  using assms
proof (induction "unat (n - i)" arbitrary: i st)
  case 0
  then have "i = n" by (simp add: unat_eq_0)
  then show ?case by (simp add: for_range.simps [of n])
next
  case (Suc d)
  then have "i \<noteq> n" by auto
  with Suc.prems have "i < n" by simp
  have eq: "n - (i + 1) = n - i - 1" by simp
  have "n - i \<noteq> 0" and "i + 1 \<le> n"
    using \<open>i < n\<close> by (auto simp: inc_le)
  then have d: "unat (n - (i + 1)) = d"
    unfolding eq using Suc.hyps(2) by (simp add: unat_minus_one)
  have "for_range (i + 1) n (\<lambda>i. put k c) (put k c st) = put_all k (replicate d c) (put k c st)"
    using Suc.hyps(1) [of "i + 1" "put k c st"] d \<open>i + 1 \<le> n\<close> by simp
  with \<open>i < n\<close> show ?case
    by (simp add: for_range.simps [of i] Suc.hyps(2) [symmetric])
qed

lemma uniform_for_range: "uniform (\<lambda>k. for_range i n (\<lambda>i. put k c))"
proof (cases "i \<le> n")
  case True
  then show ?thesis
    by (intro uniformI [of _ "replicate (unat (n - i)) c"]) (simp add: for_range_put_from)
next
  case False
  then show ?thesis
    by (intro uniformI [of _ "[]"]) (auto simp: for_range.simps [of i])
qed

lemma pad_right_is_for_range:
  "pad_right k start width st = for_range (fst st - start) width (\<lambda>i. put k chr_space) st"
proof (induction k start width st rule: pad_right.induct)
  case (1 k start width st)
  have eq: "fst st + 1 - start = (fst st - start) + 1" by simp
  show ?case
    using 1 unfolding pad_right.simps [of k start width st] for_range.simps [of "fst st - start"]
    by (simp add: eq)
qed

lemma uniform_pad_right:
  assumes "uniform f"
  shows "uniform (\<lambda>k st. pad_right k (fst st) width (f k st))"
proof -
  obtain cs where f: "\<And>k st. f k st = put_all k cs st"
    using assms unfolding uniform_def by blast
  have "pad_right k (fst st) width (f k st) =
      for_range (of_nat (length cs)) width (\<lambda>i. put k chr_space) (put_all k cs st)" for k st
    by (simp add: pad_right_is_for_range f fst_put_all)
  moreover have "uniform (\<lambda>k st. for_range (of_nat (length cs)) width (\<lambda>i. put k chr_space) (put_all k cs st))"
    by (rule uniform_comp [OF uniform_put_all uniform_for_range])
  ultimately show ?thesis by simp
qed

lemma uniform_out_rev: "uniform (\<lambda>k. out_rev k buf width flags)"
proof -
  let ?body = "\<lambda>k st. put_all k (rev buf)
      (if \<not> has flags FLAGS_LEFT \<and> \<not> has flags FLAGS_ZEROPAD
       then for_range (of_nat (length buf)) width (\<lambda>i. put k chr_space) st else st)"
  have body: "uniform ?body"
    by (rule uniform_comp [OF uniform_if uniform_put_all]) (rule uniform_for_range uniform_id)+
  show ?thesis
    using uniform_pad_right [OF body, of width] body
    by (cases "has flags FLAGS_LEFT") (simp_all add: out_rev_def [abs_def] Let_def)
qed

lemma uniform_ntoa_long: "uniform (\<lambda>k. ntoa_long k val negative base prec width flags)"
  and uniform_ntoa_long_long: "uniform (\<lambda>k. ntoa_long_long k val' negative base' prec width flags)"
  by (simp_all add: ntoa_long_def [abs_def] ntoa_long_long_def [abs_def] ntoa_format_def Let_def
      split_beta uniform_out_rev)

lemma uniform_put_string: "uniform (\<lambda>k. put_string k flags precision cs)"
proof (induction cs arbitrary: precision)
  case Nil
  then show ?case by (simp add: uniform_id)
next
  case (Cons c cs)
  then show ?case
    using uniform_comp [OF uniform_put [of c] Cons.IH [of "precision - 1"]] by (simp add: uniform_id uniform_if)
qed

text \<open>The same for conversions that may fault: whether they do depends on neither.\<close>

definition uniformM :: "(sink \<Rightarrow> u32 \<times> world \<Rightarrow> (u32 \<times> world) option) \<Rightarrow> bool" where
  "uniformM f \<longleftrightarrow> (\<exists>r. \<forall>k st. f k st = map_option (\<lambda>cs. put_all k cs st) r)"

lemma uniformM_None: "uniformM (\<lambda>k st. None)"
  unfolding uniformM_def by (rule exI [of _ None]) simp

lemma uniformM_Some: "uniform f \<Longrightarrow> uniformM (\<lambda>k st. Some (f k st))"
  unfolding uniformM_def uniform_def by (metis option.map(2))

lemma uniformM_bind:
  assumes "uniformM f" and "uniformM g"
  shows "uniformM (\<lambda>k st. Option.bind (f k st) (g k))"
proof -
  obtain r s where f: "\<And>k st. f k st = map_option (\<lambda>cs. put_all k cs st) r"
    and g: "\<And>k st. g k st = map_option (\<lambda>cs. put_all k cs st) s"
    using assms unfolding uniformM_def by blast
  show ?thesis
    unfolding uniformM_def
    by (rule exI [of _ "Option.bind r (\<lambda>cs. map_option (\<lambda>ds. cs @ ds) s)"])
      (auto simp: f g map_option_case split: option.splits bind_splits)
qed

lemma uniformM_if:
  "(b \<Longrightarrow> uniformM f) \<Longrightarrow> (\<not> b \<Longrightarrow> uniformM g) \<Longrightarrow> uniformM (\<lambda>k st. if b then f k st else g k st)"
  by (cases b) simp_all

lemma uniformM_ftoa_fixed: "uniformM (\<lambda>k. ftoa_fixed fp k val prec width flags)"
proof (cases "pow10 fp (fst (limit_prec (if \<not> has flags FLAGS_PRECISION then 6 else prec) []))")
  case None
  then show ?thesis
    by (simp add: ftoa_fixed_def [abs_def] Let_def split_beta uniformM_None)
next
  case (Some p)
  then show ?thesis
    by (simp add: ftoa_fixed_def [abs_def] Let_def split_beta uniformM_Some uniform_out_rev)
qed

lemma uniformM_ftoa_etoa:
  "uniformM (\<lambda>k. ftoa n fp k val prec width flags) \<and> uniformM (\<lambda>k. etoa n fp k val prec width flags)"
proof (induction n arbitrary: val prec width flags)
  case 0
  then show ?case by (simp add: uniformM_None)
next
  case (Suc n)
  have "uniformM (\<lambda>k. ftoa (Suc n) fp k val prec width flags)"
    unfolding ftoa.simps
    by (intro uniformM_if uniformM_Some uniform_out_rev conjunct2 [OF Suc.IH] uniformM_ftoa_fixed)
  moreover have "uniformM (\<lambda>k. etoa (Suc n) fp k val prec width flags)"
  proof -
    define negative where "negative = fp_lt fp val (fp_of_int fp 0)"
    define v where "v = (if negative then fp_neg fp val else val)"
    obtain expval0 convF where e: "exp_estimate fp v = (expval0, convF)" by (cases "exp_estimate fp v")
    obtain prec' flags' minwidth expval where a:
      "adapt_exp fp v expval0 (if \<not> has flags FLAGS_PRECISION then 6 else prec) flags =
         (prec', flags', minwidth, expval)"
      by (cases "adapt_exp fp v expval0 (if \<not> has flags FLAGS_PRECISION then 6 else prec) flags") auto
    define fw where "fw = (if has flags' FLAGS_LEFT \<and> minwidth \<noteq> 0 then 0
                           else if minwidth < width then width - minwidth else 0)"
    define v' where "v' = (if expval \<noteq> 0 then fp_div fp v convF else v)"
    define tail where "tail k st = ntoa_long k (word_of_int (if expval < 0 then - expval else expval))
        (expval < 0) 10 0 (minwidth - 1) (FLAGS_ZEROPAD OR FLAGS_PLUS)
        (put k (if has flags' FLAGS_UPPERCASE then 69 else 101) st)" for k st
    obtain r where r: "\<And>k st. ftoa n fp k (if negative then fp_neg fp v' else v') prec' fw
        (flags' AND NOT FLAGS_ADAPT_EXP) st = map_option (\<lambda>cs. put_all k cs st) r"
      using Suc.IH [THEN conjunct1] unfolding uniformM_def by blast
    have tail: "uniform tail"
      unfolding tail_def [abs_def] by (rule uniform_comp [OF uniform_put uniform_ntoa_long])
    have body: "uniformM (\<lambda>k st. Option.bind (map_option (\<lambda>cs. put_all k cs st) r) (\<lambda>st1.
        if minwidth \<noteq> 0
        then Some (if has flags' FLAGS_LEFT then pad_right k (fst st) width (tail k st1) else tail k st1)
        else Some st1))"
    proof (cases r)
      case None
      then show ?thesis by (simp add: uniformM_None)
    next
      case (Some cs)
      have "uniform (\<lambda>k st. tail k (put_all k cs st))"
        by (rule uniform_comp [OF uniform_put_all tail])
      then show ?thesis
        unfolding Some option.map bind.bind_lunit
        by (intro uniformM_if uniformM_Some uniform_if uniform_pad_right uniform_put_all)
    qed
    show ?thesis
      unfolding etoa.simps Let_def negative_def [symmetric] v_def [symmetric] e prod.case a
        fw_def [symmetric] v'_def [symmetric] r tail_def [symmetric]
      by (intro uniformM_if conjunct1 [OF Suc.IH] body)
  qed
  ultimately show ?case by (rule conjI)
qed

lemmas uniformM_ftoa = uniformM_ftoa_etoa [THEN conjunct1]
lemmas uniformM_etoa = uniformM_ftoa_etoa [THEN conjunct2]

lemma uniform_pad_spaces: "uniform (\<lambda>k. pad_spaces k l width)"
  unfolding pad_spaces_def [abs_def] by (rule uniform_for_range)

text \<open>A conversion that also consumes arguments.\<close>

definition uniformV ::
  "(sink \<Rightarrow> u32 \<times> world \<Rightarrow> ((u32 \<times> world) \<times> 'a) option) \<Rightarrow> bool" where
  "uniformV f \<longleftrightarrow> (\<exists>r. \<forall>k st. f k st = map_option (\<lambda>(cs, rest). (put_all k cs st, rest)) r)"

lemma uniformV_None: "uniformV (\<lambda>k st. None)"
  unfolding uniformV_def by (rule exI [of _ None]) simp

lemma uniformV_Some:
  assumes "uniform f"
  shows "uniformV (\<lambda>k st. Some (f k st, rest))"
proof -
  obtain cs where "\<And>k st. f k st = put_all k cs st"
    using assms unfolding uniform_def by blast
  then show ?thesis
    unfolding uniformV_def by (intro exI [of _ "Some (cs, rest)"]) simp
qed

lemma uniformV_map:
  assumes "uniformM f"
  shows "uniformV (\<lambda>k st. Option.bind (f k st) (\<lambda>st'. Some (st', rest)))"
proof -
  obtain r where "\<And>k st. f k st = map_option (\<lambda>cs. put_all k cs st) r"
    using assms unfolding uniformM_def by blast
  then show ?thesis
    unfolding uniformV_def
    by (intro exI [of _ "map_option (\<lambda>cs. (cs, rest)) r"]) (auto simp: option.map_comp comp_def map_option_case split: option.splits)
qed

lemma uniformV_bind_const:
  assumes "\<And>x. r = Some x \<Longrightarrow> uniformV (g x)"
  shows "uniformV (\<lambda>k st. Option.bind r (\<lambda>x. g x k st))"
  using assms by (cases r) (simp_all add: uniformV_None)

lemma uniformV_if:
  "(b \<Longrightarrow> uniformV f) \<Longrightarrow> (\<not> b \<Longrightarrow> uniformV g) \<Longrightarrow> uniformV (\<lambda>k st. if b then f k st else g k st)"
  by (cases b) simp_all

lemma uniformV_convert_int: "uniformV (\<lambda>k. convert_int k c flags width precision va)"
  unfolding convert_int_def [abs_def] Let_def split_beta
  by (intro uniformV_if uniformV_bind_const uniformV_Some uniform_ntoa_long uniform_ntoa_long_long)

lemma uniformV_convert_char: "uniformV (\<lambda>k. convert_char k flags width va)"
  unfolding convert_char_def [abs_def] Let_def split_beta
  by (intro uniformV_bind_const uniformV_Some)
    (cases "has flags 2", simp_all, rule uniform_comp [OF uniform_put uniform_pad_spaces],
      rule uniform_comp [OF uniform_pad_spaces uniform_put])

lemma uniformV_convert_string: "uniformV (\<lambda>k. convert_string k flags width precision va)"
  unfolding convert_string_def [abs_def] Let_def split_beta
  by (intro uniformV_bind_const uniformV_Some)
    (cases "has flags 2", simp_all add: uniform_comp [OF uniform_put_string uniform_pad_spaces]
      uniform_comp [OF uniform_pad_spaces uniform_put_string])

lemma uniformV_convert: "uniformV (\<lambda>k. convert fp k c flags width precision va)"
  unfolding convert_def [abs_def] convert_pointer_def Let_def split_beta
  by (intro uniformV_if uniformV_bind_const uniformV_Some uniformV_map uniform_put uniform_ntoa_long
      uniformM_ftoa uniformM_etoa uniformV_convert_int uniformV_convert_char uniformV_convert_string)

lemma uniformV_then:
  assumes "uniformV f"
  shows "uniformV (\<lambda>k st. Option.bind (f k st) (\<lambda>x. case x of (st', va') \<Rightarrow> Some (st', h va')))"
proof -
  obtain r where r: "\<And>k st. f k st = map_option (\<lambda>(cs, rest). (put_all k cs st, rest)) r"
    using assms unfolding uniformV_def by blast
  show ?thesis
    unfolding uniformV_def
    by (rule exI [of _ "map_option (\<lambda>(cs, rest). (cs, h rest)) r"]) (cases r; auto simp: r)
qed

lemma uniformV_end:
  "uniformV f \<Longrightarrow>
   uniformV (\<lambda>k st. Option.bind (f k st) (\<lambda>p. if cs = [] then None else Some (fst p, tl cs, snd p)))"
  using uniformV_then [of f "Pair (tl cs)"]
  by (cases "cs = []") (simp_all add: case_prod_unfold uniformV_None)

lemma uniformV_directive: "uniformV (\<lambda>k. directive fp k format va)"
  unfolding directive_def [abs_def] Let_def case_prod_unfold
  by (intro uniformV_bind_const uniformV_end uniformV_convert)

lemma uniformM_vsnprintf_loop: "uniformM (\<lambda>k. vsnprintf_loop fp k format va)"
proof (induction format arbitrary: va rule: length_induct)
  case (1 format)
  show ?case
  proof (cases format)
    case Nil
    then show ?thesis by (simp add: uniformM_Some uniform_id)
  next
    case (Cons c cs)
    obtain r where r: "\<And>k st. directive fp k cs va st = map_option (\<lambda>(cs, rest). (put_all k cs st, rest)) r"
      using uniformV_directive unfolding uniformV_def by blast
    have put: "uniformM (\<lambda>k st. vsnprintf_loop fp k cs va (put k c st))"
      using uniformM_bind [OF uniformM_Some [OF uniform_put [of c]] 1 [rule_format, of cs va]] Cons by simp
    have "uniformM (\<lambda>k st. case directive fp k cs va st of
        None \<Rightarrow> None | Some (st', cs', va') \<Rightarrow> vsnprintf_loop fp k cs' va' st')"
    proof (cases r)
      case None
      then show ?thesis by (simp add: r uniformM_None)
    next
      case (Some x)
      obtain ds cs' va' where x: "x = (ds, cs', va')" by (cases x) auto
      have "length cs' < length format"
        using directive_shorter [of fp undefined cs va undefined "put_all undefined ds undefined" cs' va']
        by (simp add: r Some x Cons)
      then have "uniformM (\<lambda>k. vsnprintf_loop fp k cs' va')" using 1 by blast
      then show ?thesis
        using uniformM_bind [OF uniformM_Some [OF uniform_put_all [of ds]], of "\<lambda>k. vsnprintf_loop fp k cs' va'"]
        by (simp add: r Some x)
    qed
    then show ?thesis
      unfolding Cons vsnprintf_loop.simps
      by (intro uniformM_if uniformM_Some uniform_id put)
  qed
qed

section \<open>What reaches the buffer\<close>

definition window :: "addr \<Rightarrow> u32 \<Rightarrow> u32 \<Rightarrow> u8 list \<Rightarrow> memory \<Rightarrow> memory" where
  "window buf idx count cs m =
     (\<lambda>a. let i = unat (a - buf)
          in if unat idx \<le> i \<and> i < unat idx + length cs \<and> i < unat count
             then cs ! (i - unat idx) else m a)"

lemma window_Nil: "window buf idx count [] m = m"
  by (auto simp: window_def Let_def fun_eq_iff)

lemma window_Cons:
  assumes "unat idx + Suc (length cs) < 2 ^ 32"
  shows "window buf (idx + 1) count cs (if idx < count then m(buf + idx := c) else m) =
         window buf idx count (c # cs) m"
proof
  fix a
  have idx: "unat (idx + 1) = Suc (unat idx)"
    using assms by (simp add: unat_word_ariths)
  have eq: "a = buf + idx \<longleftrightarrow> unat (a - buf) = unat idx"
    by (simp add: word_unat_eq_iff [symmetric] algebra_simps)
  show "window buf (idx + 1) count cs (if idx < count then m(buf + idx := c) else m) a =
        window buf idx count (c # cs) m a"
    by (auto simp: window_def Let_def idx eq nth_Cons' word_less_nat_alt)
qed

lemma put_all_buffer:
  assumes "out k = Out_buffer" and "unat idx + length cs < 2 ^ 32"
  shows "put_all k cs (idx, w) =
    (idx + of_nat (length cs), w\<lparr>mem := window (buffer k) idx (maxlen k) cs (mem w)\<rparr>)"
  using assms
proof (induction cs arbitrary: idx w)
  case Nil
  then show ?case by (simp add: window_Nil)
next
  case (Cons c cs)
  have "put k c (idx, w) =
      (idx + 1, w\<lparr>mem := if idx < maxlen k then (mem w)(buffer k + idx := c) else mem w\<rparr>)"
    using Cons.prems by (simp add: put_def out_call_def out_buffer_def)
  moreover have "unat (idx + 1) = Suc (unat idx)"
    using Cons.prems by (simp add: unat_word_ariths)
  ultimately show ?case
    using Cons.prems window_Cons [of idx cs "buffer k" "maxlen k" "mem w" c]
    by (simp add: Cons.IH algebra_simps)
qed

lemma put_all_null: "out k = Out_null \<Longrightarrow> put_all k cs (idx, w) = (idx + of_nat (length cs), w)"
  by (induction cs arbitrary: idx) (simp_all add: put_def out_call_def out_null_def algebra_simps)

text \<open>The final zero turns the window into the formatted buffer.\<close>

lemma window_terminated:
  assumes len: "length cs < 2 ^ 32"
  shows "out_buffer 0 buf (if of_nat (length cs) < count then of_nat (length cs) else count - 1) count
           (w\<lparr>mem := window buf 0 count cs m\<rparr>) = w\<lparr>mem := formatted buf (unat count) cs m\<rparr>"
proof -
  define e :: u32 where "e = (if of_nat (length cs) < count then of_nat (length cs) else count - 1)"
  have "unat (of_nat (length cs) :: u32) = length cs"
    using len by (simp add: unat_of_nat take_bit_nat_eq_self)
  then have e: "unat e = min (length cs) (unat count - 1)" if "count \<noteq> 0"
    using that by (auto simp: e_def word_less_nat_alt unat_minus_one)
  have lt: "e < count \<longleftrightarrow> count \<noteq> 0"
    using e unat_gt_0 [of count] by (cases "count = 0") (auto simp: word_less_nat_alt min_def)
  have "(if e < count then (window buf 0 count cs m)(buf + e := 0) else window buf 0 count cs m) a =
        formatted buf (unat count) cs m a" for a
  proof (cases "count = 0")
    case True
    then show ?thesis by (simp add: lt window_def formatted_def)
  next
    case False
    have "a = buf + e \<longleftrightarrow> unat (a - buf) = unat e"
      by (simp add: word_unat_eq_iff [symmetric] algebra_simps)
    moreover have "0 < unat count" using False by (simp add: unat_gt_0)
    ultimately show ?thesis
      using e [OF False] by (auto simp: lt False window_def formatted_def Let_def)
  qed
  then show ?thesis
    unfolding e_def [symmetric] by (auto simp: out_buffer_def fun_eq_iff)
qed

lemma vsnprintf_text:
  assumes "\<And>k st. vsnprintf_loop fp k format va st = Some (put_all k cs st)"
  shows "vsnprintf fp 0 count format va w = Some (of_nat (length cs), w)"
    and "buf \<noteq> 0 \<Longrightarrow> length cs < 2 ^ 32 \<Longrightarrow> vsnprintf fp buf count format va w =
          Some (of_nat (length cs), w\<lparr>mem := formatted buf (unat count) cs (mem w)\<rparr>)"
  by (simp_all add: vsnprintf_def vsnprintf_int_def assms put_all_null put_all_buffer out_call_def
      out_null_def window_terminated split del: if_split cong del: if_weak_cong)

text \<open>A concrete memory and floating-point unit for the examples below; no example uses a double.\<close>

definition blank_world :: world where
  "blank_world = \<lparr>mem = (\<lambda>a. 0xFF), putchar_log = [], fct_log = []\<rparr>"

definition blank_fpu :: fpu where
  "blank_fpu = \<lparr>fp_lt = (<), fp_le = (\<le>), fp_eq = (=), fp_add = (+), fp_sub = (-), fp_mul = (*),
     fp_div = (div), fp_neg = uminus, fp_of_int = word_of_int, fp_of_ulong = ucast, fp_to_int = uint,
     fp_to_ulong = ucast, fp_lit = (\<lambda>m e. of_nat (m div 10 ^ e)), DBL_MAX = - 1\<rparr>"

text \<open>
  Property C10: \<open>vsnprintf\<close> formats the same text whatever the buffer. If it returns for one
  buffer it returns for every one, and there is one text whose length (in 32 bits) it returns;
  with the null pointer it writes nothing, and otherwise the buffer holds as much of the text as
  fits before a terminating zero, cut at the given size, and no other byte changes.
\<close>

theorem vsnprintf_formats_one_text:
  assumes "vsnprintf fp buf0 count0 format va w0 \<noteq> None"
  shows "\<exists>text. \<forall>count w.
       vsnprintf fp 0 count format va w = Some (of_nat (length text), w) \<and>
       (\<forall>buf. buf \<noteq> 0 \<and> length text < 2 ^ 32 \<longrightarrow>
          vsnprintf fp buf count format va w =
            Some (of_nat (length text), w\<lparr>mem := formatted buf (unat count) text (mem w)\<rparr>))"
proof -
  obtain r where r: "\<And>k st. vsnprintf_loop fp k format va st = map_option (\<lambda>cs. put_all k cs st) r"
    using uniformM_vsnprintf_loop unfolding uniformM_def by blast
  with assms obtain cs where "r = Some cs"
    by (cases r) (auto simp: vsnprintf_def vsnprintf_int_def)
  with r have "\<And>k st. vsnprintf_loop fp k format va st = Some (put_all k cs st)" by simp
  from vsnprintf_text [OF this] show ?thesis by blast
qed

theorem vsnprintf_formats_one_text_witness:
  "\<exists>text. \<forall>count w.
       vsnprintf blank_fpu 0 count [79, 75] [] w = Some (of_nat (length text), w) \<and>
       (\<forall>buf. buf \<noteq> 0 \<and> length text < 2 ^ 32 \<longrightarrow>
          vsnprintf blank_fpu buf count [79, 75] [] w =
            Some (of_nat (length text), w\<lparr>mem := formatted buf (unat count) text (mem w)\<rparr>))"
  by (rule vsnprintf_formats_one_text [of _ 0 0 _ _ blank_world])
    (simp add: vsnprintf_def vsnprintf_int_def put_def Let_def)

lemma put_all_outside:
  assumes "out k \<noteq> Out_buffer \<or> maxlen k \<le> a - buffer k"
  shows "mem (snd (put_all k cs st)) a = mem (snd st) a"
  using assms
  by (induction cs arbitrary: st)
    (auto simp: put_def out_call_def out_buffer_def out_null_def out_char_def out_fct_def
      split: out_fct_type.splits)

text \<open>
  Property C11: \<open>snprintf\<close> never writes outside the \<open>count\<close> bytes it was given, whatever the
  format, the arguments and the floating-point unit, including texts longer than the address
  space and a buffer of size zero.
\<close>

theorem snprintf_stays_in_buffer:
  assumes "snprintf fp buf count format va w = Some (n, w')" and "count \<le> a - buf"
  shows "mem w' a = mem w a"
proof -
  obtain r where r: "\<And>k st. vsnprintf_loop fp k format va st = map_option (\<lambda>cs. put_all k cs st) r"
    using uniformM_vsnprintf_loop unfolding uniformM_def by blast
  define k where "k = (if buf = 0 then \<lparr>out = Out_null, buffer = buf, maxlen = count\<rparr>
                       else \<lparr>out = Out_buffer, buffer = buf, maxlen = count\<rparr>)"
  have k: "maxlen k \<le> a - buffer k"
    using assms(2) by (cases "buf = 0") (simp_all add: k_def)
  have "snprintf fp buf count format va w = map_option (\<lambda>cs. let p = put_all k cs (0, w) in
      (fst p, out_call k 0 (if fst p < maxlen k then fst p else maxlen k - 1) (snd p))) r"
    by (cases r) (simp_all add: snprintf_def vsnprintf_int_def r k_def Let_def split_beta)
  with assms(1) obtain cs where
    "w' = out_call k 0 (if n < maxlen k then n else maxlen k - 1) (snd (put_all k cs (0, w)))"
    by (auto simp: Let_def)
  then show ?thesis
    using put_all_outside [of k a cs "(0, w)"] k
      put_all_outside [of k a "[0]" "(if n < maxlen k then n else maxlen k - 1, snd (put_all k cs (0, w)))"]
    by (simp add: put_def)
qed

theorem snprintf_stays_in_buffer_witness:
  "mem (snd (the (snprintf blank_fpu 0x1000 2 [79, 75, 33] [] blank_world))) 0x1002 =
   mem blank_world 0x1002"
  by (rule snprintf_stays_in_buffer [where fp = blank_fpu and buf = "0x1000" and count = 2 and
        format = "[79, 75, 33]" and va = "[]" and n = 3])
    (simp_all add: snprintf_def vsnprintf_int_def put_def out_call_def out_buffer_def)


section \<open>Numbers\<close>

lemma digits_value_snoc: "digits_value b (cs @ [c]) = digits_value b cs * b + digit_value c"
  by (simp add: digits_value_def)

lemma digit_value_digit_char:
  assumes "d < 16"
  shows "digit_value (digit_char d flags) = unat d"
proof (cases "d < 10")
  case True
  then show ?thesis
    by (simp add: digit_value_def digit_char_def word_less_nat_alt word_le_nat_alt unat_word_ariths)
next
  case False
  then have "unat (digit_char d flags) = (if has flags 32 then 55 else 87) + unat d"
    using assms by (auto simp: digit_char_def word_less_nat_alt unat_word_ariths unat_sub_if' add.commute [of _ d])
  then show ?thesis
    using assms False by (auto simp: digit_value_def word_less_nat_alt word_le_nat_alt)
qed

lemma digit_char_in:
  assumes "d < 16" "unat d < base"
  shows "digit_in base flags (digit_char d flags)"
proof (cases "d < 10")
  case True
  then have "unat (digit_char d flags) = 48 + unat d"
    by (simp add: digit_char_def word_less_nat_alt unat_word_ariths)
  then have "digit_char d flags \<in> {48..57}" using True by (simp add: word_less_nat_alt word_le_nat_alt)
  then show ?thesis using assms by (simp add: digit_in_def digit_value_digit_char)
next
  case False
  then have "unat (digit_char d flags) = (if has flags 32 then 55 else 87) + unat d"
    using assms by (auto simp: digit_char_def word_less_nat_alt unat_word_ariths unat_sub_if' add.commute [of _ d])
  then have "digit_char d flags \<in> (if has flags FLAGS_UPPERCASE then {65..70} else {97..102})"
    using assms False by (auto simp: word_less_nat_alt word_le_nat_alt)
  then show ?thesis using assms by (simp add: digit_in_def digit_value_digit_char)
qed

text \<open>
  The digits go to the buffer least significant first: they are those of the value until the
  buffer is full, and the last one is not a superfluous zero.
\<close>

lemma ntoa_digits_spec:
  fixes val base :: "'a::len word"
  assumes "2 \<le> unat base" and "unat base \<le> 16" and "length buf < 32"
  shows "\<exists>ds. ntoa_digits val base flags buf = buf @ ds \<and> length (buf @ ds) \<le> 32 \<and> ds \<noteq> [] \<and>
    digits_value (unat base) (rev ds) = unat val mod unat base ^ (32 - length buf) \<and>
    (length ds = 1 \<or> unat base ^ (length ds - 1) \<le> unat val) \<and> list_all (digit_in (unat base) flags) ds"
  using assms
proof (induction val base flags buf rule: ntoa_digits.induct)
  case (1 val base flags buf)
  define d where "d = digit_char (ucast (val mod base)) flags"
  have "unat (val mod base) < 16"
    using "1.prems" by (simp add: unat_mod) (meson dual_order.strict_trans1 mod_less_divisor zero_less_numeral less_le_trans)
  then have small: "unat (ucast (val mod base) :: u8) = unat val mod unat base"
    by (simp add: unat_mod unsigned_ucast_eq take_bit_nat_eq_self)
  then have dv: "digit_value d = unat val mod unat base"
    using \<open>unat (val mod base) < 16\<close>
    by (simp add: d_def digit_value_digit_char word_less_nat_alt unat_mod)
  have din: "digit_in (unat base) flags d"
    unfolding d_def using small \<open>unat (val mod base) < 16\<close> "1.prems"
    by (intro digit_char_in) (simp_all add: word_less_nat_alt unat_mod)
  have fits: "32 - length buf = Suc (32 - length (buf @ [d]))" using "1.prems" by simp
  show ?case
  proof (cases "val div base \<noteq> 0 \<and> length (buf @ [d]) < 32")
    case True
    obtain ds where ds: "ntoa_digits (val div base) base flags (buf @ [d]) = (buf @ [d]) @ ds"
      "length ((buf @ [d]) @ ds) \<le> 32" "ds \<noteq> []" "list_all (digit_in (unat base) flags) ds"
      "digits_value (unat base) (rev ds) = unat (val div base) mod unat base ^ (32 - length (buf @ [d]))"
      "length ds = 1 \<or> unat base ^ (length ds - 1) \<le> unat (val div base)"
      using 1 True by (fastforce simp: d_def)
    have "digits_value (unat base) (rev (d # ds)) = unat val mod unat base ^ (32 - length buf)"
      unfolding fits power_Suc using ds(5) dv by (simp add: digits_value_snoc unat_div mod_mult2_eq mult.commute)
    moreover have "unat base ^ (length (d # ds) - 1) \<le> unat val"
    proof -
      have "0 < unat val div unat base" using True by (metis unat_div unat_gt_0)
      then have "unat base ^ (length ds - 1) \<le> unat val div unat base" using ds(6) by (auto simp: unat_div)
      then have "unat base ^ (length ds - 1) * unat base \<le> unat val"
        using "1.prems" by (simp add: less_eq_div_iff_mult_less_eq)
      then show ?thesis using ds(3) by (cases ds) (simp_all add: mult.commute)
    qed
    ultimately show ?thesis
      using ds True din by (intro exI [of _ "d # ds"]) (simp add: ntoa_digits.simps [of val] d_def Let_def)
  next
    case False
    have "unat val mod unat base = unat val mod unat base ^ (32 - length buf)"
    proof (cases "val div base = 0")
      case True
      then have "unat val div unat base = 0" by (metis unat_0 unat_div)
      then have "unat val < unat base" using "1.prems" by (simp add: div_eq_0_iff)
      moreover have "unat base \<le> unat base ^ (32 - length buf)"
        using "1.prems" by (intro self_le_power) simp_all
      ultimately show ?thesis by simp
    next
      case False
      with \<open>\<not> (val div base \<noteq> 0 \<and> length (buf @ [d]) < 32)\<close> "1.prems"
      have "32 - length buf = 1" by simp
      then show ?thesis by simp
    qed
    then show ?thesis
      using False "1.prems" dv din
      by (intro exI [of _ "[d]"]) (auto simp: ntoa_digits.simps [of val] d_def Let_def digits_value_def)
  qed
qed

lemma unat_magnitude: "unat (magnitude (v :: u32)) = nat \<bar>sint v\<bar>"
proof -
  have range: "- (2 ^ 31) \<le> sint v" "sint v < 2 ^ 31"
    using sint_ge [of v] sint_lt [of v] by simp_all
  have "magnitude v = word_of_int \<bar>sint v\<bar>"
    by (simp add: magnitude_def)
  then show ?thesis
    using range by (simp add: unat_eq_nat_uint uint_word_of_int)
qed

lemma unat_magnitude64: "unat (magnitude (v :: u64)) = nat \<bar>sint v\<bar>"
proof -
  have range: "- (2 ^ 63) \<le> sint v" "sint v < 2 ^ 63"
    using sint_ge [of v] sint_lt [of v] by simp_all
  have "magnitude v = word_of_int \<bar>sint v\<bar>"
    by (simp add: magnitude_def)
  then show ?thesis
    using range by (simp add: unat_eq_nat_uint uint_word_of_int)
qed



subsection \<open>The conversion buffer\<close>

lemma fill_zeros_bounded: "length buf \<le> 32 \<Longrightarrow> length (fill_zeros n buf) \<le> 32"
  by (induction n buf rule: fill_zeros.induct) (subst fill_zeros.simps, simp)

lemma snoc_bounded_bounded: "length buf \<le> 32 \<Longrightarrow> length (snoc_bounded buf c) \<le> 32"
  by (simp add: snoc_bounded_def)

lemma sign_char_bounded: "length buf \<le> 32 \<Longrightarrow> length (sign_char negative flags buf) \<le> 32"
  by (simp add: sign_char_def snoc_bounded_bounded)

lemma hash_prefix_bounded: "length buf \<le> 32 \<Longrightarrow> length (hash_prefix buf base prec width flags) \<le> 32"
  by (auto simp: hash_prefix_def Let_def intro!: snoc_bounded_bounded)

lemma limit_prec_bounded: "length buf \<le> 32 \<Longrightarrow> length (snd (limit_prec prec buf)) \<le> 32"
  by (induction prec buf rule: limit_prec.induct) (subst limit_prec.simps, simp)

lemma frac_digits_bounded: "length buf \<le> 32 \<Longrightarrow> length (snd (frac_digits count frac buf)) \<le> 32"
  by (induction count frac buf rule: frac_digits.induct) (subst frac_digits.simps, simp add: Let_def)

lemma extra_zeros_bounded: "length buf \<le> 32 \<Longrightarrow> length (extra_zeros count buf) \<le> 32"
  by (induction count buf rule: extra_zeros.induct) (subst extra_zeros.simps, simp)

lemma whole_digits_bounded: "length buf \<le> 32 \<Longrightarrow> length (whole_digits whole buf) \<le> 32"
  by (induction whole buf rule: whole_digits.induct) (subst whole_digits.simps, simp add: Let_def)

subsection \<open>Whole formats\<close>

lemma has_0 [simp]: "\<not> has 0 f"
  by (simp add: has_def)

lemma vsnprintf_loop_literal:
  "37 \<notin> set cs \<Longrightarrow> 0 \<notin> set cs \<Longrightarrow>
   vsnprintf_loop fp k (cs @ rest) va st = vsnprintf_loop fp k rest va (put_all k cs st)"
  by (induction cs arbitrary: st) auto

text \<open>Without flags, width or precision a number is its digits after the sign.\<close>

lemma ntoa_long_plain:
  "ntoa_long k val negative base 0 0 0 st =
     put_all k ((if negative then [45] else []) @ rev (ntoa_digits val base 0 [])) st"
  if "length (ntoa_digits val base 0 []) < 32"
  using that
  by (cases "val = 0") (simp_all add: ntoa_long_def ntoa_format_def Let_def out_rev_def hash_prefix_def sign_char_def
      snoc_bounded_def fill_zeros.simps [of 0] for_range.simps [of _ 0])

lemma directive_plain:
  assumes "flag_of c = 0" "\<not> is_digit c" "c \<noteq> 42" "c \<noteq> 46" "c \<notin> {108, 104, 116, 106, 122}"
  shows "directive fp k (c # cs) va st = map_option (\<lambda>(st', va'). (st', cs, va')) (convert fp k c 0 0 0 va st)"
  using assms
  by (cases "convert fp k c 0 0 0 va st")
    (simp_all add: directive_def eval_width_def eval_precision_def eval_length_def deref_def
      split: prod.splits)

lemma convert_d:
  assumes "length (ntoa_digits (magnitude v) 10 0 []) < 32"
  shows "convert fp k 100 0 0 0 (VWord v # va) st =
    Some (put_all k ((if sint v < 0 then [45] else []) @ rev (ntoa_digits (magnitude v) 10 0 [])) st, va)"
  using ntoa_long_plain [OF assms]
  by (simp add: convert_def convert_int_def int_flags_def)

lemma ntoa_digits_length:
  fixes val base :: "'a::len word"
  assumes "2 \<le> unat base" and "unat val < unat base ^ n" and "0 < n"
  shows "length (ntoa_digits val base flags buf) \<le> length buf + n"
  using assms
proof (induction val base flags buf arbitrary: n rule: ntoa_digits.induct)
  case (1 val base flags buf)
  let ?d = "digit_char (ucast (val mod base)) flags"
  show ?case
  proof (cases "val div base \<noteq> 0 \<and> length (buf @ [?d]) < 32")
    case True
    obtain m where m: "n = Suc m" using "1.prems" by (cases n) auto
    have "unat (val div base) < unat base ^ m"
      using "1.prems" m by (simp add: unat_div less_mult_imp_div_less mult.commute)
    moreover from this True have "0 < m"
      by (cases m) (simp_all add: unat_eq_0)
    ultimately have "length (ntoa_digits (val div base) base flags (buf @ [?d])) \<le> length (buf @ [?d]) + m"
      using "1.IH" [OF refl refl True "1.prems"(1), of m] by simp
    then show ?thesis
      using True m by (simp add: ntoa_digits.simps [of val] Let_def)
  next
    case False
    then show ?thesis
      using "1.prems" by (auto simp: ntoa_digits.simps [of val] Let_def)
  qed
qed

text \<open>
  Property C27: \<open>"%d"\<close> prints a 32-bit integer in decimal: a minus sign for a negative number,
  then at most ten decimal digits, without a leading zero, whose value is its magnitude, the
  smallest integer included. The text is
  put in the buffer as \<open>formatted\<close> says and its length is returned.
\<close>

theorem printf_decimal:
  assumes "buf \<noteq> 0"
  shows "\<exists>ds. digits_value 10 ds = nat \<bar>sint v\<bar> \<and> 0 < length ds \<and> length ds \<le> 10 \<and>
    list_all (digit_in 10 0) ds \<and> (length ds = 1 \<or> 10 ^ (length ds - 1) \<le> nat \<bar>sint v\<bar>) \<and>
    (let text = (if sint v < 0 then [45] else []) @ ds
     in vsnprintf fp buf count [37, 100] [VWord v] w =
          Some (of_nat (length text), w\<lparr>mem := formatted buf (unat count) text (mem w)\<rparr>))"
proof -
  let ?b = "ntoa_digits (magnitude v) 10 0 []"
  have val: "unat (magnitude v) < 10 ^ 10"
    using unsigned_less [of "magnitude v", where ?'a = nat] by simp
  then have len: "length ?b \<le> 10"
    using ntoa_digits_length [of "10 :: u32" "magnitude v" 10 0 "[]"] by simp
  have digits: "digits_value 10 (rev ?b) = unat (magnitude v)" "?b \<noteq> []" "list_all (digit_in 10 0) ?b"
    "length ?b = 1 \<or> 10 ^ (length ?b - 1) \<le> unat (magnitude v)"
    using ntoa_digits_spec [of "10 :: u32" "[]" "magnitude v" 0] val by auto
  define s where "s = (if sint v < 0 then [45] else []) @ rev ?b"
  have loop: "vsnprintf_loop fp k [37, 100] [VWord v] st = Some (put_all k s st)" for k st
    using convert_d [of v fp k "[]" st] len
      directive_plain [of 100 fp k "[]" "[VWord v]" st]
    by (simp add: s_def flag_of_def is_digit_def)
  have "vsnprintf fp buf count [37, 100] [VWord v] w =
      Some (of_nat (length s), w\<lparr>mem := formatted buf (unat count) s (mem w)\<rparr>)"
    using len by (intro vsnprintf_text(2) [OF loop assms]) (simp add: s_def)
  then show ?thesis
    using digits len unat_magnitude [of v]
    by (intro exI [of _ "rev ?b"]) (simp add: s_def Let_def)
qed

theorem printf_decimal_witness:
  "\<exists>ds. digits_value 10 ds = nat \<bar>sint (0x80000000 :: u32)\<bar> \<and> 0 < length ds \<and> length ds \<le> 10 \<and>
    list_all (digit_in 10 0) ds \<and> (length ds = 1 \<or> 10 ^ (length ds - 1) \<le> nat \<bar>sint (0x80000000 :: u32)\<bar>) \<and>
    (let text = (if sint (0x80000000 :: u32) < 0 then [45] else []) @ ds
     in vsnprintf blank_fpu 0x1000 64 [37, 100] [VWord 0x80000000] blank_world =
          Some (of_nat (length text), blank_world\<lparr>mem := formatted 0x1000 (unat (64 :: u32)) text (mem blank_world)\<rparr>))"
  by (rule printf_decimal) simp

text \<open>
  Text without directives is copied as it is, and a percent sign at its end makes
  the interpreter take the terminating zero for a specifier and read on past the end of the
  format, which is a fault; a doubled percent sign prints one.
\<close>

theorem printf_literal:
  assumes "buf \<noteq> 0" and "37 \<notin> set cs" and "0 \<notin> set cs" and "length cs < 2 ^ 32 - 1"
  shows "vsnprintf fp buf count cs va w =
           Some (of_nat (length cs), w\<lparr>mem := formatted buf (unat count) cs (mem w)\<rparr>) \<and>
         vsnprintf fp buf count (cs @ [37, 37]) va w =
           Some (of_nat (length cs + 1), w\<lparr>mem := formatted buf (unat count) (cs @ [37]) (mem w)\<rparr>) \<and>
         vsnprintf fp buf count (cs @ [37]) va w = None"
proof (intro conjI)
  have "vsnprintf_loop fp k cs va st = Some (put_all k cs st)" for k st
    using vsnprintf_loop_literal [OF assms(2,3), of fp k "[]"] by simp
  from vsnprintf_text(2) [OF this assms(1)] show "vsnprintf fp buf count cs va w =
      Some (of_nat (length cs), w\<lparr>mem := formatted buf (unat count) cs (mem w)\<rparr>)"
    using assms(4) by simp
next
  have "vsnprintf_loop fp k (cs @ [37, 37]) va st = Some (put_all k (cs @ [37]) st)" for k st
    using vsnprintf_loop_literal [OF assms(2,3), of fp k "[37, 37]"]
    by (simp add: directive_plain flag_of_def is_digit_def convert_def)
  from vsnprintf_text(2) [OF this assms(1)] show "vsnprintf fp buf count (cs @ [37, 37]) va w =
      Some (of_nat (length cs + 1), w\<lparr>mem := formatted buf (unat count) (cs @ [37]) (mem w)\<rparr>)"
    using assms(4) by simp
next
  have "vsnprintf_loop fp k (cs @ [37]) va st = None" for k st
    using vsnprintf_loop_literal [OF assms(2,3), of fp k "[37]"]
    by (simp add: directive_def eval_width_def eval_precision_def eval_length_def deref_def is_digit_def
        convert_def)
  then show "vsnprintf fp buf count (cs @ [37]) va w = None"
    by (simp add: vsnprintf_def vsnprintf_int_def)
qed

theorem printf_literal_witness:
  "vsnprintf blank_fpu 0x1000 8 [79, 75] [] blank_world =
     Some (2, blank_world\<lparr>mem := formatted 0x1000 8 [79, 75] (mem blank_world)\<rparr>) \<and>
   vsnprintf blank_fpu 0x1000 8 [79, 75, 37, 37] [] blank_world =
     Some (3, blank_world\<lparr>mem := formatted 0x1000 8 [79, 75, 37] (mem blank_world)\<rparr>) \<and>
   vsnprintf blank_fpu 0x1000 8 [79, 75, 37] [] blank_world = None"
  using printf_literal [where buf = "0x1000" and cs = "[79, 75]" and fp = blank_fpu and count = 8
      and va = "[]" and w = blank_world] by simp

end
