(* ===== verification/Physical.thy ===== *)
theory Physical
  imports Prelude
begin

text \<open>
  The physical page allocator of \<open>Kernel/MemoryManager/PhysicalAllocator.cpp\<close>: one bit per page
  of the 32-bit address space. The bitmap has \<open>ALLOCATION_BYTES\<close> bytes, which is one less than
  the pages need, so an access for one of the last eight pages falls outside it; the model makes
  such an access a fault (\<open>None\<close>). \<open>physicalAllocatorInit\<close>, which reads the boot loader's
  memory map, is modelled with the boot code.
\<close>

section \<open>Definitions\<close>

abbreviation (input) PAGE_SIZE :: u32 where "PAGE_SIZE \<equiv> 0x1000"
abbreviation (input) TOTAL_MEMORY :: u32 where "TOTAL_MEMORY \<equiv> 0xFFFFFFFF"

definition MAX_NUM_PHYSICAL_PAGES :: u32 where
  "MAX_NUM_PHYSICAL_PAGES = TOTAL_MEMORY div PAGE_SIZE"

definition ALLOCATION_BYTES :: u32 where
  "ALLOCATION_BYTES = MAX_NUM_PHYSICAL_PAGES div 8"

record MemoryManagerData =
  TotalMemory :: u32
  UsedMemory :: u32
  PhysicalAllocation :: "u32 \<Rightarrow> u8"

text \<open>The access macros. \<open>page_byte\<close> is the index of the byte of a page and \<open>page_bit\<close> its mask.\<close>

definition page_byte :: "u32 \<Rightarrow> u32" where
  "page_byte pageAddress = pageAddress div PAGE_SIZE div 8"

definition page_bit :: "u32 \<Rightarrow> u8" where
  "page_bit pageAddress = push_bit (unat (pageAddress div PAGE_SIZE mod 8)) 1"

definition PHYSICAL_ALLOCATOR_GET_BYTE :: "MemoryManagerData \<Rightarrow> u32 \<Rightarrow> u8 option" where
  "PHYSICAL_ALLOCATOR_GET_BYTE d pageAddress =
     (if page_byte pageAddress < ALLOCATION_BYTES
      then Some (PhysicalAllocation d (page_byte pageAddress)) else None)"

definition PHYSICAL_ALLOCATOR_IS_USED :: "MemoryManagerData \<Rightarrow> u32 \<Rightarrow> bool option" where
  "PHYSICAL_ALLOCATOR_IS_USED d pageAddress =
     map_option (\<lambda>b. b AND page_bit pageAddress \<noteq> 0) (PHYSICAL_ALLOCATOR_GET_BYTE d pageAddress)"

definition PHYSICAL_ALLOCATOR_SET :: "u32 \<Rightarrow> MemoryManagerData \<Rightarrow> MemoryManagerData option" where
  "PHYSICAL_ALLOCATOR_SET pageAddress d =
     map_option (\<lambda>b. d\<lparr>PhysicalAllocation :=
         (PhysicalAllocation d)(page_byte pageAddress := b OR page_bit pageAddress)\<rparr>)
       (PHYSICAL_ALLOCATOR_GET_BYTE d pageAddress)"

definition PHYSICAL_ALLOCATOR_CLEAR :: "u32 \<Rightarrow> MemoryManagerData \<Rightarrow> MemoryManagerData option" where
  "PHYSICAL_ALLOCATOR_CLEAR pageAddress d =
     map_option (\<lambda>b. d\<lparr>PhysicalAllocation :=
         (PhysicalAllocation d)(page_byte pageAddress := b AND NOT (page_bit pageAddress))\<rparr>)
       (PHYSICAL_ALLOCATOR_GET_BYTE d pageAddress)"

text \<open>\<open>isPhysicalFree\<close> from a page index on; it returns at the first page in use.\<close>

function isPhysicalFree_from :: "MemoryManagerData \<Rightarrow> u32 \<Rightarrow> u32 \<Rightarrow> u32 \<Rightarrow> bool option" where
  "isPhysicalFree_from d startAddress pageIndex numPages =
     (if pageIndex < numPages then
        case PHYSICAL_ALLOCATOR_IS_USED d (startAddress + pageIndex * PAGE_SIZE) of
          None \<Rightarrow> None
        | Some used \<Rightarrow> if used then Some False
                      else isPhysicalFree_from d startAddress (pageIndex + 1) numPages
      else Some True)"
  by pat_completeness auto
termination
  by (relation "measure (\<lambda>(d, startAddress, pageIndex, numPages). unat numPages - unat pageIndex)")
    (auto simp: word_loop_measure)

declare isPhysicalFree_from.simps [simp del, loop_simps]

definition isPhysicalFree :: "MemoryManagerData \<Rightarrow> u32 \<Rightarrow> u32 \<Rightarrow> bool option" where
  "isPhysicalFree d startAddress numPages = isPhysicalFree_from d startAddress 0 numPages"

text \<open>\<open>physicalAllocate(startAddress, numPages)\<close>\<close>

definition physicalAllocateAt :: "u32 \<Rightarrow> u32 \<Rightarrow> MemoryManagerData \<Rightarrow> MemoryManagerData option" where
  "physicalAllocateAt startAddress numPages d =
     for_rangeM 0 numPages (\<lambda>pageIndex d. do {
       let address = startAddress + pageIndex * PAGE_SIZE;
       used \<leftarrow> PHYSICAL_ALLOCATOR_IS_USED d address;
       if \<not> used then PHYSICAL_ALLOCATOR_SET address (d\<lparr>UsedMemory := UsedMemory d + PAGE_SIZE\<rparr>)
       else Some d
     }) d"

text \<open>\<open>physicalAllocate(numPages)\<close>: the first fit, with 0 for none.\<close>

function physicalAllocate_from :: "u32 \<Rightarrow> u32 \<Rightarrow> MemoryManagerData \<Rightarrow> (u32 \<times> MemoryManagerData) option" where
  "physicalAllocate_from pageIndex numPages d =
     (if pageIndex < TotalMemory d div PAGE_SIZE then
        case isPhysicalFree d (pageIndex * PAGE_SIZE) numPages of
          None \<Rightarrow> None
        | Some free \<Rightarrow>
            if free then map_option (Pair (pageIndex * PAGE_SIZE))
                           (physicalAllocateAt (pageIndex * PAGE_SIZE) numPages d)
            else physicalAllocate_from (pageIndex + 1) numPages d
      else Some (0, d))"
  by pat_completeness auto
termination
  by (relation "measure (\<lambda>(pageIndex, numPages, d). unat (TotalMemory d div PAGE_SIZE) - unat pageIndex)")
    (auto simp: word_loop_measure)

declare physicalAllocate_from.simps [simp del, loop_simps]

definition physicalAllocate :: "u32 \<Rightarrow> MemoryManagerData \<Rightarrow> (u32 \<times> MemoryManagerData) option" where
  "physicalAllocate numPages d = physicalAllocate_from 0 numPages d"

definition physicalFree :: "u32 \<Rightarrow> u32 \<Rightarrow> MemoryManagerData \<Rightarrow> MemoryManagerData option" where
  "physicalFree startAddress numPages d =
     for_rangeM 0 numPages (\<lambda>pageIndex d. do {
       let address = startAddress + pageIndex * PAGE_SIZE;
       used \<leftarrow> PHYSICAL_ALLOCATOR_IS_USED d address;
       if used then PHYSICAL_ALLOCATOR_CLEAR address (d\<lparr>UsedMemory := UsedMemory d - PAGE_SIZE\<rparr>)
       else Some d
     }) d"

section \<open>Specification\<close>

text \<open>
  The bitmap as the set of the page numbers in use, among the \<open>NPAGES\<close> it has a bit for, and the
  pages of a block of memory.
\<close>

abbreviation (input) NPAGES :: nat where "NPAGES \<equiv> 1048568"

definition page_used :: "MemoryManagerData \<Rightarrow> nat \<Rightarrow> bool" where
  "page_used d p \<longleftrightarrow> bit (PhysicalAllocation d (of_nat (p div 8))) (p mod 8)"

definition used_pages :: "MemoryManagerData \<Rightarrow> nat set" where
  "used_pages d = {p. p < NPAGES \<and> page_used d p}"

definition pages_of :: "u32 \<Rightarrow> u32 \<Rightarrow> nat set" where
  "pages_of a n = {unat a div 4096 ..< unat a div 4096 + unat n}"

definition first_fit :: "nat set \<Rightarrow> nat \<Rightarrow> nat \<Rightarrow> nat \<Rightarrow> bool" where
  "first_fit used npages n p \<longleftrightarrow>
     p < npages \<and> {p ..< p + n} \<inter> used = {} \<and> (\<forall>q < p. {q ..< q + n} \<inter> used \<noteq> {})"

section \<open>Facts\<close>

subsection \<open>One page\<close>

lemma page_of_offset:
  assumes "unat a div 4096 + k < 1048576"
  shows "unat ((a + of_nat k * PAGE_SIZE) div PAGE_SIZE) = unat a div 4096 + k"
proof -
  have "unat a = unat a div 4096 * 4096 + unat a mod 4096" by simp
  then have lt: "unat a + k * 4096 < 4294967296"
    using assms mod_less_divisor [of 4096 "unat a"] by linarith
  then have "unat (of_nat k * PAGE_SIZE :: u32) = k * 4096"
    by (simp add: unat_word_ariths unat_of_nat take_bit_nat_eq_self)
  with lt have "unat (a + of_nat k * PAGE_SIZE) = unat a + k * 4096"
    by (simp add: unat_word_ariths)
  then show ?thesis by (simp add: unat_div)
qed

lemma ALLOCATION_BYTES_eq: "ALLOCATION_BYTES = 131071"
  by (simp add: ALLOCATION_BYTES_def MAX_NUM_PHYSICAL_PAGES_def)

lemma page_byte_of_nat:
  assumes "unat (a div PAGE_SIZE) = p"
  shows "page_byte a = of_nat (p div 8)"
proof -
  have "unat (page_byte a) = p div 8"
    using assms by (simp add: page_byte_def unat_div)
  then have "(of_nat (unat (page_byte a)) :: u32) = of_nat (p div 8)" by simp
  then show ?thesis by simp
qed

lemma byte_in_range:
  assumes "unat (a div PAGE_SIZE) = p"
  shows "page_byte a < ALLOCATION_BYTES \<longleftrightarrow> p < NPAGES"
proof -
  have "unat (page_byte a) = p div 8"
    using assms by (simp add: page_byte_def unat_div)
  then show ?thesis
    by (simp add: ALLOCATION_BYTES_eq word_less_nat_alt) linarith
qed

lemma and_push_bit_1: "(b :: u8) AND 2 ^ k \<noteq> 0 \<longleftrightarrow> bit b k"
  by (simp add: bit_iff_and_push_bit_not_eq_0)


lemma bit_byte_set: "p < 8 \<Longrightarrow> bit ((b :: u8) OR 2 ^ k) p \<longleftrightarrow> bit b p \<or> p = k"
  by (auto simp: bit_simps)

lemma bit_byte_clear: "p < 8 \<Longrightarrow> bit ((b :: u8) AND NOT (2 ^ k)) p \<longleftrightarrow> bit b p \<and> p \<noteq> k"
  by (auto simp: bit_simps)

text \<open>The access macros in terms of the page number.\<close>

lemma is_used_page:
  assumes "unat (a div PAGE_SIZE) = p"
  shows "PHYSICAL_ALLOCATOR_IS_USED d a = (if p < NPAGES then Some (page_used d p) else None)"
proof -
  have "page_bit a = 2 ^ (p mod 8)"
    using assms by (simp add: page_bit_def unat_mod)
  then show ?thesis
    using byte_in_range [OF assms] page_byte_of_nat [OF assms]
    by (simp add: PHYSICAL_ALLOCATOR_IS_USED_def PHYSICAL_ALLOCATOR_GET_BYTE_def page_used_def and_push_bit_1)
qed

definition set_page :: "nat \<Rightarrow> bool \<Rightarrow> MemoryManagerData \<Rightarrow> MemoryManagerData" where
  "set_page p u d = d\<lparr>PhysicalAllocation := (PhysicalAllocation d)(of_nat (p div 8) :=
     (if u then PhysicalAllocation d (of_nat (p div 8)) OR 2 ^ (p mod 8)
      else PhysicalAllocation d (of_nat (p div 8)) AND NOT (2 ^ (p mod 8))))\<rparr>"

lemma set_macros:
  assumes "unat (a div PAGE_SIZE) = p" and "p < NPAGES"
  shows "PHYSICAL_ALLOCATOR_SET a d = Some (set_page p True d)"
    and "PHYSICAL_ALLOCATOR_CLEAR a d = Some (set_page p False d)"
proof -
  have "page_bit a = 2 ^ (p mod 8)"
    using assms by (simp add: page_bit_def unat_mod)
  then show "PHYSICAL_ALLOCATOR_SET a d = Some (set_page p True d)"
    and "PHYSICAL_ALLOCATOR_CLEAR a d = Some (set_page p False d)"
    using byte_in_range [OF assms(1)] page_byte_of_nat [OF assms(1)] assms(2)
    by (simp_all add: PHYSICAL_ALLOCATOR_SET_def PHYSICAL_ALLOCATOR_CLEAR_def
        PHYSICAL_ALLOCATOR_GET_BYTE_def set_page_def)
qed

lemma of_nat_byte_inj:
  assumes "p < NPAGES" and "q < NPAGES"
  shows "(of_nat (p div 8) :: u32) = of_nat (q div 8) \<longleftrightarrow> p div 8 = q div 8"
  using assms of_nat_word_inj [of "p div 8" "131071 :: u32" "q div 8"] by auto

lemma page_used_set_page:
  assumes "p < NPAGES" and "q < NPAGES"
  shows "page_used (set_page p u d) q \<longleftrightarrow> (if q = p then u else page_used d q)"
proof -
  have "q = p \<longleftrightarrow> q div 8 = p div 8 \<and> q mod 8 = p mod 8"
    by (metis div_mult_mod_eq)
  then show ?thesis
    by (auto simp: page_used_def set_page_def of_nat_byte_inj assms bit_byte_set bit_byte_clear)
qed

lemma used_pages_set_page:
  "p < NPAGES \<Longrightarrow> used_pages (set_page p u d) = (if u then insert p (used_pages d) else used_pages d - {p})"
  by (auto simp: used_pages_def page_used_set_page split: if_splits)

lemma set_page_fields [simp]:
  "TotalMemory (set_page p u d) = TotalMemory d" "UsedMemory (set_page p u d) = UsedMemory d"
  by (simp_all add: set_page_def)

lemma page_used_update [simp]:
  "page_used (d\<lparr>UsedMemory := x\<rparr>) p = page_used d p"
  "used_pages (d\<lparr>UsedMemory := x\<rparr>) = used_pages d"
  by (simp_all add: page_used_def used_pages_def)

text \<open>Setting a clear bit and clearing it again restores the byte, and the other way round.\<close>

lemma set_page_undo:
  assumes "page_used d p = u"
  shows "set_page p u (set_page p (\<not> u) d) = d"
proof -
  let ?b = "PhysicalAllocation d (of_nat (p div 8))"
  have "(?b OR 2 ^ (p mod 8)) AND NOT (2 ^ (p mod 8)) = ?b" if "\<not> bit ?b (p mod 8)"
    using that by (intro bit_word_eqI) (auto simp: bit_simps)
  moreover have "(?b AND NOT (2 ^ (p mod 8))) OR 2 ^ (p mod 8) = ?b" if "bit ?b (p mod 8)"
    using that by (intro bit_word_eqI) (auto simp: bit_simps)
  ultimately show ?thesis
    using assms by (auto simp: set_page_def page_used_def)
qed

subsection \<open>Ranges of pages\<close>

lemma isPhysicalFree_from_iff:
  assumes "unat a div 4096 + unat n \<le> NPAGES" and "i \<le> n"
  shows "isPhysicalFree_from d a i n =
    Some ({unat a div 4096 + unat i ..< unat a div 4096 + unat n} \<inter> used_pages d = {})"
  using assms
proof (induction d a i n rule: isPhysicalFree_from.induct)
  case (1 d a i n)
  let ?p = "unat a div 4096"
  show ?case
  proof (cases "i < n")
    case True
    have "unat i < unat n" using True by (simp add: word_less_nat_alt)
    have page: "unat ((a + i * PAGE_SIZE) div PAGE_SIZE) = ?p + unat i"
      using page_of_offset [of a "unat i"] "1.prems" \<open>unat i < unat n\<close> by simp
    have is_used: "PHYSICAL_ALLOCATOR_IS_USED d (a + i * PAGE_SIZE) = Some (page_used d (?p + unat i))"
      using is_used_page [OF page] "1.prems" \<open>unat i < unat n\<close> by simp
    have split: "{?p + unat i ..< ?p + unat n} = insert (?p + unat i) {?p + Suc (unat i) ..< ?p + unat n}"
      using \<open>unat i < unat n\<close> by auto
    have mem: "?p + unat i \<in> used_pages d \<longleftrightarrow> page_used d (?p + unat i)"
      using "1.prems" \<open>unat i < unat n\<close> by (simp add: used_pages_def)
    have "isPhysicalFree_from d a (i + 1) n =
        Some ({?p + Suc (unat i) ..< ?p + unat n} \<inter> used_pages d = {})" if "\<not> page_used d (?p + unat i)"
      using "1.IH" [OF True is_used that "1.prems"(1)] True by (simp add: unat_Suc_less inc_le)
    then show ?thesis
      by (subst isPhysicalFree_from.simps) (auto simp: True is_used split mem)
  next
    case False
    then have "i = n" using "1.prems" by simp
    then show ?thesis by (subst isPhysicalFree_from.simps) simp
  qed
qed

lemma isPhysicalFree_iff:
  "unat a div 4096 + unat n \<le> NPAGES \<Longrightarrow>
   isPhysicalFree d a n = Some (pages_of a n \<inter> used_pages d = {})"
  using isPhysicalFree_from_iff [of a n 0 d] by (simp add: isPhysicalFree_def pages_of_def)


text \<open>
  Both loops over a range: every page of the range takes the given state, the counter moves by a
  page for each page that changes, and nothing else changes.
\<close>

definition range_set :: "nat \<Rightarrow> nat \<Rightarrow> bool \<Rightarrow> MemoryManagerData \<Rightarrow> MemoryManagerData \<Rightarrow> bool" where
  "range_set p k u d d' \<longleftrightarrow>
     TotalMemory d' = TotalMemory d \<and>
     (\<forall>i \<ge> ALLOCATION_BYTES. PhysicalAllocation d' i = PhysicalAllocation d i) \<and>
     used_pages d' = (if u then used_pages d \<union> {p ..< p + k} else used_pages d - {p ..< p + k}) \<and>
     UsedMemory d' = UsedMemory d + PAGE_SIZE * (of_nat (card (used_pages d')) - of_nat (card (used_pages d)))"

lemma finite_used_pages [simp]: "finite (used_pages d)"
  by (simp add: used_pages_def)

lemma set_page_outside:
  assumes "p < NPAGES" and "ALLOCATION_BYTES \<le> i"
  shows "PhysicalAllocation (set_page p u d) i = PhysicalAllocation d i"
proof -
  have "unat (of_nat (p div 8) :: u32) = p div 8"
    using assms(1) unat_of_nat_le [of "p div 8" "131071 :: u32"] by simp
  moreover have "131071 \<le> unat i"
    using assms(2) by (simp add: ALLOCATION_BYTES_eq word_le_nat_alt)
  ultimately have "i \<noteq> of_nat (p div 8)"
    using assms(1) by auto
  then show ?thesis by (simp add: set_page_def)
qed

lemma of_nat_card_remove:
  "finite A \<Longrightarrow> x \<in> A \<Longrightarrow> (of_nat (card (A - {x})) :: 'a::ring_1) = of_nat (card A) - 1"
  by (metis add_diff_cancel_left' card_Suc_Diff1 of_nat_Suc)

lemma range_set_step:
  assumes range: "range_set p k u d d'" and p: "p + k < NPAGES"
  shows "range_set p (Suc k) u d
    (if page_used d' (p + k) = u then d'
     else set_page (p + k) u (d'\<lparr>UsedMemory := if u then UsedMemory d' + PAGE_SIZE else UsedMemory d' - PAGE_SIZE\<rparr>))"
proof -
  let ?U = "used_pages d" and ?V = "used_pages d'"
  have mem: "page_used d' (p + k) \<longleftrightarrow> p + k \<in> ?V"
    using p by (simp add: used_pages_def)
  have split: "{p ..< p + Suc k} = insert (p + k) {p ..< p + k}" by auto
  have V: "?V = (if u then ?U \<union> {p ..< p + k} else ?U - {p ..< p + k})"
    and used: "UsedMemory d' = UsedMemory d + PAGE_SIZE * (of_nat (card ?V) - of_nat (card ?U))"
    using range unfolding range_set_def by blast+
  have V': "(if u then insert (p + k) ?V else ?V - {p + k}) =
      (if u then ?U \<union> {p ..< p + Suc k} else ?U - {p ..< p + Suc k})"
    unfolding V split by auto
  show ?thesis
  proof (cases "page_used d' (p + k) = u")
    case True
    then have "(if u then insert (p + k) ?V else ?V - {p + k}) = ?V"
      unfolding mem by auto
    with True V' used range show ?thesis by (simp add: range_set_def)
  next
    case False
    then have cnt: "(of_nat (card (if u then insert (p + k) ?V else ?V - {p + k})) :: u32) =
        (if u then of_nat (card ?V) + 1 else of_nat (card ?V) - 1)"
      unfolding mem by (cases u) (simp_all add: of_nat_card_remove del: card_Diff_insert)
    define e where "e = set_page (p + k) u
      (d'\<lparr>UsedMemory := if u then UsedMemory d' + PAGE_SIZE else UsedMemory d' - PAGE_SIZE\<rparr>)"
    have e: "used_pages e = (if u then insert (p + k) ?V else ?V - {p + k})"
      "UsedMemory e = (if u then UsedMemory d' + PAGE_SIZE else UsedMemory d' - PAGE_SIZE)"
      using p by (simp_all add: e_def used_pages_set_page)
    then have "UsedMemory e = UsedMemory d + PAGE_SIZE * (of_nat (card (used_pages e)) - of_nat (card ?U))"
      unfolding e cnt used by (cases u) (simp_all add: algebra_simps)
    moreover have "TotalMemory e = TotalMemory d"
      using range by (simp add: range_set_def e_def)
    moreover have "\<forall>i \<ge> ALLOCATION_BYTES. PhysicalAllocation e i = PhysicalAllocation d i"
      using range p by (auto simp: range_set_def e_def set_page_outside)
    ultimately have "range_set p (Suc k) u d e"
      using e(1) V' unfolding range_set_def by simp
    with False show ?thesis unfolding e_def by simp
  qed
qed

lemma physicalAllocateAt_range:
  assumes "unat a div 4096 + unat n \<le> NPAGES"
  shows "\<exists>d'. physicalAllocateAt a n d = Some d' \<and> range_set (unat a div 4096) (unat n) True d d'"
  unfolding physicalAllocateAt_def
proof (rule for_rangeM_inv [where P = "\<lambda>k. range_set (unat a div 4096) k True d"])
  show "range_set (unat a div 4096) 0 True d d" by (simp add: range_set_def)
next
  fix k s assume k: "k < unat n" and range: "range_set (unat a div 4096) k True d s"
  have page: "unat ((a + of_nat k * PAGE_SIZE) div PAGE_SIZE) = unat a div 4096 + k"
    using page_of_offset [of a k] assms k by simp
  have p: "unat a div 4096 + k < NPAGES" using assms k by simp
  show "\<exists>s'. (do {
       let address = a + of_nat k * PAGE_SIZE;
       used \<leftarrow> PHYSICAL_ALLOCATOR_IS_USED s address;
       if \<not> used then PHYSICAL_ALLOCATOR_SET address (s\<lparr>UsedMemory := UsedMemory s + PAGE_SIZE\<rparr>)
       else Some s
     }) = Some s' \<and> range_set (unat a div 4096) (Suc k) True d s'"
    using range_set_step [OF range p]
    by (auto simp: Let_def is_used_page [OF page] p set_macros [OF page p] split: if_splits)
qed

lemma physicalFree_range:
  assumes "unat a div 4096 + unat n \<le> NPAGES"
  shows "\<exists>d'. physicalFree a n d = Some d' \<and> range_set (unat a div 4096) (unat n) False d d'"
  unfolding physicalFree_def
proof (rule for_rangeM_inv [where P = "\<lambda>k. range_set (unat a div 4096) k False d"])
  show "range_set (unat a div 4096) 0 False d d" by (simp add: range_set_def)
next
  fix k s assume k: "k < unat n" and range: "range_set (unat a div 4096) k False d s"
  have page: "unat ((a + of_nat k * PAGE_SIZE) div PAGE_SIZE) = unat a div 4096 + k"
    using page_of_offset [of a k] assms k by simp
  have p: "unat a div 4096 + k < NPAGES" using assms k by simp
  show "\<exists>s'. (do {
       let address = a + of_nat k * PAGE_SIZE;
       used \<leftarrow> PHYSICAL_ALLOCATOR_IS_USED s address;
       if used then PHYSICAL_ALLOCATOR_CLEAR address (s\<lparr>UsedMemory := UsedMemory s - PAGE_SIZE\<rparr>)
       else Some s
     }) = Some s' \<and> range_set (unat a div 4096) (Suc k) False d s'"
    using range_set_step [OF range p]
    by (auto simp: Let_def is_used_page [OF page] p set_macros [OF page p] split: if_splits)
qed


subsection \<open>First fit\<close>

lemma unat_total_pages: "unat (t div PAGE_SIZE) = unat t div 4096"
  by (simp add: unat_div)

lemma page_address:
  assumes "p < unat (t div PAGE_SIZE :: u32)"
  shows "unat (of_nat p * PAGE_SIZE :: u32) = p * 4096"
proof -
  have "unat t < 4294967296" using unsigned_less [of t, where ?'a = nat] by simp
  then have "p < 1048576" using assms by (simp add: unat_div)
  then show ?thesis by (simp add: unat_word_ariths unat_of_nat take_bit_nat_eq_self)
qed

text \<open>
  The search from page \<open>i\<close> on: either a first fit is found and its pages are taken, or there is
  none and the state is unchanged. The search looks at up to \<open>n\<close> pages past the last page of
  memory, which must be in the bitmap.
\<close>

lemma physicalAllocate_from_spec:
  assumes "unat (TotalMemory d div PAGE_SIZE) + unat n \<le> NPAGES"
    and "i \<le> TotalMemory d div PAGE_SIZE"
    and "\<forall>q < unat i. {q ..< q + unat n} \<inter> used_pages d \<noteq> {}"
  shows "(\<exists>p d'. first_fit (used_pages d) (unat (TotalMemory d div PAGE_SIZE)) (unat n) p \<and>
             physicalAllocate_from i n d = Some (of_nat p * PAGE_SIZE, d') \<and>
             range_set p (unat n) True d d') \<or>
         ((\<forall>q < unat (TotalMemory d div PAGE_SIZE). {q ..< q + unat n} \<inter> used_pages d \<noteq> {}) \<and>
          physicalAllocate_from i n d = Some (0, d))"
  using assms
proof (induction i n d rule: physicalAllocate_from.induct)
  case (1 i n d)
  let ?T = "TotalMemory d div PAGE_SIZE"
  show ?case
  proof (cases "i < ?T")
    case True
    then have i: "unat i < unat ?T" by (simp add: word_less_nat_alt)
    then have start: "unat (i * PAGE_SIZE) div 4096 = unat i"
      using page_address [of "unat i" "TotalMemory d"] by simp
    then have range: "unat (i * PAGE_SIZE) div 4096 + unat n \<le> NPAGES"
      using i "1.prems"(1) by simp
    have free: "isPhysicalFree d (i * PAGE_SIZE) n = Some ({unat i ..< unat i + unat n} \<inter> used_pages d = {})"
      using isPhysicalFree_iff [OF range, of d] by (simp add: pages_of_def start)
    show ?thesis
    proof (cases "{unat i ..< unat i + unat n} \<inter> used_pages d = {}")
      case fit: True
      obtain d' where d': "physicalAllocateAt (i * PAGE_SIZE) n d = Some d'"
          "range_set (unat i) (unat n) True d d'"
        using physicalAllocateAt_range [OF range, of d] by (auto simp: start)
      have "first_fit (used_pages d) (unat ?T) (unat n) (unat i)"
        using fit i "1.prems"(3) by (simp add: first_fit_def)
      moreover have "physicalAllocate_from i n d = Some (of_nat (unat i) * PAGE_SIZE, d')"
        using True fit by (subst physicalAllocate_from.simps) (simp add: free d'(1))
      ultimately show ?thesis using d'(2) by blast
    next
      case False
      have "physicalAllocate_from i n d = physicalAllocate_from (i + 1) n d"
        using True False by (subst physicalAllocate_from.simps) (simp add: free)
      moreover have "\<forall>q < unat (i + 1). {q ..< q + unat n} \<inter> used_pages d \<noteq> {}"
        using False "1.prems"(3) True by (auto simp: unat_Suc_less less_Suc_eq)
      ultimately show ?thesis
        using "1.IH" [OF True free] False "1.prems"(1) True by (simp add: inc_le)
    qed
  next
    case False
    then have "physicalAllocate_from i n d = Some (0, d)"
      by (subst physicalAllocate_from.simps) simp
    moreover have "i = ?T" using False "1.prems"(2) by simp
    ultimately show ?thesis using "1.prems"(3) by blast
  qed
qed

lemmas physicalAllocate_spec = physicalAllocate_from_spec [of d n 0, folded physicalAllocate_def] for d n


subsection \<open>The allocator as a page pool\<close>

text \<open>
  What the virtual memory manager relies on. \<open>alloc\<close> returns the address of fresh pages, or 0
  and no change; \<open>release\<close> gives pages back. Address 0 means failure, so page 0 must never be
  handed out: it is in use in every state the clients work in.
\<close>

locale page_pool =
  fixes alloc :: "u32 \<Rightarrow> 's \<Rightarrow> (u32 \<times> 's) option"
    and release :: "u32 \<Rightarrow> u32 \<Rightarrow> 's \<Rightarrow> 's option"
    and used :: "'s \<Rightarrow> nat set"
    and ok :: "'s \<Rightarrow> bool"
    and fits :: "u32 \<Rightarrow> 's \<Rightarrow> bool"
  assumes alloc_total: "ok s \<Longrightarrow> fits n s \<Longrightarrow> 0 < n \<Longrightarrow> \<exists>a s'. alloc n s = Some (a, s')"
    and alloc_fresh: "ok s \<Longrightarrow> fits n s \<Longrightarrow> 0 < n \<Longrightarrow> alloc n s = Some (a, s') \<Longrightarrow> a \<noteq> 0 \<Longrightarrow>
      pages_of a n \<inter> used s = {} \<and> used s' = used s \<union> pages_of a n \<and> ok s' \<and> fits n' s' = fits n' s"
    and alloc_fails: "ok s \<Longrightarrow> fits n s \<Longrightarrow> 0 < n \<Longrightarrow> alloc n s = Some (0, s') \<Longrightarrow> s' = s"
    and release_used: "ok s \<Longrightarrow> fits n s \<Longrightarrow> 0 < n \<Longrightarrow> alloc n s = Some (a, s') \<Longrightarrow> a \<noteq> 0 \<Longrightarrow>
      release a n s' = Some s"
begin

text \<open>A sequence of requests; the blocks that were granted, newest first.\<close>

fun alloc_all :: "u32 list \<Rightarrow> 's \<Rightarrow> ((u32 \<times> u32) list \<times> 's) option" where
  "alloc_all [] s = Some ([], s)"
| "alloc_all (n # ns) s =
     (case alloc n s of None \<Rightarrow> None
      | Some (a, s1) \<Rightarrow> map_option (\<lambda>(bs, s'). (if a = 0 then bs else bs @ [(a, n)], s')) (alloc_all ns s1))"

fun release_all :: "(u32 \<times> u32) list \<Rightarrow> 's \<Rightarrow> 's option" where
  "release_all [] s = Some s"
| "release_all ((a, n) # bs) s = (case release a n s of None \<Rightarrow> None | Some s1 \<Rightarrow> release_all bs s1)"

lemma release_all_append:
  "release_all (bs @ cs) s = (case release_all bs s of None \<Rightarrow> None | Some s1 \<Rightarrow> release_all cs s1)"
  by (induction bs s rule: release_all.induct) (auto split: option.splits)

definition block_pages :: "(u32 \<times> u32) list \<Rightarrow> nat set" where
  "block_pages bs = (\<Union>(a, n) \<in> set bs. pages_of a n)"

lemma alloc_all_spec:
  assumes "ok s" and "\<forall>n \<in> set ns. 0 < n \<and> fits n s"
  shows "\<exists>bs s'. alloc_all ns s = Some (bs, s') \<and> ok s' \<and>
    block_pages bs \<inter> used s = {} \<and> used s' = used s \<union> block_pages bs \<and>
    sorted_wrt (\<lambda>(a, n) (b, m). pages_of a n \<inter> pages_of b m = {}) bs \<and>
    release_all bs s' = Some s"
  using assms
proof (induction ns arbitrary: s)
  case Nil
  then show ?case by (simp add: block_pages_def)
next
  case (Cons n ns)
  then have n: "0 < n" "fits n s" by auto
  obtain a s1 where a: "alloc n s = Some (a, s1)"
    using alloc_total [OF Cons.prems(1) n(2,1)] by blast
  show ?case
  proof (cases "a = 0")
    case True
    then have "s1 = s" using alloc_fails [OF Cons.prems(1) n(2,1)] a by simp
    then show ?thesis using Cons.IH [of s] Cons.prems a True by fastforce
  next
    case False
    note fresh = alloc_fresh [OF Cons.prems(1) n(2,1) a False]
    have "\<forall>m \<in> set ns. 0 < m \<and> fits m s1"
      using Cons.prems(2) fresh by auto
    then obtain bs s' where bs: "alloc_all ns s1 = Some (bs, s')" "ok s'"
        "block_pages bs \<inter> used s1 = {}" "used s' = used s1 \<union> block_pages bs"
        "sorted_wrt (\<lambda>(a, n) (b, m). pages_of a n \<inter> pages_of b m = {}) bs"
        "release_all bs s' = Some s1"
      using Cons.IH [of s1] fresh by blast
    have used1: "used s1 = used s \<union> pages_of a n" using fresh by blast
    have pages: "block_pages (bs @ [(a, n)]) = block_pages bs \<union> pages_of a n"
      by (auto simp: block_pages_def)
    have apart: "pages_of b m \<inter> pages_of a n = {}" if "(b, m) \<in> set bs" for b m
      using that bs(3) unfolding block_pages_def used1 by blast
    have "sorted_wrt (\<lambda>(a, n) (b, m). pages_of a n \<inter> pages_of b m = {}) (bs @ [(a, n)])"
      using bs(5) apart by (auto simp: sorted_wrt_append)
    moreover have "release_all (bs @ [(a, n)]) s' = Some s"
      using bs(6) release_used [OF Cons.prems(1) n(2,1) a False] by (simp add: release_all_append)
    moreover have "block_pages (bs @ [(a, n)]) \<inter> used s = {}"
      using bs(3) fresh unfolding pages used1 by blast
    moreover have "used s' = used s \<union> block_pages (bs @ [(a, n)])"
      using bs(4) unfolding pages used1 by blast
    ultimately show ?thesis using a bs(1,2) False by simp
  qed
qed

end

subsection \<open>Freeing what was allocated\<close>

lemma page_used_byte:
  assumes "i < ALLOCATION_BYTES" and "n < 8"
  shows "bit (PhysicalAllocation d i) n \<longleftrightarrow> unat i * 8 + n \<in> used_pages d"
proof -
  have "unat i < 131071" using assms(1) by (simp add: ALLOCATION_BYTES_eq word_less_nat_alt)
  then have "unat i * 8 + n < NPAGES" using assms(2) by linarith
  moreover have "(unat i * 8 + n) div 8 = unat i" "(unat i * 8 + n) mod 8 = n"
    using assms(2) by simp_all
  ultimately show ?thesis by (simp add: used_pages_def page_used_def)
qed

lemma MemoryManagerData_eqI:
  fixes d d' :: MemoryManagerData
  assumes "TotalMemory d = TotalMemory d'" "UsedMemory d = UsedMemory d'" "used_pages d = used_pages d'"
    and "\<And>i. ALLOCATION_BYTES \<le> i \<Longrightarrow> PhysicalAllocation d i = PhysicalAllocation d' i"
  shows "d = d'"
proof -
  have "PhysicalAllocation d i = PhysicalAllocation d' i" for i
  proof (cases "i < ALLOCATION_BYTES")
    case True
    then show ?thesis
      by (intro bit_word_eqI) (simp add: page_used_byte assms(3))
  qed (simp add: assms(4))
  then show ?thesis
    using assms(1,2) by (simp add: MemoryManagerData.equality fun_eq_iff)
qed

lemma free_undoes_take:
  assumes fit: "{p ..< p + unat n} \<inter> used_pages d = {}" and p: "p + unat n \<le> NPAGES"
    and taken: "range_set p (unat n) True d d'"
  shows "physicalFree (of_nat p * PAGE_SIZE) n d' = Some d"
proof -
  have "unat (of_nat p * PAGE_SIZE :: u32) div 4096 = p"
    using p page_of_offset [of 0 p] by (cases "p = 1048568") (auto simp: unat_div)
  with p obtain d2 where d2: "physicalFree (of_nat p * PAGE_SIZE) n d' = Some d2"
      "range_set p (unat n) False d' d2"
    using physicalFree_range [of "of_nat p * PAGE_SIZE" n d'] by auto
  have "used_pages d2 = used_pages d"
    using d2(2) taken fit unfolding range_set_def by auto
  then have "d2 = d"
    using d2(2) taken by (intro MemoryManagerData_eqI) (auto simp: range_set_def)
  with d2 show ?thesis by simp
qed

lemma phys_alloc_cases:
  assumes T: "unat (TotalMemory d div PAGE_SIZE) + unat n \<le> NPAGES" and alloc: "physicalAllocate n d = Some (a, d')"
  obtains p where "first_fit (used_pages d) (unat (TotalMemory d div PAGE_SIZE)) (unat n) p"
      "a = of_nat p * PAGE_SIZE" "unat a = p * 4096" "p + unat n \<le> NPAGES" "range_set p (unat n) True d d'"
    | "a = 0" "d' = d" "\<forall>q < unat (TotalMemory d div PAGE_SIZE). {q ..< q + unat n} \<inter> used_pages d \<noteq> {}"
proof -
  from physicalAllocate_spec [OF T] alloc
  consider p where "first_fit (used_pages d) (unat (TotalMemory d div PAGE_SIZE)) (unat n) p"
      "a = of_nat p * PAGE_SIZE" "range_set p (unat n) True d d'"
    | "a = 0" "d' = d" "\<forall>q < unat (TotalMemory d div PAGE_SIZE). {q ..< q + unat n} \<inter> used_pages d \<noteq> {}"
    by auto
  then show ?thesis
    by cases (use that T in \<open>auto simp: first_fit_def page_address\<close>)
qed

lemma first_fit_not_0:
  assumes "first_fit (used_pages d) t (unat n) p" and "0 \<in> used_pages d" and "0 < n"
  shows "p \<noteq> 0"
proof
  assume "p = 0"
  then have "0 \<in> {p ..< p + unat n} \<inter> used_pages d"
    using assms(2,3) by (simp add: word_less_nat_alt)
  then show False using assms(1) by (auto simp: first_fit_def)
qed

interpretation phys: page_pool physicalAllocate physicalFree used_pages
  "\<lambda>d. 0 \<in> used_pages d" "\<lambda>n d. unat (TotalMemory d div PAGE_SIZE) + unat n \<le> 1048568"
proof
  fix n :: u32 and d d' :: MemoryManagerData and a n'
  assume T: "unat (TotalMemory d div PAGE_SIZE) + unat n \<le> 1048568" and zero: "0 \<in> used_pages d" and n: "0 < n"
  show "\<exists>a s'. physicalAllocate n d = Some (a, s')"
    using physicalAllocate_spec [OF T] by auto
  assume alloc: "physicalAllocate n d = Some (a, d')"
  show "pages_of a n \<inter> used_pages d = {} \<and> used_pages d' = used_pages d \<union> pages_of a n \<and> 0 \<in> used_pages d' \<and>
      (unat (TotalMemory d' div PAGE_SIZE) + unat n' \<le> 1048568) = (unat (TotalMemory d div PAGE_SIZE) + unat n' \<le> 1048568)"
    if "a \<noteq> 0"
    using T alloc
  proof (cases rule: phys_alloc_cases)
    case (1 p)
    then show ?thesis
      using zero by (auto simp: pages_of_def first_fit_def range_set_def)
  qed (use that in simp)
  show "physicalFree a n d' = Some d" if "a \<noteq> 0"
    using T alloc
  proof (cases rule: phys_alloc_cases)
    case (1 p)
    then show ?thesis using free_undoes_take [of p n d d'] by (simp add: first_fit_def)
  qed (use that in simp)
next
  fix n :: u32 and d d' :: MemoryManagerData
  assume T: "unat (TotalMemory d div PAGE_SIZE) + unat n \<le> 1048568" and zero: "0 \<in> used_pages d" and n: "0 < n"
    and alloc: "physicalAllocate n d = Some (0, d')"
  show "d' = d"
    using T alloc
  proof (cases rule: phys_alloc_cases)
    case (1 p)
    then show ?thesis using first_fit_not_0 [of d _ n p] zero n by simp
  qed
qed


section \<open>Properties\<close>

text \<open>
  Property C2: the search of the physical allocator is first fit and complete. If some run of
  \<open>numPages\<close> free pages starts below the end of memory, the call returns the address of the lowest
  such run, exactly its pages become used and \<open>UsedMemory\<close> grows by their size; otherwise it
  returns 0 and changes nothing. The hypothesis keeps the search inside the bitmap.
\<close>

theorem physicalAllocate_first_fit:
  assumes "unat (TotalMemory d div PAGE_SIZE) + unat n \<le> 1048568"
  shows "if \<exists>p. first_fit (used_pages d) (unat (TotalMemory d div PAGE_SIZE)) (unat n) p
    then \<exists>p d'. first_fit (used_pages d) (unat (TotalMemory d div PAGE_SIZE)) (unat n) p \<and>
           physicalAllocate n d = Some (of_nat p * PAGE_SIZE, d') \<and>
           used_pages d' = used_pages d \<union> {p ..< p + unat n} \<and>
           UsedMemory d' = UsedMemory d + PAGE_SIZE * n \<and> TotalMemory d' = TotalMemory d
    else physicalAllocate n d = Some (0, d)"
proof -
  have grown: "UsedMemory d' = UsedMemory d + PAGE_SIZE * n"
    if "first_fit (used_pages d) t (unat n) p" "range_set p (unat n) True d d'" for t p d'
  proof -
    have "card (used_pages d') = card (used_pages d) + unat n"
      using that card_Un_disjoint [of "used_pages d" "{p ..< p + unat n}"]
      by (simp add: range_set_def first_fit_def Int_commute)
    then show ?thesis using that(2) by (simp add: range_set_def)
  qed
  have "(\<exists>p d'. first_fit (used_pages d) (unat (TotalMemory d div PAGE_SIZE)) (unat n) p \<and>
             physicalAllocate n d = Some (of_nat p * PAGE_SIZE, d') \<and> range_set p (unat n) True d d') \<or>
         ((\<forall>q < unat (TotalMemory d div PAGE_SIZE). {q ..< q + unat n} \<inter> used_pages d \<noteq> {}) \<and>
          physicalAllocate n d = Some (0, d))"
    using physicalAllocate_spec [OF assms] by simp
  then show ?thesis
  proof (elim disjE exE conjE)
    fix p d'
    assume p: "first_fit (used_pages d) (unat (TotalMemory d div PAGE_SIZE)) (unat n) p"
      "physicalAllocate n d = Some (of_nat p * PAGE_SIZE, d')" "range_set p (unat n) True d d'"
    from p(3) have "used_pages d' = used_pages d \<union> {p ..< p + unat n}" "TotalMemory d' = TotalMemory d"
      by (simp_all add: range_set_def)
    with p grown [OF p(1,3)] show ?thesis by auto
  next
    assume "\<forall>q < unat (TotalMemory d div PAGE_SIZE). {q ..< q + unat n} \<inter> used_pages d \<noteq> {}"
      and none: "physicalAllocate n d = Some (0, d)"
    then have "\<nexists>p. first_fit (used_pages d) (unat (TotalMemory d div PAGE_SIZE)) (unat n) p"
      unfolding first_fit_def by blast
    with none show ?thesis by simp
  qed
qed

text \<open>A machine of 8 pages whose pages 0, 2 and 3 are in use.\<close>

definition small_machine :: MemoryManagerData where
  "small_machine = \<lparr>TotalMemory = 0x8000, UsedMemory = 0x3000,
     PhysicalAllocation = (\<lambda>i. if i = 0 then 0x0D else 0xFF)\<rparr>"

theorem physicalAllocate_first_fit_witness:
  "if \<exists>p. first_fit (used_pages small_machine) (unat (TotalMemory small_machine div PAGE_SIZE)) (unat (2 :: u32)) p
    then \<exists>p d'. first_fit (used_pages small_machine) (unat (TotalMemory small_machine div PAGE_SIZE)) (unat (2 :: u32)) p \<and>
           physicalAllocate 2 small_machine = Some (of_nat p * PAGE_SIZE, d') \<and>
           used_pages d' = used_pages small_machine \<union> {p ..< p + unat (2 :: u32)} \<and>
           UsedMemory d' = UsedMemory small_machine + PAGE_SIZE * 2 \<and> TotalMemory d' = TotalMemory small_machine
    else physicalAllocate 2 small_machine = Some (0, small_machine)"
  by (rule physicalAllocate_first_fit) (simp add: small_machine_def)

text \<open>
  Property C6: blocks handed out by a sequence of allocations are pairwise disjoint and disjoint
  from everything in use before, the pages in use afterwards are exactly those plus the blocks,
  and freeing the blocks in the reverse order restores the allocator's state exactly. Page 0 is in
  use throughout, since address 0 means failure.
\<close>

theorem physical_blocks_disjoint:
  assumes "0 \<in> used_pages d" and "\<forall>n \<in> set ns. 0 < n \<and> unat (TotalMemory d div PAGE_SIZE) + unat n \<le> 1048568"
  shows "\<exists>bs d'. page_pool.alloc_all physicalAllocate ns d = Some (bs, d') \<and>
    (\<Union>(a, n) \<in> set bs. pages_of a n) \<inter> used_pages d = {} \<and>
    used_pages d' = used_pages d \<union> (\<Union>(a, n) \<in> set bs. pages_of a n) \<and>
    sorted_wrt (\<lambda>(a, n) (b, m). pages_of a n \<inter> pages_of b m = {}) bs \<and>
    page_pool.release_all physicalFree bs d' = Some d"
  using phys.alloc_all_spec [OF assms] unfolding phys.block_pages_def by blast

theorem physical_blocks_disjoint_witness:
  "\<exists>bs d'. page_pool.alloc_all physicalAllocate [1, 2] small_machine = Some (bs, d') \<and>
    (\<Union>(a, n) \<in> set bs. pages_of a n) \<inter> used_pages small_machine = {} \<and>
    used_pages d' = used_pages small_machine \<union> (\<Union>(a, n) \<in> set bs. pages_of a n) \<and>
    sorted_wrt (\<lambda>(a, n) (b, m). pages_of a n \<inter> pages_of b m = {}) bs \<and>
    page_pool.release_all physicalFree bs d' = Some small_machine"
  by (rule physical_blocks_disjoint)
    (simp_all add: small_machine_def used_pages_def page_used_def)

text \<open>
  The bitmap has no bits for the last eight pages of the address space. Looking at,
  taking or freeing a page from \<open>0xFFFF8000\<close> on reads a byte past the end of the bitmap.
\<close>

theorem last_pages_outside_bitmap:
  assumes "0xFFFF8000 \<le> a"
  shows "isPhysicalFree d a 1 = None \<and> physicalAllocateAt a 1 d = None \<and> physicalFree a 1 d = None"
proof -
  have "unat (a div PAGE_SIZE) \<ge> NPAGES"
    using assms by (simp add: unat_div word_le_nat_alt)
  then have "PHYSICAL_ALLOCATOR_IS_USED d a = None"
    using is_used_page [OF refl, of d a] by simp
  then show ?thesis
    by (simp add: isPhysicalFree_def isPhysicalFree_from.simps [of d a 0] physicalAllocateAt_def
        physicalFree_def for_rangeM.simps [of 0 1])
qed

theorem last_pages_outside_bitmap_witness:
  "isPhysicalFree small_machine 0xFFFFF000 1 = None \<and> physicalAllocateAt 0xFFFFF000 1 small_machine = None \<and>
   physicalFree 0xFFFFF000 1 small_machine = None"
  by (rule last_pages_outside_bitmap) simp

end
