(* ===== verification/Virtual.thy ===== *)
theory Virtual
  imports Physical Scheduler
begin

text \<open>
  Paging: \<open>Kernel/MemoryManager/Paging.h\<close>, \<open>VirtualMemoryManager.cpp\<close> and
  \<open>MemoryManager.cpp\<close>, with the control-register routines of \<open>Arch/i386/Paging.S\<close>.

  The state is the physical memory, the physical allocator's data, the registers CR3 and CR0.PG
  and the interrupt flag. The kernel addresses page tables by pointers, which the processor
  translates through the current page directory once paging is on; \<open>xlate\<close> is that translation and
  every access of the model goes through it. A page fault is \<open>None\<close>. The addresses that the
  linker chooses are the fields of \<open>layout\<close>. Diagnostics printed on failure are not part of the
  state.
\<close>

section \<open>Definitions\<close>

subsection \<open>The machine\<close>

record layout =
  kernelPageDirectory :: addr
  kernelPageTable :: addr
  start_symbol :: addr
  kernel_end :: addr

record machine =
  ram :: memory
  memManData :: MemoryManagerData
  cr3_reg :: u32
  paging :: bool
  interrupts :: bool

definition enablePaging :: "machine \<Rightarrow> machine" where
  "enablePaging s = s\<lparr>paging := True\<rparr>"

definition changePageDirectory :: "u32 \<Rightarrow> machine \<Rightarrow> machine" where
  "changePageDirectory directory s = s\<lparr>cr3_reg := directory\<rparr>"

definition flushCurrentPageDirectory :: "machine \<Rightarrow> machine" where
  "flushCurrentPageDirectory s = changePageDirectory (cr3_reg s) s"

definition atomicEnable :: "machine \<Rightarrow> machine" where
  "atomicEnable s = s\<lparr>interrupts := False\<rparr>"

definition atomicDisable :: "machine \<Rightarrow> machine" where
  "atomicDisable s = s\<lparr>interrupts := True\<rparr>"

subsection \<open>Page entries\<close>

text \<open>
  Entries of page tables and page directories have the same layout in the fields the code uses:
  present (bit 0), write (bit 1), user (bit 2) and the page frame number (bits 12 to 31).
\<close>

definition entry_present :: "u32 \<Rightarrow> bool" where
  "entry_present e = bit e 0"

definition entry_frame :: "u32 \<Rightarrow> u32" where
  "entry_frame e = drop_bit 12 e"

definition set_entry :: "u32 \<Rightarrow> bool \<Rightarrow> u32 \<Rightarrow> u32" where
  "set_entry e user frame =
     (e AND 0xFF8) OR 3 OR (if user then 4 else 0) OR push_bit 12 frame"

definition PAGE_DIR_INDEX :: "u32 \<Rightarrow> u32" where
  "PAGE_DIR_INDEX vaddress = drop_bit 22 vaddress"

definition PAGE_TABLE_INDEX :: "u32 \<Rightarrow> u32" where
  "PAGE_TABLE_INDEX vaddress = drop_bit 12 vaddress AND 0x03ff"

definition PAGE_ALIGN :: "u32 \<Rightarrow> u32" where
  "PAGE_ALIGN sz = sz + PAGE_SIZE - sz mod PAGE_SIZE"

text \<open>The processor's translation of a linear address.\<close>

definition xlate :: "machine \<Rightarrow> addr \<Rightarrow> addr option" where
  "xlate s va =
     (if paging s then
        let pde = load32 (ram s) (push_bit 12 (entry_frame (cr3_reg s)) + 4 * PAGE_DIR_INDEX va)
        in if entry_present pde then
             let pte = load32 (ram s) (push_bit 12 (entry_frame pde) + 4 * PAGE_TABLE_INDEX va)
             in if entry_present pte then Some (push_bit 12 (entry_frame pte) OR (va AND 0xFFF)) else None
           else None
      else Some va)"

definition vload32 :: "machine \<Rightarrow> addr \<Rightarrow> u32 option" where
  "vload32 s va = map_option (load32 (ram s)) (xlate s va)"

definition vstore32 :: "addr \<Rightarrow> u32 \<Rightarrow> machine \<Rightarrow> machine option" where
  "vstore32 va w s = map_option (\<lambda>pa. s\<lparr>ram := store32 (ram s) pa w\<rparr>) (xlate s va)"

definition vstore8 :: "addr \<Rightarrow> u8 \<Rightarrow> machine \<Rightarrow> machine option" where
  "vstore8 va b s = map_option (\<lambda>pa. s\<lparr>ram := (ram s)(pa := b)\<rparr>) (xlate s va)"

text \<open>\<open>Libk::memset\<close> at a linear address.\<close>

definition vmemset :: "addr \<Rightarrow> u8 \<Rightarrow> u32 \<Rightarrow> machine \<Rightarrow> machine option" where
  "vmemset va b sz s = for_rangeM 0 sz (\<lambda>i. vstore8 (va + i) b) s"

subsection \<open>Page tables\<close>

definition GetPageDirectoryEntry :: "addr \<Rightarrow> addr \<Rightarrow> addr" where
  "GetPageDirectoryEntry pageDirectory virtualAddress =
     pageDirectory + 4 * PAGE_DIR_INDEX virtualAddress"

definition GetPageTable :: "machine \<Rightarrow> addr \<Rightarrow> addr \<Rightarrow> addr option" where
  "GetPageTable s pageDirectory virtualAddress =
     map_option (\<lambda>e. entry_frame e * PAGE_SIZE)
       (vload32 s (GetPageDirectoryEntry pageDirectory virtualAddress))"

definition GetPageTableEntry :: "machine \<Rightarrow> addr \<Rightarrow> addr \<Rightarrow> addr option" where
  "GetPageTableEntry s pageDirectory virtualAddress =
     map_option (\<lambda>t. t + 4 * PAGE_TABLE_INDEX virtualAddress) (GetPageTable s pageDirectory virtualAddress)"

text \<open>
  \<open>VirtualMap\<close> and \<open>identityMap\<close> call each other when a page table is missing: the new table has
  to be mapped as well, which may miss a table again. The depth of the calls is the fuel.
\<close>

fun VirtualMap :: "nat \<Rightarrow> addr \<Rightarrow> addr \<Rightarrow> addr \<Rightarrow> u32 \<Rightarrow> bool \<Rightarrow> machine \<Rightarrow> machine option"
  and identityMap :: "nat \<Rightarrow> addr \<Rightarrow> addr \<Rightarrow> u32 \<Rightarrow> machine \<Rightarrow> machine option" where
  "VirtualMap 0 pageDirectory virtualAddress0 physicalAddress0 numPages isUser s0 = None"
| "VirtualMap (Suc fuel) pageDirectory virtualAddress0 physicalAddress0 numPages isUser s0 =
     map_option (\<lambda>(virtualAddress, physicalAddress, s). flushCurrentPageDirectory s)
       (for_rangeM 0 numPages (\<lambda>pageIndex (virtualAddress, physicalAddress, s). do {
          let pageDirectoryEntry = GetPageDirectoryEntry pageDirectory virtualAddress;
          pde \<leftarrow> vload32 s pageDirectoryEntry;
          s1 \<leftarrow> (if \<not> entry_present pde then do {
                 (pageTablePhysicalAddress, d) \<leftarrow> physicalAllocate 1 (memManData s);
                 s' \<leftarrow> identityMap fuel pageDirectory pageTablePhysicalAddress 0 (s\<lparr>memManData := d\<rparr>);
                 e \<leftarrow> vload32 s' pageDirectoryEntry;
                 vstore32 pageDirectoryEntry (set_entry e isUser (drop_bit 12 pageTablePhysicalAddress)) s'
               } else Some s);
          pageTableEntry \<leftarrow> GetPageTableEntry s1 pageDirectory virtualAddress;
          e \<leftarrow> vload32 s1 pageTableEntry;
          s2 \<leftarrow> vstore32 pageTableEntry (set_entry e isUser (drop_bit 12 physicalAddress)) s1;
          Some (virtualAddress + PAGE_SIZE, physicalAddress + PAGE_SIZE, s2)
        }) (virtualAddress0, physicalAddress0, s0))"
| "identityMap 0 pageDirectory address sz s = None"
| "identityMap (Suc fuel) pageDirectory address sz s =
     (let page_count = PAGE_ALIGN sz div PAGE_SIZE; s1 = atomicEnable s
      in do {
        d \<leftarrow> physicalAllocateAt address page_count (memManData s1);
        s2 \<leftarrow> VirtualMap fuel pageDirectory address address page_count False (s1\<lparr>memManData := d\<rparr>);
        Some (atomicDisable s2)
      })"

definition MAP_FUEL :: nat where
  "MAP_FUEL = 8"

definition IsPagePresent :: "machine \<Rightarrow> addr \<Rightarrow> addr \<Rightarrow> bool option" where
  "IsPagePresent s pageDirectory virtualAddress =
     do {
       directoryEntry \<leftarrow> vload32 s (GetPageDirectoryEntry pageDirectory virtualAddress);
       if entry_present directoryEntry then do {
         a \<leftarrow> GetPageTableEntry s pageDirectory virtualAddress;
         e \<leftarrow> vload32 s a;
         Some (entry_present e)
       } else Some False
     }"

definition GetPhysicalAddress :: "machine \<Rightarrow> addr \<Rightarrow> addr \<Rightarrow> addr option" where
  "GetPhysicalAddress s pageDirectory virtualAddress =
     do {
       a \<leftarrow> GetPageTableEntry s pageDirectory virtualAddress;
       e \<leftarrow> vload32 s a;
       Some (entry_frame e * PAGE_SIZE + (virtualAddress AND 0xFFF))
     }"

text \<open>\<open>VirtualFree\<close>; the loop compares addresses, which may wrap.\<close>

partial_function (option) VirtualFree_loop :: "addr \<Rightarrow> addr \<Rightarrow> addr \<Rightarrow> machine \<Rightarrow> machine option" where
  "VirtualFree_loop pageDirectory address limit s =
     (if address < limit then do {
        a \<leftarrow> GetPageTableEntry s pageDirectory address;
        s1 \<leftarrow> vstore32 a 0 s;
        VirtualFree_loop pageDirectory (address + PAGE_SIZE) limit s1
      } else Some s)"

definition VirtualFree :: "addr \<Rightarrow> addr \<Rightarrow> u32 \<Rightarrow> machine \<Rightarrow> machine option" where
  "VirtualFree pageDirectory virtualAddress numPages s =
     map_option flushCurrentPageDirectory
       (VirtualFree_loop pageDirectory virtualAddress (virtualAddress + numPages * PAGE_SIZE) s)"

text \<open>
  The search of \<open>VirtualAllocate\<close>: the start of a run of free pages, or \<open>Some None\<close> at the end
  of the range. The search need not end, since the last address of the user range is never
  reached.
\<close>

partial_function (option) VirtualAllocate_loop ::
  "machine \<Rightarrow> addr \<Rightarrow> u32 \<Rightarrow> addr \<Rightarrow> addr \<Rightarrow> addr \<Rightarrow> u32 \<Rightarrow> addr option option" where
  "VirtualAllocate_loop s pageDirectory numPages maxAddress startAddr virtualAddress pageIndex =
     (if virtualAddress < maxAddress then do {
        present \<leftarrow> IsPagePresent s pageDirectory virtualAddress;
        if \<not> present then
          if pageIndex + 1 = numPages then Some (Some startAddr)
          else VirtualAllocate_loop s pageDirectory numPages maxAddress startAddr
                 (virtualAddress + PAGE_SIZE) (pageIndex + 1)
        else VirtualAllocate_loop s pageDirectory numPages maxAddress (virtualAddress + PAGE_SIZE)
               (virtualAddress + PAGE_SIZE) 0
      } else Some None)"

abbreviation (input) KERNEL_START_ADDRESS :: u32 where "KERNEL_START_ADDRESS \<equiv> 0x100000"
abbreviation (input) NUM_KERNEL_PAGETABLES :: u32 where "NUM_KERNEL_PAGETABLES \<equiv> 256"

definition VirtualAllocate :: "addr \<Rightarrow> addr \<Rightarrow> u32 \<Rightarrow> bool \<Rightarrow> machine \<Rightarrow> (addr \<times> machine) option" where
  "VirtualAllocate pageDirectory physicalAddress numPages user s =
     (let userStartAddress = NUM_KERNEL_PAGETABLES * PAGE_SIZE * 1024;
          (virtualAddress, maxAddress) =
            (if user then (userStartAddress, TOTAL_MEMORY) else (KERNEL_START_ADDRESS, userStartAddress))
      in do {
        r \<leftarrow> VirtualAllocate_loop s pageDirectory numPages maxAddress virtualAddress virtualAddress 0;
        case r of
          Some startAddr \<Rightarrow> do {
            s' \<leftarrow> VirtualMap MAP_FUEL pageDirectory startAddr physicalAddress numPages user s;
            Some (startAddr, s')
          }
        | None \<Rightarrow> Some (0, s)
      })"

subsection \<open>The memory manager\<close>

definition num_pages :: "u32 \<Rightarrow> u32" where
  "num_pages sz = (if sz mod PAGE_SIZE \<noteq> 0 then PAGE_ALIGN sz div PAGE_SIZE else sz div PAGE_SIZE)"

text \<open>When there is no physical memory the interrupts stay disabled.\<close>

definition memoryAllocate :: "addr \<Rightarrow> u32 \<Rightarrow> bool \<Rightarrow> machine \<Rightarrow> (addr \<times> machine) option" where
  "memoryAllocate pageDirectory sz user s0 =
     (let numPages = num_pages sz; s1 = atomicEnable s0
      in do {
        (physicalAddress, d) \<leftarrow> physicalAllocate numPages (memManData s1);
        let s2 = s1\<lparr>memManData := d\<rparr>;
        if 0 < physicalAddress then do {
          (virtualAddress, s3) \<leftarrow> VirtualAllocate pageDirectory physicalAddress numPages user s2;
          if virtualAddress = 0 then do {
            d' \<leftarrow> physicalFree physicalAddress numPages (memManData s3);
            Some (0, atomicDisable (s3\<lparr>memManData := d'\<rparr>))
          } else do {
            s4 \<leftarrow> vmemset virtualAddress 0 (numPages * PAGE_SIZE) (atomicDisable s3);
            Some (virtualAddress, s4)
          }
        } else Some (0, s2)
      })"

definition memoryAllocate_running :: "scheduler \<Rightarrow> u32 \<Rightarrow> bool \<Rightarrow> machine \<Rightarrow> (addr \<times> machine) option" where
  "memoryAllocate_running sched sz user s =
     memoryAllocate (cr3 (regs (getRunningTask sched))) sz user s"

definition memoryMap :: "addr \<Rightarrow> addr \<Rightarrow> u32 \<Rightarrow> bool \<Rightarrow> machine \<Rightarrow> machine option" where
  "memoryMap pageDirectory virtualAddress sz isUser s =
     do {
       let numPages = num_pages sz;
       (physicalAddress, d) \<leftarrow> physicalAllocate numPages (memManData s);
       VirtualMap MAP_FUEL pageDirectory virtualAddress physicalAddress numPages isUser (s\<lparr>memManData := d\<rparr>)
     }"

definition memoryFree :: "addr \<Rightarrow> addr \<Rightarrow> u32 \<Rightarrow> machine \<Rightarrow> machine option" where
  "memoryFree pageDirectory startAddress sz s =
     map_option atomicDisable
       (for_rangeM 0 (sz div PAGE_SIZE) (\<lambda>i s. do {
          let virtual_address = startAddress + i * PAGE_SIZE;
          present \<leftarrow> IsPagePresent s pageDirectory virtual_address;
          if present then do {
            p \<leftarrow> GetPhysicalAddress s pageDirectory virtual_address;
            d \<leftarrow> physicalFree p 1 (memManData s);
            VirtualFree pageDirectory virtual_address 1 (s\<lparr>memManData := d\<rparr>)
          } else Some s
        }) (atomicEnable s))"

definition memoryFree_running :: "scheduler \<Rightarrow> addr \<Rightarrow> u32 \<Rightarrow> machine \<Rightarrow> machine option" where
  "memoryFree_running sched startAddress sz s =
     memoryFree (cr3 (regs (getRunningTask sched))) startAddress sz s"

definition mapKernelPageTable :: "layout \<Rightarrow> addr \<Rightarrow> machine \<Rightarrow> machine option" where
  "mapKernelPageTable L pageDirectory s =
     for_rangeM 0 NUM_KERNEL_PAGETABLES (\<lambda>index s. do {
       let directoryEntry = pageDirectory + 4 * index;
       e \<leftarrow> vload32 s directoryEntry;
       vstore32 directoryEntry
         (set_entry e False ((kernelPageTable L + index * PAGE_SIZE) div PAGE_SIZE)) s
     }) s"

definition mapKernelMemory :: "layout \<Rightarrow> machine \<Rightarrow> machine option" where
  "mapKernelMemory L s =
     do {
       let kernelStart = start_symbol L - start_symbol L mod PAGE_SIZE;
       let kernelSize0 = (kernel_end L - start_symbol L) + start_symbol L mod PAGE_SIZE;
       let kernelSize = kernelSize0 + (PAGE_SIZE - kernelSize0 mod PAGE_SIZE);
       s1 \<leftarrow> mapKernelPageTable L (kernelPageDirectory L) s;
       identityMap MAP_FUEL (kernelPageDirectory L) kernelStart kernelSize s1
     }"

definition createUserPageDirectory :: "layout \<Rightarrow> scheduler \<Rightarrow> machine \<Rightarrow> (addr \<times> machine) option" where
  "createUserPageDirectory L sched s =
     do {
       (pageDirectory, s1) \<leftarrow> memoryAllocate_running sched 4096 False (atomicEnable s);
       if pageDirectory = 0 then Some (0, atomicDisable s1)
       else do {
         s2 \<leftarrow> mapKernelPageTable L pageDirectory s1;
         Some (pageDirectory, atomicDisable s2)
       }
     }"

end
