(* ===== verification/Kernel_Space.thy ===== *)
theory Kernel_Space
  imports Virtual
begin
text \<open>
  Correctness of the memory manager in the kernel's gigabyte. Every page directory shares the
  kernel's 256 page tables, which lie one after the other from \<open>kernelPageTable\<close> on, so the entry of
  the page with number \<open>p\<close> is word \<open>p\<close> of one array. The tables and the kernel's directory are
  identity mapped.
\<close>

section \<open>Specification\<close>

definition layout_ok :: "layout \<Rightarrow> bool" where
  "layout_ok L \<longleftrightarrow>
     unat (kernelPageTable L) mod 4096 = 0 \<and> unat (kernelPageDirectory L) mod 4096 = 0 \<and>
     unat (kernelPageTable L) + 0x100000 \<le> 0x40000000 \<and> unat (kernelPageDirectory L) + 0x1000 \<le> 0x40000000 \<and>
     (unat (kernelPageDirectory L) + 0x1000 \<le> unat (kernelPageTable L) \<or>
      unat (kernelPageTable L) + 0x100000 \<le> unat (kernelPageDirectory L))"

text \<open>The entry of page \<open>p\<close> of the kernel's gigabyte and the pages that hold the tables.\<close>

definition kentry_addr :: "layout \<Rightarrow> nat \<Rightarrow> addr" where
  "kentry_addr L p = kernelPageTable L + 4 * of_nat p"

definition kentry :: "layout \<Rightarrow> machine \<Rightarrow> nat \<Rightarrow> u32" where
  "kentry L s p = load32 (ram s) (kentry_addr L p)"

definition table_pages :: "layout \<Rightarrow> nat set" where
  "table_pages L = {unat (kernelPageTable L) div 4096 ..< unat (kernelPageTable L) div 4096 + 256}"

definition reserved_pages :: "layout \<Rightarrow> nat set" where
  "reserved_pages L = insert (unat (kernelPageDirectory L) div 4096) (table_pages L)"

text \<open>A page directory, at a physical address, that has the kernel's tables in its first entries.\<close>

definition dir_at :: "layout \<Rightarrow> machine \<Rightarrow> addr \<Rightarrow> bool" where
  "dir_at L s f \<longleftrightarrow> unat f mod 4096 = 0 \<and> unat f div 4096 \<notin> table_pages L \<and>
     (\<forall>i < 256. entry_present (load32 (ram s) (f + 4 * of_nat i)) \<and>
        entry_frame (load32 (ram s) (f + 4 * of_nat i)) = drop_bit 12 (kernelPageTable L) + of_nat i)"

definition kspace :: "layout \<Rightarrow> machine \<Rightarrow> bool" where
  "kspace L s \<longleftrightarrow> layout_ok L \<and> paging s \<and> dir_at L s (push_bit 12 (entry_frame (cr3_reg s))) \<and>
     (\<forall>p \<in> reserved_pages L. entry_present (kentry L s p) \<and> entry_frame (kentry L s p) = of_nat p)"

text \<open>A page directory as the kernel refers to it: by a linear address in the kernel's gigabyte.\<close>

definition pd_ok :: "layout \<Rightarrow> machine \<Rightarrow> addr \<Rightarrow> bool" where
  "pd_ok L s pd \<longleftrightarrow> unat pd mod 4096 = 0 \<and> unat pd < 0x40000000 \<and>
     entry_present (kentry L s (unat pd div 4096)) \<and>
     dir_at L s (push_bit 12 (entry_frame (kentry L s (unat pd div 4096))))"

section \<open>Facts\<close>

subsection \<open>Address arithmetic\<close>

lemma push_bit_12: "push_bit 12 (x :: u32) = x * 4096"
  by (simp add: push_bit_eq_mult)

lemma unat_drop_12: "unat (drop_bit 12 (x :: u32)) = unat x div 4096"
  by (simp add: unat_drop_bit_eq drop_bit_eq_div unat_div)

lemma unat_dir_index: "unat (PAGE_DIR_INDEX va) = unat va div 4194304"
  by (simp add: PAGE_DIR_INDEX_def unat_drop_bit_eq drop_bit_eq_div unat_div)

lemma unat_table_index: "unat (PAGE_TABLE_INDEX va) = unat va div 4096 mod 1024"
proof -
  have "drop_bit 12 va AND 0x3ff = take_bit 10 (drop_bit 12 va)"
    by (simp add: take_bit_eq_mask mask_eq_exp_minus_1)
  then show ?thesis
    by (simp add: PAGE_TABLE_INDEX_def unsigned_take_bit_eq unat_drop_12 take_bit_nat_def)
qed

lemma align_12:
  assumes "unat (x :: u32) mod 4096 = 0"
  shows "drop_bit 12 x * 4096 = x"
proof -
  have "unat (drop_bit 12 x * 4096) = unat x"
    using assms unsigned_less [of x, where ?'a = nat]
    by (simp add: unat_word_ariths unat_drop_12 mod_eq_0_iff_dvd)
  then show ?thesis by (simp add: word_unat_eq_iff)
qed

text \<open>The entry that the code computes from the directory and the table index.\<close>

lemma entry_address:
  assumes "layout_ok L"
  shows "(drop_bit 12 (kernelPageTable L) + of_nat (unat va div 4194304)) * 4096 + 4 * PAGE_TABLE_INDEX va =
         kentry_addr L (unat va div 4096)"
proof -
  have "PAGE_TABLE_INDEX va = of_nat (unat va div 4096 mod 1024)"
    by (simp flip: unat_table_index)
  moreover have "unat va div 4096 = unat va div 4194304 * 1024 + unat va div 4096 mod 1024"
    using div_mult2_eq [of "unat va" 4096 1024] div_mult_mod_eq [of "unat va div 4096" 1024] by simp
  then have "(of_nat (unat va div 4096) :: u32) =
      of_nat (unat va div 4194304 * 1024 + unat va div 4096 mod 1024)"
    by (rule arg_cong)
  moreover have "drop_bit 12 (kernelPageTable L) * 4096 = kernelPageTable L"
    using assms align_12 by (simp add: layout_ok_def)
  ultimately show ?thesis
    by (simp add: kentry_addr_def algebra_simps)
qed

lemma kentry_addr_aligned:
  assumes "layout_ok L" and "p < 262144"
  shows "unat (kentry_addr L p) = unat (kernelPageTable L) + 4 * p"
proof -
  have "unat (4 * of_nat p :: u32) = 4 * p"
    using assms(2) by (simp add: unat_word_ariths unat_of_nat take_bit_nat_eq_self)
  then show ?thesis
    using assms by (simp add: kentry_addr_def layout_ok_def unat_word_ariths)
qed

lemma kentry_addr_page:
  assumes "layout_ok L" and "p < 262144"
  shows "unat (kentry_addr L p) div 4096 \<in> table_pages L" "unat (kentry_addr L p) < 0x40000000"
    "unat (kentry_addr L p) mod 4 = 0"
proof -
  have "unat (kernelPageTable L) = unat (kernelPageTable L) div 4096 * 4096"
    using assms(1) by (auto simp: layout_ok_def)
  then show "unat (kentry_addr L p) div 4096 \<in> table_pages L"
    using assms by (simp add: kentry_addr_aligned table_pages_def) linarith
  show "unat (kentry_addr L p) < 0x40000000"
    using assms by (simp add: kentry_addr_aligned layout_ok_def)
  have "unat (kernelPageTable L) mod 4 = 0"
    using assms(1) mod_mod_cancel [of 4 4096 "unat (kernelPageTable L)"] by (simp add: layout_ok_def)
  then show "unat (kentry_addr L p) mod 4 = 0"
    using assms by (simp add: kentry_addr_aligned mod_add_left_eq [symmetric, of _ _ "4 * p"])
qed

lemma kentry_addr_inj:
  assumes "layout_ok L" "p < 262144" "q < 262144" "kentry_addr L p = kentry_addr L q"
  shows "p = q"
  using arg_cong [OF assms(4), of unat] assms(1,2,3) by (simp add: kentry_addr_aligned)

lemma join_page: "(of_nat (unat va div 4096) * 4096 :: u32) OR (va AND 0xFFF) = va"
proof -
  have "of_nat (unat va div 4096) = drop_bit 12 va"
    by (metis of_nat_unat ucast_id unat_drop_12)
  moreover have "va AND 0xFFF = take_bit 12 va"
    by (simp add: take_bit_eq_mask mask_eq_exp_minus_1)
  moreover have "drop_bit 12 va * 4096 = push_bit 12 (drop_bit 12 va)"
    by (simp add: push_bit_12)
  moreover have "push_bit 12 (drop_bit 12 va) OR take_bit 12 va = va"
    by (rule bit_word_eqI) (auto simp: bit_simps)
  ultimately show ?thesis by simp
qed

lemma low_bits: "(x :: u32) AND 0xFFF = take_bit 12 x"
  by (simp add: take_bit_eq_mask mask_eq_exp_minus_1)

lemma unat_low_bits: "unat ((x :: u32) AND 0xFFF) = unat x mod 4096"
  by (simp add: low_bits unsigned_take_bit_eq take_bit_nat_def)

lemma frame_or_offset:
  assumes "unat b mod 4096 = 0" and "unat x < 4096"
  shows "(fr * 4096 :: u32) OR ((b + x) AND 0xFFF) = fr * 4096 + x"
proof -
  have "unat (b + x) mod 4096 = (unat b + unat x) mod 4096"
    by (simp add: unat_word_ariths mod_mod_cancel)
  also have "\<dots> = unat x" using assms by (simp add: mod_add_eq [symmetric, of "unat b"])
  finally have x: "(b + x) AND 0xFFF = x"
    by (simp add: word_unat_eq_iff unat_low_bits)
  then have "take_bit 12 x = x"
    using assms by (simp add: word_unat_eq_iff unsigned_take_bit_eq take_bit_nat_eq_self)
  then have "\<not> bit x n" if "12 \<le> n" for n
    using that by (metis bit_take_bit_iff not_le)
  then have "push_bit 12 fr OR x = push_bit 12 fr + x"
    by (intro disjunctive_add [symmetric]) (auto simp: bit_simps)
  then show ?thesis by (simp add: x push_bit_12)
qed

lemma page_offset_any:
  fixes b x :: u32
  assumes "unat b mod 4096 = 0" and "unat x < 4096"
  shows "unat (b + x) div 4096 = unat b div 4096"
proof -
  obtain q where q: "unat b = q * 4096" using assms(1) by auto
  then have "q < 1048576" using unsigned_less [of b, where ?'a = nat] by simp
  then have "unat (b + x) = q * 4096 + unat x"
    using assms(2) by (simp add: unat_word_ariths q)
  then show ?thesis using q assms(2) by simp
qed

lemma page_offset:
  fixes b x :: u32
  assumes "unat b mod 4096 = 0" and "unat b < 0x40000000" and "unat x < 4096"
  shows "unat (b + x) div 4096 = unat b div 4096" and "unat (b + x) < 0x40000000"
proof -
  obtain q where q: "unat b = q * 4096" using assms(1) by auto
  have off: "unat (b + x) = q * 4096 + unat x"
    using assms by (simp add: unat_word_ariths q)
  show "unat (b + x) div 4096 = unat b div 4096"
    unfolding off q using assms(3) by simp
  have "q < 262144" using assms(2) q by simp
  then show "unat (b + x) < 0x40000000" using off assms(3) by linarith
qed

subsection \<open>Translation in the kernel's gigabyte\<close>

lemma kernel_entry_addr:
  assumes "layout_ok L" and "dir_at L s f" and "unat va < 0x40000000"
  shows "entry_present (load32 (ram s) (f + 4 * PAGE_DIR_INDEX va))"
    and "entry_frame (load32 (ram s) (f + 4 * PAGE_DIR_INDEX va)) * 4096 + 4 * PAGE_TABLE_INDEX va =
         kentry_addr L (unat va div 4096)"
proof -
  have "PAGE_DIR_INDEX va = of_nat (unat va div 4194304)"
    by (simp flip: unat_dir_index)
  moreover have "unat va div 4194304 < 256" using assms(3) by simp
  ultimately have "entry_present (load32 (ram s) (f + 4 * PAGE_DIR_INDEX va)) \<and>
      entry_frame (load32 (ram s) (f + 4 * PAGE_DIR_INDEX va)) =
        drop_bit 12 (kernelPageTable L) + of_nat (unat va div 4194304)"
    using assms(2) by (simp add: dir_at_def)
  then show "entry_present (load32 (ram s) (f + 4 * PAGE_DIR_INDEX va))"
    and "entry_frame (load32 (ram s) (f + 4 * PAGE_DIR_INDEX va)) * 4096 + 4 * PAGE_TABLE_INDEX va =
         kentry_addr L (unat va div 4096)"
    using entry_address [OF assms(1), of va] by simp_all
qed

lemma xlate_kernel:
  assumes "kspace L s" and "unat va < 0x40000000"
  shows "xlate s va =
    (if entry_present (kentry L s (unat va div 4096))
     then Some (entry_frame (kentry L s (unat va div 4096)) * 4096 OR (va AND 0xFFF)) else None)"
proof -
  have "layout_ok L" "paging s" "dir_at L s (push_bit 12 (entry_frame (cr3_reg s)))"
    using assms(1) by (simp_all add: kspace_def)
  then show ?thesis
    using kernel_entry_addr [OF _ _ assms(2), of L s] by (simp add: xlate_def Let_def kentry_def push_bit_12)
qed

lemma xlate_reserved:
  assumes "kspace L s" and "unat va div 4096 \<in> reserved_pages L" and "unat va < 0x40000000"
  shows "xlate s va = Some va"
  using assms xlate_kernel [OF assms(1,3)] by (simp add: kspace_def join_page)

lemma vload32_kentry:
  assumes "kspace L s" and "p < 262144"
  shows "vload32 s (kentry_addr L p) = Some (kentry L s p)"
    and "vstore32 (kentry_addr L p) w s = Some (s\<lparr>ram := store32 (ram s) (kentry_addr L p) w\<rparr>)"
proof -
  have "layout_ok L" using assms(1) by (simp add: kspace_def)
  note page = kentry_addr_page [OF this assms(2)]
  have "xlate s (kentry_addr L p) = Some (kentry_addr L p)"
    using page by (intro xlate_reserved [OF assms(1)]) (simp_all add: reserved_pages_def)
  then show "vload32 s (kentry_addr L p) = Some (kentry L s p)"
    and "vstore32 (kentry_addr L p) w s = Some (s\<lparr>ram := store32 (ram s) (kentry_addr L p) w\<rparr>)"
    by (simp_all add: vload32_def vstore32_def kentry_def)
qed

text \<open>The code's walk from a directory to the entry of a page.\<close>

lemma walk:
  assumes "kspace L s" and "pd_ok L s pd" and "unat va < 0x40000000"
  shows "\<exists>e. vload32 s (GetPageDirectoryEntry pd va) = Some e \<and> entry_present e"
    and "GetPageTableEntry s pd va = Some (kentry_addr L (unat va div 4096))"
proof -
  define f where "f = entry_frame (kentry L s (unat pd div 4096)) * 4096"
  have f: "dir_at L s f" and pd: "unat pd mod 4096 = 0" "unat pd < 0x40000000"
    and present: "entry_present (kentry L s (unat pd div 4096))"
    using assms(2) by (simp_all add: pd_ok_def f_def push_bit_12)
  have L: "layout_ok L" using assms(1) by (simp add: kspace_def)
  have "unat (4 * PAGE_DIR_INDEX va) < 4096"
    using assms(3) by (simp add: unat_word_ariths unat_dir_index)
  note off = page_offset [OF pd this] frame_or_offset [OF pd(1) this]
  have "xlate s (pd + 4 * PAGE_DIR_INDEX va) = Some (f + 4 * PAGE_DIR_INDEX va)"
    using xlate_kernel [OF assms(1) off(2)] off(1,3) present by (simp add: f_def)
  then have e: "vload32 s (GetPageDirectoryEntry pd va) = Some (load32 (ram s) (f + 4 * PAGE_DIR_INDEX va))"
    by (simp add: vload32_def GetPageDirectoryEntry_def)
  note entry = kernel_entry_addr [OF L f assms(3)]
  show "\<exists>e. vload32 s (GetPageDirectoryEntry pd va) = Some e \<and> entry_present e"
    using e entry(1) by blast
  show "GetPageTableEntry s pd va = Some (kentry_addr L (unat va div 4096))"
    using e entry(2) by (simp add: GetPageTableEntry_def GetPageTable_def)
qed

lemma IsPagePresent_kernel:
  assumes "kspace L s" and "pd_ok L s pd" and "unat va < 0x40000000"
  shows "IsPagePresent s pd va = Some (entry_present (kentry L s (unat va div 4096)))"
proof -
  have "unat va div 4096 < 262144" using assms(3) by simp
  then show ?thesis
    using walk [OF assms] vload32_kentry(1) [OF assms(1)] by (auto simp: IsPagePresent_def)
qed

lemma GetPhysicalAddress_kernel:
  assumes "kspace L s" and "pd_ok L s pd" and "unat va < 0x40000000"
  shows "GetPhysicalAddress s pd va =
    Some (entry_frame (kentry L s (unat va div 4096)) * 4096 + (va AND 0xFFF))"
proof -
  have "unat va div 4096 < 262144" using assms(3) by simp
  then show ?thesis
    using walk(2) [OF assms] vload32_kentry(1) [OF assms(1)] by (simp add: GetPhysicalAddress_def)
qed

subsection \<open>Writing an entry\<close>

definition put_entry :: "layout \<Rightarrow> nat \<Rightarrow> u32 \<Rightarrow> machine \<Rightarrow> machine" where
  "put_entry L p w s = s\<lparr>ram := store32 (ram s) (kentry_addr L p) w\<rparr>"

lemma put_entry_fields [simp]:
  "memManData (put_entry L p w s) = memManData s" "cr3_reg (put_entry L p w s) = cr3_reg s"
  "paging (put_entry L p w s) = paging s" "interrupts (put_entry L p w s) = interrupts s"
  by (simp_all add: put_entry_def)

lemma kentry_put_entry:
  assumes "layout_ok L" "p < 262144" "q < 262144"
  shows "kentry L (put_entry L p w s) q = (if q = p then w else kentry L s q)"
proof (cases "q = p")
  case False
  then have "kentry_addr L q \<noteq> kentry_addr L p"
    using assms kentry_addr_inj by blast
  then show ?thesis
    using False assms by (simp add: kentry_def put_entry_def kentry_addr_page(3))
qed (simp add: kentry_def put_entry_def)

lemma ram_put_entry:
  assumes "layout_ok L" "p < 262144" "unat a div 4096 \<notin> table_pages L"
  shows "ram (put_entry L p w s) a = ram s a"
proof -
  have "a \<noteq> kentry_addr L p + i" if "i < 4" for i
  proof
    assume a: "a = kentry_addr L p + i"
    have "unat a = unat (kentry_addr L p) + unat i"
      unfolding a using assms that by (intro aligned4_offset) (simp_all add: kentry_addr_page)
    moreover obtain q where "unat (kernelPageTable L) = q * 4096"
      using assms(1) by (auto simp: layout_ok_def)
    moreover have "(4 * p + unat i) div 4096 < 256"
      using assms(2) that by (simp add: word_less_nat_alt)
    ultimately have "unat a div 4096 \<in> table_pages L"
      using assms(1,2) by (simp add: kentry_addr_aligned table_pages_def add.assoc)
    with assms(3) show False by simp
  qed
  from this [of 0] this [of 1] this [of 2] this [of 3] show ?thesis
    by (simp add: put_entry_def store32_apply)
qed

lemma load32_put_entry:
  assumes "layout_ok L" "p < 262144" "unat f mod 4096 = 0" "unat f div 4096 \<notin> table_pages L" "i < 1024"
  shows "load32 (ram (put_entry L p w s)) (f + 4 * of_nat i) = load32 (ram s) (f + 4 * of_nat i)"
proof (rule load32_cong)
  fix j :: u32 assume "j < 4"
  then have "unat (4 * of_nat i + j) < 4096"
    using assms(5) by (simp add: unat_word_ariths unat_of_nat word_less_nat_alt take_bit_nat_eq_self)
  then have "unat (f + (4 * of_nat i + j)) div 4096 = unat f div 4096"
    by (rule page_offset_any [OF assms(3)])
  then show "ram (put_entry L p w s) (f + 4 * of_nat i + j) = ram s (f + 4 * of_nat i + j)"
    using ram_put_entry [OF assms(1,2), of "f + (4 * of_nat i + j)"] assms(4) by (simp add: add.assoc)
qed

lemma dir_at_put_entry:
  assumes "layout_ok L" "p < 262144" "dir_at L s f"
  shows "dir_at L (put_entry L p w s) f"
  using assms load32_put_entry [OF assms(1,2), of f] by (simp add: dir_at_def)

lemma kspace_put_entry:
  assumes "kspace L s" "p < 262144" "p \<notin> reserved_pages L"
  shows "kspace L (put_entry L p w s)"
proof -
  have L: "layout_ok L" using assms(1) by (simp add: kspace_def)
  have "q < 262144" if "q \<in> reserved_pages L" for q
    using that L by (auto simp: reserved_pages_def table_pages_def layout_ok_def)
  then show ?thesis
    using assms L by (auto simp: kspace_def dir_at_put_entry kentry_put_entry)
qed

lemma pd_ok_put_entry:
  assumes "layout_ok L" "pd_ok L s pd" "p < 262144" "p \<noteq> unat pd div 4096"
  shows "pd_ok L (put_entry L p w s) pd"
proof -
  have "unat pd < 0x40000000" using assms(2) by (simp add: pd_ok_def)
  then have "unat pd div 4096 < 262144" by simp
  then show ?thesis
    using assms by (simp add: pd_ok_def kentry_put_entry dir_at_put_entry)
qed

subsection \<open>Mapping a range\<close>

text \<open>
  The state after the first \<open>k\<close> pages from page \<open>p\<close> on were mapped to the frames from \<open>fr\<close> on.
\<close>

definition mapped :: "layout \<Rightarrow> nat \<Rightarrow> nat \<Rightarrow> u32 \<Rightarrow> bool \<Rightarrow> machine \<Rightarrow> machine \<Rightarrow> bool" where
  "mapped L p k fr user s s' \<longleftrightarrow>
     memManData s' = memManData s \<and> cr3_reg s' = cr3_reg s \<and> paging s' = paging s \<and> interrupts s' = interrupts s \<and>
     (\<forall>q < 262144. kentry L s' q =
        (if p \<le> q \<and> q < p + k then set_entry (kentry L s q) user (fr + (of_nat q - of_nat p)) else kentry L s q)) \<and>
     (\<forall>a. unat a div 4096 \<notin> table_pages L \<longrightarrow> ram s' a = ram s a)"

lemma mapped_0: "mapped L p 0 fr user s s"
  by (auto simp: mapped_def)

lemma mapped_step:
  assumes "layout_ok L" and "mapped L p k fr user s s'" and "p + k < 262144"
  shows "mapped L p (Suc k) fr user s
    (put_entry L (p + k) (set_entry (kentry L s' (p + k)) user (fr + of_nat k)) s')"
proof -
  have "kentry L s' (p + k) = kentry L s (p + k)"
    using assms(2,3) by (simp add: mapped_def)
  then show ?thesis
    using assms unfolding mapped_def by (simp add: kentry_put_entry ram_put_entry less_Suc_eq)
qed

lemma flush_id [simp]: "flushCurrentPageDirectory s = s"
  by (simp add: flushCurrentPageDirectory_def changePageDirectory_def)

lemma unat_page_range:
  fixes va :: u32
  assumes "unat va mod 4096 = 0" and "unat va div 4096 + k < 262144"
  shows "unat (va + of_nat k * 4096) = unat va + k * 4096" "unat (va + of_nat k * 4096) < 0x40000000"
    "unat (va + of_nat k * 4096) div 4096 = unat va div 4096 + k"
proof -
  obtain q where q: "unat va = q * 4096" using assms(1) by auto
  then have "q + k < 262144" using assms(2) by simp
  then have "unat (of_nat k * 4096 :: u32) = k * 4096"
    by (simp add: unat_word_ariths unat_of_nat take_bit_nat_eq_self)
  then show sum: "unat (va + of_nat k * 4096) = unat va + k * 4096"
    using \<open>q + k < 262144\<close> q by (simp add: unat_word_ariths)
  show "unat (va + of_nat k * 4096) < 0x40000000" "unat (va + of_nat k * 4096) div 4096 = unat va div 4096 + k"
    unfolding sum q using \<open>q + k < 262144\<close> by simp_all
qed

lemma drop_12_add: "drop_bit 12 ((pa :: u32) + of_nat k * 4096) = drop_bit 12 pa + of_nat k"
  if "unat pa div 4096 + k < 1048576"
proof -
  have "unat ((pa + of_nat k * 4096) div 4096) = unat pa div 4096 + k"
    by (rule page_of_offset [OF that])
  moreover have "unat (drop_bit 12 pa + of_nat k) = unat pa div 4096 + k"
    using that by (simp add: unat_word_ariths unat_drop_12 unat_of_nat take_bit_nat_eq_self)
  ultimately show ?thesis
    by (simp add: word_unat_eq_iff unat_drop_12 unat_div)
qed

text \<open>
  What \<open>VirtualMap\<close> needs of a page directory: the walk leads to the kernel's tables, whose entries can be
  read and written, and writing an entry that is \<open>writable\<close> keeps it so. It holds of every directory once
  paging is on, and of the kernel's own before that.
\<close>

locale directory_walk =
  fixes L :: layout and pd :: addr and ok :: "machine \<Rightarrow> bool" and writable :: "nat \<Rightarrow> u32 \<Rightarrow> bool"
  assumes tables: "ok s \<Longrightarrow> layout_ok L"
    and reaches: "ok s \<Longrightarrow> unat va < 0x40000000 \<Longrightarrow>
      \<exists>e. vload32 s (GetPageDirectoryEntry pd va) = Some e \<and> entry_present e"
    and finds: "ok s \<Longrightarrow> unat va < 0x40000000 \<Longrightarrow> GetPageTableEntry s pd va = Some (kentry_addr L (unat va div 4096))"
    and reads: "ok s \<Longrightarrow> p < 262144 \<Longrightarrow> vload32 s (kentry_addr L p) = Some (kentry L s p)"
    and writes: "ok s \<Longrightarrow> p < 262144 \<Longrightarrow> vstore32 (kentry_addr L p) w s = Some (put_entry L p w s)"
    and keeps: "ok s \<Longrightarrow> p < 262144 \<Longrightarrow> writable p fr \<Longrightarrow> unat fr < 1048576 \<Longrightarrow> ok (put_entry L p (set_entry e user fr) s)"
begin

lemma VirtualMap_writes:
  assumes ok: "ok s" and range: "unat va div 4096 + unat n \<le> 262144" "unat pa div 4096 + unat n \<le> 1048576"
    and free: "\<And>k. k < unat n \<Longrightarrow> writable (unat va div 4096 + k) (drop_bit 12 pa + of_nat k)"
  shows "\<exists>s'. VirtualMap (Suc fuel) pd va pa n user s = Some s' \<and> ok s' \<and>
    mapped L (unat va div 4096) (unat n) (drop_bit 12 pa) user s s'"
proof -
  let ?p = "unat va div 4096"
  let ?P = "\<lambda>k (v, q, t). v = va + of_nat k * 4096 \<and> q = pa + of_nat k * 4096 \<and> ok t \<and> mapped L ?p k (drop_bit 12 pa) user s t"
  let ?body = "\<lambda>pageIndex (virtualAddress, physicalAddress, s). do {
          let pageDirectoryEntry = GetPageDirectoryEntry pd virtualAddress;
          pde \<leftarrow> vload32 s pageDirectoryEntry;
          s1 \<leftarrow> (if \<not> entry_present pde then do {
                 (pageTablePhysicalAddress, d) \<leftarrow> physicalAllocate 1 (memManData s);
                 s' \<leftarrow> identityMap fuel pd pageTablePhysicalAddress 0 (s\<lparr>memManData := d\<rparr>);
                 e \<leftarrow> vload32 s' pageDirectoryEntry;
                 vstore32 pageDirectoryEntry (set_entry e user (drop_bit 12 pageTablePhysicalAddress)) s'
               } else Some s);
          pageTableEntry \<leftarrow> GetPageTableEntry s1 pd virtualAddress;
          e \<leftarrow> vload32 s1 pageTableEntry;
          s2 \<leftarrow> vstore32 pageTableEntry (set_entry e user (drop_bit 12 physicalAddress)) s1;
          Some (virtualAddress + PAGE_SIZE, physicalAddress + PAGE_SIZE, s2)
        }"
  have step: "\<exists>t'. ?body (of_nat k) t = Some t' \<and> ?P (Suc k) t'" if k: "k < unat n" and inv: "?P k t" for k t
  proof -
    obtain m where t: "t = (va + of_nat k * 4096, pa + of_nat k * 4096, m)"
      and m: "ok m" "mapped L ?p k (drop_bit 12 pa) user s m"
      using inv by (cases t) auto
    let ?v = "va + of_nat k * 4096"
    have pk: "?p + k < 262144" "unat pa div 4096 + k < 1048576" using range k by simp_all
    have "unat (?v div 4096) = ?p + k" using pk(1) by (intro page_of_offset) simp
    then have v: "unat ?v div 4096 = ?p + k" by (simp add: unat_div)
    then have v': "unat ?v < 0x40000000" using pk(1) by simp
    obtain e where e: "vload32 m (GetPageDirectoryEntry pd ?v) = Some e" "entry_present e"
      using reaches [OF m(1) v'] by blast
    have fr: "drop_bit 12 (pa + of_nat k * 4096) = drop_bit 12 pa + of_nat k" by (rule drop_12_add [OF pk(2)])
    have "unat (pa + of_nat k * 4096) div 4096 < 1048576" using unsigned_less [of "pa + of_nat k * 4096", where ?'a = nat] by simp
    then have fr': "unat (drop_bit 12 pa + of_nat k) < 1048576" unfolding fr [symmetric] unat_drop_12 .
    let ?m = "put_entry L (?p + k) (set_entry (kentry L m (?p + k)) user (drop_bit 12 pa + of_nat k)) m"
    have "?body (of_nat k) t = Some (?v + 4096, pa + of_nat k * 4096 + 4096, ?m)"
      using finds [OF m(1) v'] reads [OF m(1) pk(1)] writes [OF m(1) pk(1)] by (simp add: t e v fr)
    moreover have "?P (Suc k) (?v + 4096, pa + of_nat k * 4096 + 4096, ?m)"
      using keeps [OF m(1) pk(1) free [OF k] fr'] mapped_step [OF tables [OF m(1)] m(2) pk(1)] by (simp add: algebra_simps)
    ultimately show ?thesis by blast
  qed
  have "\<exists>t'. for_rangeM 0 n ?body (va, pa, s) = Some t' \<and> ?P (unat n) t'"
    using for_rangeM_inv [of ?P "(va, pa, s)" n ?body] step ok mapped_0 by simp
  then show ?thesis by fastforce
qed

end

interpretation paged: directory_walk L pd "\<lambda>s. kspace L s \<and> pd_ok L s pd" "\<lambda>p _. p \<notin> insert (unat pd div 4096) (reserved_pages L)" for L pd
  by unfold_locales
    (use walk vload32_kentry kspace_put_entry pd_ok_put_entry in \<open>auto simp: put_entry_def kspace_def\<close>)

lemma VirtualMap_kernel:
  assumes "kspace L s" and "pd_ok L s pd" and "unat va mod 4096 = 0"
    and "unat va div 4096 + unat n \<le> 262144" and "unat pa div 4096 + unat n \<le> 1048576"
    and avoid: "\<forall>p \<in> {unat va div 4096 ..< unat va div 4096 + unat n}. p \<notin> reserved_pages L \<and> p \<noteq> unat pd div 4096"
  shows "\<exists>s'. VirtualMap (Suc fuel) pd va pa n user s = Some s' \<and> kspace L s' \<and> pd_ok L s' pd \<and>
    mapped L (unat va div 4096) (unat n) (drop_bit 12 pa) user s s'"
  using paged.VirtualMap_writes [of L s pd va n pa fuel user] assms by auto

subsection \<open>The search for free addresses\<close>

definition free_run :: "layout \<Rightarrow> machine \<Rightarrow> nat \<Rightarrow> nat \<Rightarrow> bool" where
  "free_run L s n q \<longleftrightarrow> q + n \<le> 262144 \<and> (\<forall>r \<in> {q ..< q + n}. \<not> entry_present (kentry L s r))"

text \<open>The lowest run of \<open>n\<close> free pages from the kernel's start address on.\<close>

definition first_run :: "layout \<Rightarrow> machine \<Rightarrow> nat \<Rightarrow> nat \<Rightarrow> bool" where
  "first_run L s n q \<longleftrightarrow> 256 \<le> q \<and> free_run L s n q \<and> (\<forall>r. 256 \<le> r \<and> r < q \<longrightarrow> \<not> free_run L s n r)"

lemma page_number_address:
  assumes "v < 262144"
  shows "unat (of_nat v * 4096 :: u32) = v * 4096" "unat (of_nat v * 4096 :: u32) div 4096 = v"
    "(of_nat v * 4096 :: u32) < 0x40000000" "unat (of_nat v * 4096 :: u32) < 0x40000000"
proof -
  show u: "unat (of_nat v * 4096 :: u32) = v * 4096"
    using assms by (simp add: unat_word_ariths unat_of_nat take_bit_nat_eq_self)
  then show "unat (of_nat v * 4096 :: u32) div 4096 = v" "unat (of_nat v * 4096 :: u32) < 0x40000000"
    using assms by simp_all
  then show "(of_nat v * 4096 :: u32) < 0x40000000" by (simp add: word_less_nat_alt)
qed

lemma VirtualAllocate_loop_kernel:
  assumes "kspace L s" and "pd_ok L s pd"
    and "256 \<le> st" "st \<le> v" "v \<le> 262144" "v - st < unat n"
    and "\<forall>r \<in> {st ..< v}. \<not> entry_present (kentry L s r)"
    and "\<forall>q. 256 \<le> q \<and> q < st \<longrightarrow> \<not> free_run L s (unat n) q"
  shows "(\<exists>q. first_run L s (unat n) q \<and>
      VirtualAllocate_loop s pd n 0x40000000 (of_nat st * 4096) (of_nat v * 4096) (of_nat (v - st)) =
        Some (Some (of_nat q * 4096))) \<or>
    ((\<forall>q \<ge> 256. \<not> free_run L s (unat n) q) \<and>
     VirtualAllocate_loop s pd n 0x40000000 (of_nat st * 4096) (of_nat v * 4096) (of_nat (v - st)) = Some None)"
  using assms(3-)
proof (induction "262144 - v" arbitrary: st v)
  case 0
  then have v: "v = 262144" by simp
  have "\<not> free_run L s (unat n) q" if "256 \<le> q" for q
    using that 0 v by (cases "q < st") (auto simp: free_run_def)
  moreover have "VirtualAllocate_loop s pd n 0x40000000 (of_nat st * 4096) (of_nat v * 4096) (of_nat (v - st)) = Some None"
    by (subst VirtualAllocate_loop.simps) (simp add: v)
  ultimately show ?case by blast
next
  case (Suc d)
  then have v: "v < 262144" and d: "d = 262144 - Suc v" by simp_all
  note va = page_number_address [OF v]
  have present: "IsPagePresent s pd (of_nat v * 4096) = Some (entry_present (kentry L s v))"
    using IsPagePresent_kernel [OF assms(1,2) va(4)] va(2) by simp
  have index: "of_nat (v - st) + 1 = (of_nat (Suc v - st) :: u32)"
    using Suc.prems(2) by (simp add: Suc_diff_le)
  have next_va: "of_nat v * 4096 + 4096 = (of_nat (Suc v) * 4096 :: u32)" by (simp add: algebra_simps)
  have "Suc v - st \<le> unat n" using Suc.prems(2,4) by simp
  then have full: "of_nat (Suc v - st) = n \<longleftrightarrow> Suc v - st = unat n"
    by (metis unat_of_nat_le of_nat_unat ucast_id)
  note unfold = VirtualAllocate_loop.simps [of s pd n _ "of_nat st * 4096" "of_nat v * 4096" "of_nat (v - st)"]
  show ?case
  proof (cases "entry_present (kentry L s v)")
    case True
    have "\<not> free_run L s (unat n) q" if q: "256 \<le> q" "q < Suc v" for q
    proof (cases "q < st")
      case False
      then have "v \<in> {q ..< q + unat n}" using q Suc.prems(4) by auto
      then show ?thesis using True unfolding free_run_def by blast
    qed (use q Suc.prems(6) in simp)
    moreover have "VirtualAllocate_loop s pd n 0x40000000 (of_nat st * 4096) (of_nat v * 4096) (of_nat (v - st)) =
        VirtualAllocate_loop s pd n 0x40000000 (of_nat (Suc v) * 4096) (of_nat (Suc v) * 4096) (of_nat (Suc v - Suc v))"
      unfolding unfold by (simp add: va(3) present True next_va)
    ultimately show ?thesis
      using Suc.hyps(1) [OF d, of "Suc v"] Suc.prems v by simp
  next
    case False
    have free: "\<forall>r \<in> {st ..< Suc v}. \<not> entry_present (kentry L s r)"
      using Suc.prems(5) False by (auto simp: less_Suc_eq)
    show ?thesis
    proof (cases "Suc v - st = unat n")
      case True
      then have "first_run L s (unat n) st"
        using free Suc.prems v by (auto simp: first_run_def free_run_def)
      moreover have "VirtualAllocate_loop s pd n 0x40000000 (of_nat st * 4096) (of_nat v * 4096) (of_nat (v - st)) =
          Some (Some (of_nat st * 4096))"
        unfolding unfold index full using True by (simp add: va(3) present False)
      ultimately show ?thesis by blast
    next
      case less: False
      have "VirtualAllocate_loop s pd n 0x40000000 (of_nat st * 4096) (of_nat v * 4096) (of_nat (v - st)) =
          VirtualAllocate_loop s pd n 0x40000000 (of_nat st * 4096) (of_nat (Suc v) * 4096) (of_nat (Suc v - st))"
        unfolding unfold index full using less by (simp add: va(3) present False next_va)
      moreover have "Suc v - st < unat n" using less \<open>Suc v - st \<le> unat n\<close> by simp
      ultimately show ?thesis
        using Suc.hyps(1) [OF d, of st] Suc.prems v free by simp
    qed
  qed
qed

lemma VirtualAllocate_kernel:
  assumes "kspace L s" and "pd_ok L s pd" and "0 < n" and "unat pa div 4096 + unat n \<le> 1048576"
  shows "(\<exists>q s'. first_run L s (unat n) q \<and> VirtualAllocate pd pa n False s = Some (of_nat q * 4096, s') \<and>
       kspace L s' \<and> pd_ok L s' pd \<and> mapped L q (unat n) (drop_bit 12 pa) False s s') \<or>
    ((\<forall>q \<ge> 256. \<not> free_run L s (unat n) q) \<and> VirtualAllocate pd pa n False s = Some (0, s))"
proof -
  have none: "\<forall>q. 256 \<le> q \<and> q < 256 \<longrightarrow> \<not> free_run L s (unat n) q" by auto
  have "(\<exists>q. first_run L s (unat n) q \<and>
      VirtualAllocate_loop s pd n 0x40000000 0x100000 0x100000 0 = Some (Some (of_nat q * 4096))) \<or>
    ((\<forall>q \<ge> 256. \<not> free_run L s (unat n) q) \<and>
     VirtualAllocate_loop s pd n 0x40000000 0x100000 0x100000 0 = Some None)"
    using VirtualAllocate_loop_kernel [OF assms(1,2) order_refl order_refl, of n] assms(3) none
    by (simp add: word_less_nat_alt)
  then show ?thesis
  proof (elim disjE exE conjE)
    fix q assume q: "first_run L s (unat n) q"
      and loop: "VirtualAllocate_loop s pd n 0x40000000 0x100000 0x100000 0 = Some (Some (of_nat q * 4096))"
    have run: "q + unat n \<le> 262144" "\<And>r. q \<le> r \<Longrightarrow> r < q + unat n \<Longrightarrow> \<not> entry_present (kentry L s r)"
      using q by (auto simp: first_run_def free_run_def)
    have "q < 262144" using run(1) assms(3) by (simp add: word_less_nat_alt)
    note va = page_number_address [OF this]
    have taken: "entry_present (kentry L s r)" if "r \<in> reserved_pages L \<or> r = unat pd div 4096" for r
      using that assms(1,2) by (auto simp: kspace_def pd_ok_def)
    have avoid: "\<forall>p \<in> {q ..< q + unat n}. p \<notin> reserved_pages L \<and> p \<noteq> unat pd div 4096"
      using run(2) taken by (meson atLeastLessThan_iff)
    have "\<exists>s'. VirtualMap (Suc 7) pd (of_nat q * 4096) pa n False s = Some s' \<and> kspace L s' \<and> pd_ok L s' pd \<and>
        mapped L (unat (of_nat q * 4096 :: u32) div 4096) (unat n) (drop_bit 12 pa) False s s'"
      by (rule VirtualMap_kernel [OF assms(1,2)]) (use va run(1) avoid assms(4) in simp_all)
    then show ?thesis
      using q loop va(2) by (auto simp: VirtualAllocate_def MAP_FUEL_def)
  next
    assume "\<forall>q \<ge> 256. \<not> free_run L s (unat n) q"
      and "VirtualAllocate_loop s pd n 0x40000000 0x100000 0x100000 0 = Some None"
    then show ?thesis by (simp add: VirtualAllocate_def)
  qed
qed

subsection \<open>Writes outside the tables\<close>

text \<open>States that agree but for the contents of some frames outside the tables.\<close>

definition frames_differ :: "layout \<Rightarrow> nat set \<Rightarrow> machine \<Rightarrow> machine \<Rightarrow> bool" where
  "frames_differ L F s s' \<longleftrightarrow>
     memManData s' = memManData s \<and> cr3_reg s' = cr3_reg s \<and> paging s' = paging s \<and> interrupts s' = interrupts s \<and>
     F \<inter> table_pages L = {} \<and> (\<forall>a. unat a div 4096 \<notin> F \<longrightarrow> ram s' a = ram s a)"

lemma load32_frames:
  assumes "frames_differ L F s s'" "unat f mod 4096 = 0" "unat f div 4096 \<notin> F" "i < 1024"
  shows "load32 (ram s') (f + 4 * of_nat i) = load32 (ram s) (f + 4 * of_nat i)"
proof (rule load32_cong)
  fix j :: u32 assume "j < 4"
  then have "unat (4 * of_nat i + j) < 4096"
    using assms(4) by (simp add: unat_word_ariths unat_of_nat word_less_nat_alt take_bit_nat_eq_self)
  then have "unat (f + (4 * of_nat i + j)) div 4096 = unat f div 4096"
    by (rule page_offset_any [OF assms(2)])
  then show "ram s' (f + 4 * of_nat i + j) = ram s (f + 4 * of_nat i + j)"
    using assms(1,3) by (simp add: frames_differ_def add.assoc)
qed

lemma dir_at_frames:
  "frames_differ L F s s' \<Longrightarrow> dir_at L s f \<Longrightarrow> unat f div 4096 \<notin> F \<Longrightarrow> dir_at L s' f"
  using load32_frames [of L F s s' f] by (simp add: dir_at_def)

lemma kentry_frames:
  assumes "layout_ok L" "frames_differ L F s s'" "p < 262144"
  shows "kentry L s' p = kentry L s p"
  unfolding kentry_def
proof (rule load32_cong)
  fix j :: u32 assume j: "j < 4"
  obtain q where q: "unat (kernelPageTable L) = q * 4096"
    using assms(1) by (auto simp: layout_ok_def)
  have "unat (kentry_addr L p + j) = unat (kentry_addr L p) + unat j"
    using assms j by (intro aligned4_offset) (simp_all add: kentry_addr_page)
  moreover have "(4 * p + unat j) div 4096 < 256"
    using assms(3) j by (simp add: word_less_nat_alt)
  ultimately have "unat (kentry_addr L p + j) div 4096 \<in> table_pages L"
    using assms(1,3) q by (simp add: kentry_addr_aligned table_pages_def add.assoc)
  then show "ram s' (kentry_addr L p + j) = ram s (kentry_addr L p + j)"
    using assms(2) by (auto simp: frames_differ_def)
qed

lemma unat_frame_base: "unat (push_bit 12 (entry_frame e)) = unat e div 4096 * 4096"
  using unsigned_less [of e, where ?'a = nat]
  by (simp add: push_bit_12 entry_frame_def unat_word_ariths unat_drop_12)

lemma kspace_frames:
  assumes "kspace L s" "frames_differ L F s s'" "unat (cr3_reg s) div 4096 \<notin> F"
  shows "kspace L s'"
proof -
  have L: "layout_ok L" using assms(1) by (simp add: kspace_def)
  have "q < 262144" if "q \<in> reserved_pages L" for q
    using that L by (auto simp: reserved_pages_def table_pages_def layout_ok_def)
  then show ?thesis
    using assms L dir_at_frames [OF assms(2)] kentry_frames [OF L assms(2)]
    by (auto simp: kspace_def frames_differ_def unat_frame_base)
qed

lemma pd_ok_frames:
  assumes "layout_ok L" "pd_ok L s pd" "frames_differ L F s s'"
    and "unat (kentry L s (unat pd div 4096)) div 4096 \<notin> F"
  shows "pd_ok L s' pd"
proof -
  have "unat pd < 0x40000000" using assms(2) by (simp add: pd_ok_def)
  then have "unat pd div 4096 < 262144" by simp
  then show ?thesis
    using assms kentry_frames [OF assms(1,3)] dir_at_frames [OF assms(3)]
    by (simp add: pd_ok_def unat_frame_base)
qed

text \<open>The bytes of a run of pages mapped to a run of frames.\<close>

lemma xlate_range:
  assumes K: "kspace L t" and q: "q + n \<le> 262144" and i: "i < n * 4096"
    and map: "\<forall>k < n. entry_present (kentry L t (q + k)) \<and> entry_frame (kentry L t (q + k)) = fr + of_nat k"
  shows "xlate t (of_nat q * 4096 + of_nat i) = Some (fr * 4096 + of_nat i)"
proof -
  define k j where "k = i div 4096" and "j = i mod 4096"
  have kj: "i = k * 4096 + j" "j < 4096" "k < n" using i by (auto simp: k_def j_def)
  have "q + k < 262144" using q kj(3) by simp
  note va = page_number_address [OF this]
  have j: "unat (of_nat j :: u32) < 4096" using kj(2) by (simp add: unat_of_nat take_bit_nat_eq_self)
  define b g where "b = (of_nat (q + k) * 4096 :: u32)" and "g = fr + of_nat k"
  have b: "unat b mod 4096 = 0" "unat b < 0x40000000" "unat b div 4096 = q + k"
    using va by (simp_all add: b_def)
  note off = page_offset [OF b(1,2) j] frame_or_offset [OF b(1) j, of g]
  have "entry_present (kentry L t (q + k))" "entry_frame (kentry L t (q + k)) = g"
    using map kj(3) by (simp_all add: g_def)
  with off b(3) have "xlate t (b + of_nat j) = Some (g * 4096 + of_nat j)"
    using xlate_kernel [OF K off(2)] by simp
  then have "xlate t (of_nat (q + k) * 4096 + of_nat j) = Some ((fr + of_nat k) * 4096 + of_nat j)"
    by (simp only: b_def g_def)
  then show ?thesis by (simp add: kj(1) algebra_simps)
qed

lemma unat_frame_byte:
  assumes "unat (fr :: u32) + n \<le> 1048576" and "i < n * 4096"
  shows "unat (fr * 4096 + of_nat i) = unat fr * 4096 + i"
proof -
  have "unat fr * 4096 + i < 4294967296" using assms by linarith
  then show ?thesis using assms by (simp add: unat_word_ariths unat_of_nat take_bit_nat_eq_self)
qed

text \<open>Clearing a range of mapped pages clears the frames behind it.\<close>

lemma vmemset_kernel:
  assumes K: "kspace L s" and q: "q + n \<le> 262144" and fr: "unat fr + n \<le> 1048576"
    and map: "\<forall>k < n. entry_present (kentry L s (q + k)) \<and> entry_frame (kentry L s (q + k)) = fr + of_nat k"
    and F: "F = {unat fr ..< unat fr + n}" "F \<inter> table_pages L = {}" "unat (cr3_reg s) div 4096 \<notin> F"
  shows "\<exists>s'. vmemset (of_nat q * 4096) 0 (of_nat n * 4096) s = Some s' \<and> frames_differ L F s s' \<and>
    (\<forall>i < n * 4096. xlate s' (of_nat q * 4096 + of_nat i) = Some (fr * 4096 + of_nat i)) \<and>
    (\<forall>i < n * 4096. ram s' (fr * 4096 + of_nat i) = 0)"
proof -
  have L: "layout_ok L" using K by (simp add: kspace_def)
  have xl: "xlate t (of_nat q * 4096 + of_nat i) = Some (fr * 4096 + of_nat i)"
    if "frames_differ L F s t" and "i < n * 4096" for t i
    using map q kentry_frames [OF L that(1)] by (intro xlate_range [OF kspace_frames [OF K that(1) F(3)] q that(2)]) simp
  have n: "unat (of_nat n * 4096 :: u32) = n * 4096"
    using q by (simp add: unat_word_ariths unat_of_nat take_bit_nat_eq_self)
  have frame: "unat (fr * 4096 + of_nat i) div 4096 \<in> F \<and> unat (fr * 4096 + of_nat i) = unat fr * 4096 + i"
    if "i < n * 4096" for i
    using unat_frame_byte [OF fr that] that by (simp add: F(1))
  have "\<exists>s'. for_rangeM 0 (of_nat n * 4096) (\<lambda>i. vstore8 (of_nat q * 4096 + i) 0) s = Some s' \<and>
      (frames_differ L F s s' \<and> (\<forall>i < unat (of_nat n * 4096 :: u32). ram s' (fr * 4096 + of_nat i) = 0))"
  proof (rule for_rangeM_inv [where P = "\<lambda>m t. frames_differ L F s t \<and> (\<forall>i < m. ram t (fr * 4096 + of_nat i) = 0)"])
    show "frames_differ L F s s \<and> (\<forall>i < 0. ram s (fr * 4096 + of_nat i) = 0)"
      using F(2) by (simp add: frames_differ_def)
  next
    fix m t assume m: "m < unat (of_nat n * 4096 :: u32)"
      and inv: "frames_differ L F s t \<and> (\<forall>i < m. ram t (fr * 4096 + of_nat i) = 0)"
    have "m < n * 4096" using m n by simp
    then show "\<exists>t'. vstore8 (of_nat q * 4096 + of_nat m) 0 t = Some t' \<and>
        frames_differ L F s t' \<and> (\<forall>i < Suc m. ram t' (fr * 4096 + of_nat i) = 0)"
      using xl [of t m] inv frame [of m] by (auto simp: vstore8_def frames_differ_def less_Suc_eq)
  qed
  then show ?thesis
    using xl n by (auto simp: vmemset_def)
qed

subsection \<open>Allocation\<close>

text \<open>
  What holds between calls of the memory manager: the kernel's address space is set up, page 0 is
  in use, and so are the frames of the tables, of the current directory and of the directory the
  request names; the search of the physical allocator for \<open>n\<close> pages stays inside its bitmap.
\<close>

definition mm_inv :: "layout \<Rightarrow> addr \<Rightarrow> machine \<Rightarrow> bool" where
  "mm_inv L pd s \<longleftrightarrow> kspace L s \<and> pd_ok L s pd \<and>
     insert 0 (table_pages L) \<subseteq> used_pages (memManData s) \<and>
     unat (cr3_reg s) div 4096 \<in> used_pages (memManData s) \<and>
     unat (kentry L s (unat pd div 4096)) div 4096 \<in> used_pages (memManData s)"

text \<open>
  The outcome of a successful allocation of \<open>n\<close> pages: the pages from \<open>q\<close> on were the lowest free
  run of addresses and now translate, byte for byte, to the frames from \<open>f\<close> on, which were free,
  are now in use and hold zeros. No other kernel entry and no other byte outside the page tables
  changed.
\<close>

definition allocated :: "layout \<Rightarrow> nat \<Rightarrow> nat \<Rightarrow> nat \<Rightarrow> machine \<Rightarrow> machine \<Rightarrow> bool" where
  "allocated L n q f s s' \<longleftrightarrow>
     first_run L s n q \<and> f + n \<le> 1048568 \<and> {f ..< f + n} \<inter> used_pages (memManData s) = {} \<and>
     used_pages (memManData s') = used_pages (memManData s) \<union> {f ..< f + n} \<and>
     (\<forall>i < n * 4096. xlate s' (of_nat q * 4096 + of_nat i) = Some (of_nat f * 4096 + of_nat i) \<and>
        ram s' (of_nat f * 4096 + of_nat i) = 0) \<and>
     (\<forall>k < n. entry_present (kentry L s' (q + k)) \<and> entry_frame (kentry L s' (q + k)) = of_nat (f + k)) \<and>
     (\<forall>r < 262144. r \<notin> {q ..< q + n} \<longrightarrow> kentry L s' r = kentry L s r) \<and>
     (\<forall>a. unat a div 4096 \<notin> table_pages L \<union> {f ..< f + n} \<longrightarrow> ram s' a = ram s a) \<and>
     TotalMemory (memManData s') = TotalMemory (memManData s) \<and> cr3_reg s' = cr3_reg s \<and> interrupts s'"

lemma entry_set_entry [simp]:
  "entry_present (set_entry e u fr)"
  "unat fr < 1048576 \<Longrightarrow> entry_frame (set_entry e u fr) = fr"
proof -
  show "entry_present (set_entry e u fr)"
    by (simp add: entry_present_def set_entry_def bit_simps)
  assume "unat fr < 1048576"
  then have fr: "take_bit 20 fr = fr"
    by (simp add: word_unat_eq_iff unsigned_take_bit_eq take_bit_nat_eq_self)
  have small: "\<not> bit (4088 :: u32) n" "\<not> bit (3 :: u32) n" "\<not> bit (4 :: u32) n" if "12 \<le> n" for n
  proof -
    have "(4088 :: u32) = take_bit 12 4088" "(3 :: u32) = take_bit 12 3" "(4 :: u32) = take_bit 12 4" by simp_all
    then show "\<not> bit (4088 :: u32) n" "\<not> bit (3 :: u32) n" "\<not> bit (4 :: u32) n"
      using that by (metis bit_take_bit_iff not_le)+
  qed
  show "entry_frame (set_entry e u fr) = fr"
  proof (rule bit_word_eqI)
    fix m assume "m < LENGTH(32)"
    have high: "\<not> bit fr m" if "20 \<le> m"
      using fr that by (metis bit_take_bit_iff not_le)
    show "bit (entry_frame (set_entry e u fr)) m = bit fr m"
      using small [of "12 + m"] high
      by (cases "m < 20") (simp_all add: entry_frame_def set_entry_def bit_simps)
  qed
qed

lemma num_pages_bounds:
  assumes "0 < sz" and "sz \<le> 0x40000000"
  shows "0 < num_pages sz" and "unat sz \<le> unat (num_pages sz) * 4096" and "unat (num_pages sz) \<le> 262144"
proof -
  define z where "z = unat sz"
  have z: "0 < z" "z \<le> 0x40000000"
    using assms by (simp_all add: z_def word_less_nat_alt word_le_nat_alt)
  have top: "z div 4096 < 262144" if "z mod 4096 \<noteq> 0"
  proof -
    have "z \<noteq> 0x40000000" using that by auto
    then show ?thesis using z(2) by simp
  qed
  have m: "unat (sz mod 4096) = z mod 4096" by (simp add: z_def unat_mod)
  have "unat (sz + 4096) = z + 4096" using z(2) by (simp add: z_def unat_word_ariths)
  then have "unat (PAGE_ALIGN sz) = z + 4096 - z mod 4096"
    unfolding PAGE_ALIGN_def using m by (simp add: unat_sub_if' word_le_nat_alt)
  also have "\<dots> = (z div 4096 + 1) * 4096"
    using minus_mod_eq_div_mult [of z 4096] mod_less_eq_dividend [of z 4096]
    by (simp add: Nat.diff_add_assoc2)
  finally have "unat (num_pages sz) = (if z mod 4096 = 0 then z div 4096 else z div 4096 + 1)"
    using m by (simp add: num_pages_def unat_div z_def unat_eq_0 [symmetric])
  then show "0 < num_pages sz" and "unat sz \<le> unat (num_pages sz) * 4096" and "unat (num_pages sz) \<le> 262144"
    using z top div_mult_mod_eq [of z 4096] by (auto simp: word_less_nat_alt z_def split: if_splits)
qed

lemma mapped_entries:
  assumes "mapped L q n fr False s s'" and "q + n \<le> 262144" and "unat fr + n \<le> 1048576" and "k < n"
  shows "entry_present (kentry L s' (q + k)) \<and> entry_frame (kentry L s' (q + k)) = fr + of_nat k"
proof -
  have "unat (of_nat k :: u32) = k"
    using assms(3,4) by (simp add: unat_of_nat take_bit_nat_eq_self)
  then have "unat (fr + of_nat k) < 1048576"
    using assms(3,4) by (simp add: unat_word_ariths)
  then show ?thesis using assms by (simp add: mapped_def)
qed

lemma regs_irrelevant:
  assumes "ram t = ram s" "cr3_reg t = cr3_reg s" "paging t = paging s"
  shows "kspace L t = kspace L s" "pd_ok L t pd = pd_ok L s pd" "kentry L t r = kentry L s r"
    "first_run L t m q = first_run L s m q" "free_run L t m q = free_run L s m q"
  using assms by (simp_all add: kspace_def pd_ok_def dir_at_def kentry_def first_run_def free_run_def)

text \<open>The two last steps of an allocation: the pages are mapped, then cleared.\<close>

lemma map_and_clear:
  assumes inv: "mm_inv L pd s" and n: "0 < n" "unat n \<le> 262144"
    and F: "{f ..< f + unat n} \<inter> used_pages (memManData s) = {}" "f + unat n \<le> 1048568"
    and s2: "ram s2 = ram s" "cr3_reg s2 = cr3_reg s" "paging s2 = paging s"
      "used_pages (memManData s2) = used_pages (memManData s) \<union> {f ..< f + unat n}"
      "TotalMemory (memManData s2) = TotalMemory (memManData s)"
    and run: "first_run L s (unat n) q" and m: "mapped L q (unat n) (of_nat f) False s2 s3"
    and K3: "kspace L s3" "pd_ok L s3 pd"
  shows "\<exists>s'. vmemset (of_nat q * 4096) 0 (n * 4096) (atomicDisable s3) = Some s' \<and>
    allocated L (unat n) q f s s' \<and> mm_inv L pd s'"
proof -
  define t where "t = atomicDisable s3"
  have t: "ram t = ram s3" "cr3_reg t = cr3_reg s3" "paging t = paging s3" "memManData t = memManData s3" "interrupts t"
    by (simp_all add: t_def atomicDisable_def)
  let ?F = "{f ..< f + unat n}"
  have L: "layout_ok L" using K3(1) by (simp add: kspace_def)
  have Kt: "kspace L t" "pd_ok L t pd" "\<And>r. kentry L t r = kentry L s3 r"
    using K3 regs_irrelevant [OF t(1-3)] by simp_all
  have f: "unat (of_nat f :: u32) = f"
    using F(2) by (simp add: unat_of_nat take_bit_nat_eq_self)
  have q: "q + unat n \<le> 262144" using run by (simp add: first_run_def free_run_def)
  have apart: "?F \<inter> table_pages L = {}" "unat (cr3_reg t) div 4096 \<notin> ?F"
      "unat (kentry L s (unat pd div 4096)) div 4096 \<notin> ?F"
    using inv F(1) m s2(2) t(2) by (auto simp: mm_inv_def mapped_def)
  have ents: "\<forall>k < unat n. entry_present (kentry L t (q + k)) \<and> entry_frame (kentry L t (q + k)) = of_nat f + of_nat k"
    using mapped_entries [OF m q] F(2) f Kt(3) by simp
  from vmemset_kernel [OF Kt(1) q _ ents, of ?F] f F(2) apart(1,2)
  obtain s' where s': "vmemset (of_nat q * 4096) 0 (n * 4096) t = Some s'" "frames_differ L ?F t s'"
      "\<forall>i < unat n * 4096. xlate s' (of_nat q * 4096 + of_nat i) = Some (of_nat f * 4096 + of_nat i)"
      "\<forall>i < unat n * 4096. ram s' (of_nat f * 4096 + of_nat i) = 0"
    by auto
  have entries: "kentry L s' r = kentry L s r" if "r < 262144" "r \<notin> {q ..< q + unat n}" for r
    using kentry_frames [OF L s'(2) that(1)] Kt(3) m that regs_irrelevant(3) [OF s2(1-3), of L] by (auto simp: mapped_def)
  have "unat pd < 0x40000000" and present: "entry_present (kentry L s (unat pd div 4096))"
    using inv by (simp_all add: mm_inv_def pd_ok_def)
  then have pd: "unat pd div 4096 < 262144" by simp
  have pd_entry: "kentry L s' (unat pd div 4096) = kentry L s (unat pd div 4096)"
    using present run by (intro entries [OF pd]) (auto simp: first_run_def free_run_def)
  have dir: "kentry L t (unat pd div 4096) = kentry L s (unat pd div 4096)"
    using pd_entry kentry_frames [OF L s'(2) pd] by simp
  have "kspace L s'" by (rule kspace_frames [OF Kt(1) s'(2) apart(2)])
  moreover have "pd_ok L s' pd"
    using pd_ok_frames [OF L Kt(2) s'(2)] apart(3) dir by simp
  moreover have fields: "memManData s' = memManData s2" "cr3_reg s' = cr3_reg s" "interrupts s'"
    using s'(2) m s2(2) t by (simp_all add: frames_differ_def mapped_def)
  ultimately have inv': "mm_inv L pd s'"
    using inv pd_entry s2(4) by (auto simp: mm_inv_def)
  have "ram s' a = ram s a" if "unat a div 4096 \<notin> table_pages L \<union> ?F" for a
    using that s'(2) m s2(1) t(1) by (simp add: frames_differ_def mapped_def)
  moreover have "\<forall>k < unat n. entry_present (kentry L s' (q + k)) \<and> entry_frame (kentry L s' (q + k)) = of_nat (f + k)"
    using ents kentry_frames [OF L s'(2)] q by simp
  ultimately have "allocated L (unat n) q f s s'"
    unfolding allocated_def using run F s2(4,5) fields s'(3,4) entries by simp
  with inv' show ?thesis using s'(1) unfolding t_def by blast
qed

lemma memoryAllocate_kernel:
  assumes inv: "mm_inv L pd s" and sz: "0 < sz" "sz \<le> 0x40000000"
    and T: "unat (TotalMemory (memManData s) div PAGE_SIZE) + unat (num_pages sz) \<le> 1048568"
  shows "(\<exists>q f s'. memoryAllocate pd sz False s = Some (of_nat q * 4096, s') \<and>
            allocated L (unat (num_pages sz)) q f s s' \<and> mm_inv L pd s') \<or>
    ((\<forall>q \<ge> 256. \<not> free_run L s (unat (num_pages sz)) q) \<and>
       memoryAllocate pd sz False s = Some (0, s\<lparr>interrupts := True\<rparr>)) \<or>
    ((\<forall>q < unat (TotalMemory (memManData s) div PAGE_SIZE).
         {q ..< q + unat (num_pages sz)} \<inter> used_pages (memManData s) \<noteq> {}) \<and>
       memoryAllocate pd sz False s = Some (0, s\<lparr>interrupts := False\<rparr>))"
proof -
  let ?d = "memManData s" and ?n = "num_pages sz"
  note n = num_pages_bounds [OF sz]
  have zero: "0 \<in> used_pages ?d" using inv by (simp add: mm_inv_def)
  have K: "kspace L s" "pd_ok L s pd" using inv by (simp_all add: mm_inv_def)
  obtain pa d where alloc: "physicalAllocate ?n ?d = Some (pa, d)"
    using phys.alloc_total [OF zero T n(1)] by blast
  define s2 where "s2 = (atomicEnable s)\<lparr>memManData := d\<rparr>"
  have s2: "ram s2 = ram s" "cr3_reg s2 = cr3_reg s" "paging s2 = paging s" "memManData s2 = d"
    by (simp_all add: s2_def atomicEnable_def)
  note same = regs_irrelevant [OF s2(1-3)]
  have K2: "kspace L s2" "pd_ok L s2 pd" using K same by simp_all
  have unfolded: "memoryAllocate pd sz False s = (if 0 < pa then do {
          (virtualAddress, s3) \<leftarrow> VirtualAllocate pd pa ?n False s2;
          if virtualAddress = 0 then do {
            d' \<leftarrow> physicalFree pa ?n (memManData s3);
            Some (0, atomicDisable (s3\<lparr>memManData := d'\<rparr>))
          } else do {
            s4 \<leftarrow> vmemset virtualAddress 0 (?n * PAGE_SIZE) (atomicDisable s3);
            Some (virtualAddress, s4)
          }
        } else Some (0, s2))"
    using alloc by (simp add: memoryAllocate_def Let_def atomicEnable_def s2_def)
  show ?thesis
    using T alloc
  proof (cases rule: phys_alloc_cases)
    case (1 f)
    then have "f \<noteq> 0" using first_fit_not_0 zero n(1) by blast
    then have pos: "0 < pa" "pa \<noteq> 0" using 1(3) by (auto simp: word_less_nat_alt)
    have pg: "unat pa div 4096 = f" "drop_bit 12 pa = of_nat f"
      using 1(3) 1(4) by (simp_all add: word_unat_eq_iff unat_drop_12 unat_of_nat take_bit_nat_eq_self)
    have F: "{f ..< f + unat ?n} \<inter> used_pages ?d = {}" "used_pages d = used_pages ?d \<union> {f ..< f + unat ?n}"
        "TotalMemory d = TotalMemory ?d"
      using 1(1,5) by (simp_all add: first_fit_def range_set_def)
    have "unat pa div 4096 + unat ?n \<le> 1048576" using pg(1) 1(4) by simp
    from VirtualAllocate_kernel [OF K2 n(1) this] show ?thesis
    proof (elim disjE exE conjE)
      fix q s3
      assume q: "first_run L s2 (unat ?n) q" "VirtualAllocate pd pa ?n False s2 = Some (of_nat q * 4096, s3)"
        "kspace L s3" "pd_ok L s3 pd" "mapped L q (unat ?n) (drop_bit 12 pa) False s2 s3"
      have "256 \<le> q" "q + unat ?n \<le> 262144" using q(1) by (simp_all add: first_run_def free_run_def)
      then have "q < 262144" using n(1) by (simp add: word_less_nat_alt)
      then have nz: "(of_nat q * 4096 :: u32) \<noteq> 0"
        using page_number_address(1) \<open>256 \<le> q\<close> by (metis mult_is_0 not_numeral_le_zero unat_0 zero_neq_numeral)
      obtain s' where "vmemset (of_nat q * 4096) 0 (?n * 4096) (atomicDisable s3) = Some s'"
          "allocated L (unat ?n) q f s s'" "mm_inv L pd s'"
        using map_and_clear [OF inv n(1,3) F(1) 1(4) s2(1-3), of q s3] q s2(4) F(2,3) pg same by auto
      then show ?thesis using q(2) nz pos unfolding unfolded by auto
    next
      assume none: "\<forall>q \<ge> 256. \<not> free_run L s2 (unat ?n) q" "VirtualAllocate pd pa ?n False s2 = Some (0, s2)"
      have "physicalFree pa ?n d = Some ?d"
        by (rule phys.release_used [OF zero T n(1) alloc pos(2)])
      then show ?thesis
        using none pos same unfolding unfolded by (simp add: s2(4)) (simp add: s2_def atomicEnable_def atomicDisable_def)
    qed
  next
    case 2
    then show ?thesis unfolding unfolded by (simp add: s2_def atomicEnable_def)
  qed
qed

subsection \<open>Room\<close>

text \<open>There are \<open>n\<close> free addresses in a row and \<open>n\<close> free frames in a row.\<close>

definition memory_room :: "layout \<Rightarrow> nat \<Rightarrow> machine \<Rightarrow> bool" where
  "memory_room L n s \<longleftrightarrow> (\<exists>q \<ge> 256. free_run L s n q) \<and>
     (\<exists>f. f + n \<le> unat (TotalMemory (memManData s) div PAGE_SIZE) \<and> {f ..< f + n} \<inter> used_pages (memManData s) = {})"

lemma memory_room_mono:
  assumes "memory_room L n s" "m \<le> n"
  shows "memory_room L m s"
proof -
  obtain q f where q: "256 \<le> q" "free_run L s n q" and f: "f + n \<le> unat (TotalMemory (memManData s) div PAGE_SIZE)"
      "{f ..< f + n} \<inter> used_pages (memManData s) = {}"
    using assms(1) by (auto simp: memory_room_def)
  have "free_run L s m q" using q(2) assms(2) by (auto simp: free_run_def)
  moreover have "{f ..< f + m} \<subseteq> {f ..< f + n}" using assms(2) by auto
  then have "{f ..< f + m} \<inter> used_pages (memManData s) = {}" using f(2) by blast
  moreover have "f + m \<le> unat (TotalMemory (memManData s) div PAGE_SIZE)" using f(1) assms(2) by simp
  ultimately show ?thesis using q(1) unfolding memory_room_def by blast
qed

lemma room_allocates:
  assumes inv: "mm_inv L pd s" and T: "unat (TotalMemory (memManData s) div PAGE_SIZE) \<le> 786424"
    and sz: "0 < sz" "sz \<le> 0x40000000" and room: "memory_room L (unat (num_pages sz)) s"
  shows "\<exists>q f s'. memoryAllocate pd sz False s = Some (of_nat q * 4096, s') \<and>
    allocated L (unat (num_pages sz)) q f s s' \<and> mm_inv L pd s' \<and> 256 \<le> q \<and> q < 262144 \<and> of_nat q * 4096 \<noteq> (0 :: u32)"
proof -
  let ?n = "unat (num_pages sz)"
  have n: "1 \<le> ?n" "?n \<le> 262144" using num_pages_bounds [OF sz] by (simp_all add: word_less_nat_alt)
  obtain f where f: "f + ?n \<le> unat (TotalMemory (memManData s) div PAGE_SIZE)" "{f ..< f + ?n} \<inter> used_pages (memManData s) = {}"
    using room by (auto simp: memory_room_def)
  then have "f < unat (TotalMemory (memManData s) div PAGE_SIZE)" using n(1) by linarith
  moreover have "unat (TotalMemory (memManData s) div PAGE_SIZE) + ?n \<le> 1048568" using T n(2) by linarith
  ultimately obtain q f' s' where s': "memoryAllocate pd sz False s = Some (of_nat q * 4096, s')" "allocated L ?n q f' s s'" "mm_inv L pd s'"
    using memoryAllocate_kernel [OF inv sz] f(2) room unfolding memory_room_def by blast
  then have q: "256 \<le> q" "q < 262144" using n(1) by (auto simp: allocated_def first_run_def free_run_def)
  then have "unat (of_nat q * 4096 :: u32) \<noteq> 0" using page_number_address(1) [of q] by simp
  then have "of_nat q * 4096 \<noteq> (0 :: u32)" by (metis unat_0)
  then show ?thesis using s' q by blast
qed

text \<open>An allocation takes its pages from one end of the free addresses, and leaves one frame of the run.\<close>

lemma room_left:
  assumes room: "memory_room L (Suc n) s" and al: "allocated L n q f s s'" and T: "unat (TotalMemory (memManData s) div PAGE_SIZE) \<le> 786424"
  shows "memory_room L 1 s'"
proof -
  obtain v g where v: "256 \<le> v" "free_run L s (Suc n) v" and g: "g + Suc n \<le> unat (TotalMemory (memManData s) div PAGE_SIZE)"
      "{g ..< g + Suc n} \<inter> used_pages (memManData s) = {}"
    using room by (auto simp: memory_room_def)
  have "free_run L s n v" using v(2) by (simp add: free_run_def)
  then have "q \<le> v" using al v(1) unfolding allocated_def first_run_def by (meson not_le)
  then have "kentry L s' (v + n) = kentry L s (v + n)" using al v(2) by (simp add: allocated_def free_run_def)
  moreover have "v + n < 262144" "\<not> entry_present (kentry L s (v + n))" using v(2) by (auto simp: free_run_def)
  ultimately have run: "free_run L s' 1 (v + n)" by (simp add: free_run_def less_Suc_eq)
  have "\<exists>r \<in> {g ..< g + Suc n}. r \<notin> {f ..< f + n}"
  proof (cases "f \<le> g")
    case True
    then show ?thesis by (intro bexI [of _ "g + n"]) auto
  qed (auto intro!: bexI [of _ g])
  then obtain r where r: "r \<in> {g ..< g + Suc n}" "r \<notin> {f ..< f + n}" by blast
  then have "r \<notin> used_pages (memManData s')" using al g(2) by (auto simp: allocated_def)
  then have "{r ..< r + 1} \<inter> used_pages (memManData s') = {}" by auto
  moreover have "r + 1 \<le> unat (TotalMemory (memManData s') div PAGE_SIZE)" using r(1) g(1) al by (auto simp: allocated_def)
  ultimately show ?thesis using run v(1) unfolding memory_room_def by (meson trans_le_add1)
qed

subsection \<open>Freeing\<close>

lemma VirtualFree_kernel:
  assumes "kspace L s" "pd_ok L s pd" "p < 262144"
  shows "VirtualFree pd (of_nat p * 4096) 1 s = Some (put_entry L p 0 s)"
proof -
  note va = page_number_address [OF assms(3)]
  have "unat (of_nat p * 4096 + 4096 :: u32) = p * 4096 + 4096"
    using va(1) assms(3) by (simp add: unat_word_ariths)
  then have less: "(of_nat p * 4096 :: u32) < of_nat p * 4096 + 4096"
    using va(1) by (simp add: word_less_nat_alt)
  have "VirtualFree_loop pd (of_nat p * 4096 + 4096) (of_nat p * 4096 + 4096) t = Some t" for t
    by (simp add: VirtualFree_loop.simps)
  then show ?thesis
    using walk(2) [OF assms(1,2) va(4)] va(2) vload32_kentry(2) [OF assms(1,3)] less
    by (simp add: VirtualFree_def VirtualFree_loop.simps [of _ "of_nat p * 4096"] put_entry_def)
qed

text \<open>The state after the first \<open>k\<close> pages of a block were freed.\<close>

definition freed :: "layout \<Rightarrow> nat \<Rightarrow> nat \<Rightarrow> nat \<Rightarrow> machine \<Rightarrow> machine \<Rightarrow> bool" where
  "freed L q f k s s' \<longleftrightarrow>
     used_pages (memManData s') = used_pages (memManData s) - {f ..< f + k} \<and>
     TotalMemory (memManData s') = TotalMemory (memManData s) \<and> cr3_reg s' = cr3_reg s \<and>
     (\<forall>r < 262144. kentry L s' r = (if q \<le> r \<and> r < q + k then 0 else kentry L s r)) \<and>
     (\<forall>a. unat a div 4096 \<notin> table_pages L \<longrightarrow> ram s' a = ram s a)"

definition freeing :: "layout \<Rightarrow> addr \<Rightarrow> nat \<Rightarrow> nat \<Rightarrow> machine \<Rightarrow> nat \<Rightarrow> machine \<Rightarrow> bool" where
  "freeing L pd q f s k t \<longleftrightarrow> kspace L t \<and> pd_ok L t pd \<and> freed L q f k s t"

lemma memoryFree_step:
  assumes P: "freeing L pd q f s k t" and q: "q + k < 262144" "q + k \<notin> insert (unat pd div 4096) (reserved_pages L)"
    and f: "f + k < 1048568"
    and ents: "entry_present (kentry L s (q + k))" "entry_frame (kentry L s (q + k)) = of_nat (f + k)"
    and va: "va = of_nat (q + k) * 4096"
  shows "\<exists>t' p d. IsPagePresent t pd va = Some True \<and> GetPhysicalAddress t pd va = Some p \<and>
    physicalFree p 1 (memManData t) = Some d \<and> VirtualFree pd va 1 (t\<lparr>memManData := d\<rparr>) = Some t' \<and>
    freeing L pd q f s (Suc k) t'"
proof -
  note num = page_number_address [OF q(1)]
  have L: "layout_ok L" using P by (simp add: freeing_def kspace_def)
  have e: "kentry L t (q + k) = kentry L s (q + k)" using P q(1) by (simp add: freeing_def freed_def)
  have low: "(of_nat (q + k) * 4096 :: u32) AND 0xFFF = 0"
    using num(1) by (simp add: word_unat_eq_iff unat_low_bits)
  have fk: "unat (of_nat (f + k) * 4096 :: u32) div 4096 = f + k"
    using f by (simp add: unat_word_ariths unat_of_nat take_bit_nat_eq_self)
  obtain d where d: "physicalFree (of_nat (f + k) * 4096) 1 (memManData t) = Some d"
      "range_set (f + k) 1 False (memManData t) d"
    using physicalFree_range [of "of_nat (f + k) * 4096" 1 "memManData t"] fk f by auto
  define t1 where "t1 = t\<lparr>memManData := d\<rparr>"
  have t1: "ram t1 = ram t" "cr3_reg t1 = cr3_reg t" "paging t1 = paging t" "memManData t1 = d"
    by (simp_all add: t1_def)
  have K1: "kspace L t1" "pd_ok L t1 pd" and same: "\<And>r. kentry L t1 r = kentry L t r"
    using regs_irrelevant [OF t1(1-3)] P by (simp_all add: freeing_def)
  have "IsPagePresent t pd va = Some True" "GetPhysicalAddress t pd va = Some (of_nat (f + k) * 4096)"
    "VirtualFree pd va 1 t1 = Some (put_entry L (q + k) 0 t1)"
    using IsPagePresent_kernel [of L t pd va] GetPhysicalAddress_kernel [of L t pd va] P num ents e low VirtualFree_kernel [OF K1 q(1)]
    unfolding va by (simp_all add: freeing_def)
  moreover have "freeing L pd q f s (Suc k) (put_entry L (q + k) 0 t1)"
    using kspace_put_entry [OF K1(1) q(1)] pd_ok_put_entry [OF L K1(2) q(1)] P d(2) same t1 L q
    by (auto simp: freeing_def freed_def kentry_put_entry ram_put_entry range_set_def less_Suc_eq)
  ultimately show ?thesis using d(1) unfolding t1_def by blast
qed

lemma memoryFree_kernel:
  assumes inv: "mm_inv L pd s" and q: "q + n \<le> 262144" and f: "f + n \<le> 1048568"
    and ents: "\<forall>k < n. entry_present (kentry L s (q + k)) \<and> entry_frame (kentry L s (q + k)) = of_nat (f + k)"
    and avoid: "{q ..< q + n} \<inter> insert (unat pd div 4096) (reserved_pages L) = {}"
    and safe: "{f ..< f + n} \<inter> insert 0 (insert (unat (cr3_reg s) div 4096)
        (insert (unat (kentry L s (unat pd div 4096)) div 4096) (table_pages L))) = {}"
  shows "\<exists>s'. memoryFree pd (of_nat q * 4096) (of_nat n * 4096) s = Some s' \<and> freed L q f n s s' \<and> mm_inv L pd s' \<and>
    interrupts s'"
proof -
  let ?P = "\<lambda>k t. freeing L pd q f s k t"
  let ?body = "\<lambda>i s. do {
          let virtual_address = of_nat q * 4096 + i * PAGE_SIZE;
          present \<leftarrow> IsPagePresent s pd virtual_address;
          if present then do {
            p \<leftarrow> GetPhysicalAddress s pd virtual_address;
            d \<leftarrow> physicalFree p 1 (memManData s);
            VirtualFree pd virtual_address 1 (s\<lparr>memManData := d\<rparr>)
          } else Some s
        }"
  have step: "\<exists>t'. ?body (of_nat k) t = Some t' \<and> ?P (Suc k) t'" if k: "k < n" and P: "?P k t" for k t
  proof -
    have "q + k \<in> {q ..< q + n}" using k by simp
    then have "q + k \<notin> insert (unat pd div 4096) (reserved_pages L)" using avoid by blast
    then show ?thesis
      using memoryFree_step [OF P _ _ _ _ _ refl] q f k ents by (auto simp: Let_def algebra_simps)
  qed
  have n: "unat (of_nat n * 4096 :: u32) div 4096 = n"
    using q by (simp add: unat_word_ariths unat_of_nat take_bit_nat_eq_self)
  then have "unat (of_nat n * 4096 div PAGE_SIZE :: u32) = n" by (simp add: unat_div)
  moreover have "?P 0 (atomicEnable s)"
    using inv regs_irrelevant [of "atomicEnable s" s] by (auto simp: mm_inv_def freeing_def freed_def atomicEnable_def)
  ultimately obtain t where t: "for_rangeM 0 (of_nat n * 4096 div PAGE_SIZE) ?body (atomicEnable s) = Some t" "?P n t"
    using for_rangeM_inv [of ?P "atomicEnable s" "of_nat n * 4096 div PAGE_SIZE" ?body] step by auto
  define s' where "s' = atomicDisable t"
  have s': "ram s' = ram t" "cr3_reg s' = cr3_reg t" "paging s' = paging t" "memManData s' = memManData t" "interrupts s'"
    by (simp_all add: s'_def atomicDisable_def)
  have "freed L q f n s s'"
    using t(2) s' regs_irrelevant(3) [OF s'(1-3)] by (simp add: freeing_def freed_def)
  moreover have "unat pd < 0x40000000" using inv by (simp add: mm_inv_def pd_ok_def)
  then have "unat pd div 4096 < 262144" by simp
  then have "kentry L s' (unat pd div 4096) = kentry L s (unat pd div 4096)"
    using calculation avoid by (auto simp: freed_def)
  then have "mm_inv L pd s'"
    using inv t(2) calculation safe regs_irrelevant [OF s'(1-3)] unfolding mm_inv_def
    by (simp add: freeing_def freed_def) blast
  ultimately show ?thesis
    using t(1) s'(5) by (simp add: memoryFree_def s'_def)
qed

subsection \<open>User page directories\<close>

lemma kernel_table_frame:
  assumes "layout_ok L" and "k < 256"
  shows "(kernelPageTable L + of_nat k * 4096) div 4096 = drop_bit 12 (kernelPageTable L) + of_nat k"
    and "unat (drop_bit 12 (kernelPageTable L) + of_nat k) < 1048576"
proof -
  have lt: "unat (kernelPageTable L) div 4096 + k < 1048576"
  proof -
    have "unat (kernelPageTable L) div 4096 \<le> 1072693248 div 4096"
      using assms(1) by (intro div_le_mono) (simp add: layout_ok_def)
    then show ?thesis using assms(2) by simp
  qed
  show "unat (drop_bit 12 (kernelPageTable L) + of_nat k) < 1048576"
    using lt by (simp add: unat_word_ariths unat_drop_12 unat_of_nat take_bit_nat_eq_self)
  show "(kernelPageTable L + of_nat k * 4096) div 4096 = drop_bit 12 (kernelPageTable L) + of_nat k"
    using drop_12_add [OF lt] by (simp add: drop_bit_eq_div)
qed

lemma frames_differ_trans:
  "frames_differ L F s t \<Longrightarrow> frames_differ L F t u \<Longrightarrow> frames_differ L F s u"
  by (simp add: frames_differ_def)

lemma store32_frame:
  assumes "f < 1048576" "{f} \<inter> table_pages L = {}" "unat o4 \<le> 4092"
  shows "frames_differ L {f} s (s\<lparr>ram := store32 (ram s) (of_nat f * 4096 + o4) w\<rparr>)"
proof -
  have f: "unat (of_nat f * 4096 :: u32) = f * 4096"
    using assms(1) by (simp add: unat_word_ariths unat_of_nat take_bit_nat_eq_self)
  have "unat (of_nat f * 4096 + (o4 + j)) div 4096 = f" if "j < 4" for j
  proof -
    have "unat (o4 + j) < 4096" using assms(3) that by (simp add: unat_word_ariths word_less_nat_alt)
    then have "unat (of_nat f * 4096 + (o4 + j)) div 4096 = unat (of_nat f * 4096 :: u32) div 4096"
      by (rule page_offset_any [rotated]) (simp add: f)
    then show ?thesis by (simp add: f)
  qed
  from this [of 0] this [of 1] this [of 2] this [of 3] show ?thesis
    using assms(2) by (auto simp: frames_differ_def store32_apply add.assoc)
qed

lemma directory_word_address:
  assumes "f < 1048576" "k < 256"
  shows "unat (4 * of_nat k :: u32) = 4 * k" "unat (of_nat f * 4096 + 4 * of_nat k :: u32) = f * 4096 + 4 * k"
    "unat (of_nat f * 4096 + 4 * of_nat k :: u32) mod 4 = 0"
proof -
  show off: "unat (4 * of_nat k :: u32) = 4 * k"
    using assms(2) by (simp add: unat_word_ariths unat_of_nat take_bit_nat_eq_self)
  have "unat (of_nat f * 4096 :: u32) = f * 4096"
    using assms(1) by (simp add: unat_word_ariths unat_of_nat take_bit_nat_eq_self)
  then show addr: "unat (of_nat f * 4096 + 4 * of_nat k :: u32) = f * 4096 + 4 * k"
    using off assms by (simp add: unat_word_ariths)
  have "f * 4096 + 4 * k = 4 * (f * 1024 + k)" by simp
  then show "unat (of_nat f * 4096 + 4 * of_nat k :: u32) mod 4 = 0" unfolding addr by (simp only: mod_mult_self1_is_0)
qed

text \<open>The directory in frame \<open>f\<close> after the entries of the first \<open>k\<close> kernel tables were written.\<close>

definition kernel_tables_mapped :: "layout \<Rightarrow> nat \<Rightarrow> nat \<Rightarrow> machine \<Rightarrow> machine \<Rightarrow> bool" where
  "kernel_tables_mapped L f k s t \<longleftrightarrow> frames_differ L {f} s t \<and>
     (\<forall>i < k. entry_present (load32 (ram t) (of_nat f * 4096 + 4 * of_nat i)) \<and>
       entry_frame (load32 (ram t) (of_nat f * 4096 + 4 * of_nat i)) = drop_bit 12 (kernelPageTable L) + of_nat i)"

lemma kernel_tables_step:
  assumes P: "kernel_tables_mapped L f k s t" and k: "k < 256" and f: "f < 1048576" "f \<notin> table_pages L"
    and w: "entry_present w" "entry_frame w = drop_bit 12 (kernelPageTable L) + of_nat k"
  shows "kernel_tables_mapped L f (Suc k) s (t\<lparr>ram := store32 (ram t) (of_nat f * 4096 + 4 * of_nat k) w\<rparr>)"
proof -
  let ?t = "t\<lparr>ram := store32 (ram t) (of_nat f * 4096 + 4 * of_nat k) w\<rparr>"
  have "load32 (ram ?t) (of_nat f * 4096 + 4 * of_nat i) =
      (if i = k then w else load32 (ram t) (of_nat f * 4096 + 4 * of_nat i))" if "i < Suc k" for i
  proof (cases "i = k")
    case False
    have i: "i < 256" using that k by simp
    note wi = directory_word_address [OF f(1) i] and wk = directory_word_address [OF f(1) k]
    have "of_nat f * 4096 + 4 * of_nat i \<noteq> (of_nat f * 4096 + 4 * of_nat k :: u32)" using wi(2) wk(2) False by auto
    then show ?thesis using False load32_store32_other [OF wi(3) wk(3)] by simp
  qed simp
  moreover have "frames_differ L {f} t ?t"
    using f directory_word_address(1) [OF f(1) k] k by (intro store32_frame) simp_all
  then have "frames_differ L {f} s ?t" using P frames_differ_trans unfolding kernel_tables_mapped_def by blast
  ultimately show ?thesis using P w by (simp add: kernel_tables_mapped_def less_Suc_eq_le)
qed

lemma mapKernelPageTable_writes:
  assumes L: "layout_ok L" and f: "f < 1048576" "f \<notin> table_pages L"
    and x: "\<And>t k. frames_differ L {f} s t \<Longrightarrow> k < 256 \<Longrightarrow> xlate t (pd + 4 * of_nat k) = Some (of_nat f * 4096 + 4 * of_nat k)"
  shows "\<exists>s'. mapKernelPageTable L pd s = Some s' \<and> frames_differ L {f} s s' \<and> dir_at L s' (of_nat f * 4096)"
proof -
  let ?P = "\<lambda>k t. kernel_tables_mapped L f k s t"
  let ?body = "\<lambda>index s. do {
       let directoryEntry = pd + 4 * index;
       e \<leftarrow> vload32 s directoryEntry;
       vstore32 directoryEntry (set_entry e False ((kernelPageTable L + index * PAGE_SIZE) div PAGE_SIZE)) s
     }"
  have step: "\<exists>t'. ?body (of_nat k) t = Some t' \<and> ?P (Suc k) t'" if k: "k < unat (256 :: u32)" and P: "?P k t" for k t
  proof -
    have k': "k < 256" using k by simp
    have "frames_differ L {f} s t" using P by (simp add: kernel_tables_mapped_def)
    from x [OF this k'] show ?thesis
      using kernel_table_frame [OF L k'] kernel_tables_step [OF P k' f] by (simp add: vload32_def vstore32_def)
  qed
  have "\<exists>s'. for_rangeM 0 256 ?body s = Some s' \<and> ?P (unat (256 :: u32)) s'"
    by (rule for_rangeM_inv) (use step f(2) in \<open>auto simp: kernel_tables_mapped_def frames_differ_def\<close>)
  then show ?thesis
    using f directory_word_address(2) [OF f(1), of 0] by (auto simp: mapKernelPageTable_def dir_at_def kernel_tables_mapped_def)
qed

lemma mapKernelPageTable_kernel:
  assumes K: "kspace L s" and q: "q < 262144" "entry_present (kentry L s q)" "entry_frame (kentry L s q) = of_nat f"
    and f: "f < 1048576" "f \<notin> table_pages L" "unat (cr3_reg s) div 4096 \<noteq> f"
  shows "\<exists>s'. mapKernelPageTable L (of_nat q * 4096) s = Some s' \<and> frames_differ L {f} s s' \<and> dir_at L s' (of_nat f * 4096)"
proof -
  have L: "layout_ok L" using K by (simp add: kspace_def)
  note va = page_number_address [OF q(1)]
  have base: "unat (of_nat q * 4096 :: u32) mod 4096 = 0" using va(1) by simp
  show ?thesis
  proof (rule mapKernelPageTable_writes [OF L f(1,2)])
    fix t and k :: nat assume t: "frames_differ L {f} s t" and k: "k < 256"
    have off: "unat (4 * of_nat k :: u32) < 4096" using directory_word_address(1) [OF f(1) k] k by simp
    note o = page_offset [OF base va(4) off] frame_or_offset [OF base off, of "of_nat f"]
    show "xlate t (of_nat q * 4096 + 4 * of_nat k) = Some (of_nat f * 4096 + 4 * of_nat k)"
      using xlate_kernel [OF kspace_frames [OF K t] o(2)] f(3) o(1,3) va(2) q(2,3) kentry_frames [OF L t q(1)] by simp
  qed
qed

text \<open>The second half of \<open>createUserPageDirectory\<close>: the page was allocated.\<close>

lemma createUserPageDirectory_kernel:
  assumes inv: "mm_inv L (cr3 (regs (getRunningTask sched))) s"
    and s1: "memoryAllocate (cr3 (regs (getRunningTask sched))) 4096 False (atomicEnable s) = Some (of_nat q * 4096, s1)"
    and al: "allocated L 1 q f (atomicEnable s) s1" and inv1: "mm_inv L (cr3 (regs (getRunningTask sched))) s1"
  shows "\<exists>s'. createUserPageDirectory L sched s = Some (of_nat q * 4096, s') \<and> of_nat q * 4096 \<noteq> (0 :: u32) \<and>
    kspace L s' \<and> pd_ok L s' (of_nat q * 4096) \<and> interrupts s' \<and>
    (\<forall>r < 262144. r \<noteq> q \<longrightarrow> kentry L s' r = kentry L s r)"
proof -
  have s0: "ram (atomicEnable s) = ram s" "cr3_reg (atomicEnable s) = cr3_reg s" "paging (atomicEnable s) = paging s"
      "memManData (atomicEnable s) = memManData s"
    by (simp_all add: atomicEnable_def)
  have q: "256 \<le> q" "q < 262144" "entry_present (kentry L s1 q)" "entry_frame (kentry L s1 q) = of_nat f"
    and f: "f < 1048576" "f \<notin> used_pages (memManData s)" "cr3_reg s1 = cr3_reg s"
    and others: "\<forall>r < 262144. r \<noteq> q \<longrightarrow> kentry L s1 r = kentry L s r"
    using al s0 regs_irrelevant(3) [OF s0(1-3), of L] by (auto simp: allocated_def first_run_def free_run_def)
  have K1: "kspace L s1" using inv1 by (simp add: mm_inv_def)
  have L: "layout_ok L" using K1 by (simp add: kspace_def)
  have f': "f \<notin> table_pages L" "unat (cr3_reg s1) div 4096 \<noteq> f"
    using inv f(2,3) by (auto simp: mm_inv_def)
  obtain t where t: "mapKernelPageTable L (of_nat q * 4096) s1 = Some t" "frames_differ L {f} s1 t" "dir_at L t (of_nat f * 4096)"
    using mapKernelPageTable_kernel [OF K1 q(2-4) f(1) f'] by blast
  have Kt: "kspace L t" using kspace_frames [OF K1 t(2)] f'(2) by simp
  note va = page_number_address [OF q(2)]
  have nz: "of_nat q * 4096 \<noteq> (0 :: u32)" using va(1) q(1) by auto
  have ke: "\<And>r. r < 262144 \<Longrightarrow> kentry L t r = kentry L s1 r" using kentry_frames [OF L t(2)] by simp
  have pd: "pd_ok L t (of_nat q * 4096)"
    using va t(3) q ke [OF q(2)] by (simp add: pd_ok_def push_bit_12)
  have t': "ram (atomicDisable t) = ram t" "cr3_reg (atomicDisable t) = cr3_reg t" "paging (atomicDisable t) = paging t"
      "interrupts (atomicDisable t)"
    by (simp_all add: atomicDisable_def)
  have "createUserPageDirectory L sched s = Some (of_nat q * 4096, atomicDisable t)"
    using s1 t(1) nz by (simp add: createUserPageDirectory_def memoryAllocate_running_def)
  then show ?thesis
    using Kt pd nz ke others regs_irrelevant [OF t'(1-3)] t'(4) by simp
qed

section \<open>A machine after boot\<close>

text \<open>
  A concrete state for the examples: 16 megabytes of memory of which the first four are in use,
  the kernel's directory at \<open>0x200000\<close> and its tables from \<open>0x300000\<close> on, and nothing mapped but
  the pages that hold them.
\<close>

definition boot_layout :: layout where
  "boot_layout = \<lparr>kernelPageDirectory = 0x200000, kernelPageTable = 0x300000,
     start_symbol = 0x100000, kernel_end = 0x400000\<rparr>"

definition boot_word :: "nat \<Rightarrow> u32" where
  "boot_word a =
     (if 0x200000 \<le> a \<and> a < 0x200400 then of_nat (0x300003 + (a - 0x200000) div 4 * 4096)
      else if 0x300000 + 4 * 0x200 = a then 0x200003
      else if 0x300000 + 4 * 0x300 \<le> a \<and> a < 0x300000 + 4 * 0x400 then of_nat (3 + (a - 0x300000) div 4 * 4096)
      else 0)"

definition boot_ram :: memory where
  "boot_ram a = ucast (drop_bit (8 * (unat a mod 4)) (boot_word (unat a - unat a mod 4)))"

definition boot_machine :: machine where
  "boot_machine = \<lparr>ram = boot_ram,
     memManData = \<lparr>TotalMemory = 0x1000000, UsedMemory = 0x400000,
       PhysicalAllocation = (\<lambda>i. if i < 128 then 0xFF else 0)\<rparr>,
     cr3_reg = 0x200000, paging = True, interrupts = True\<rparr>"

lemma load32_boot_ram:
  assumes "unat a mod 4 = 0"
  shows "load32 boot_ram a = boot_word (unat a)"
proof -
  have off: "boot_ram (a + i) = ucast (drop_bit (8 * unat i) (boot_word (unat a)))" if "i < 4" for i
  proof -
    have "unat (a + i) = unat a + unat i" by (rule aligned4_offset [OF assms that])
    moreover have "unat i < 4" using that by (simp add: word_less_nat_alt)
    ultimately have "unat (a + i) mod 4 = unat i" "unat (a + i) - unat (a + i) mod 4 = unat a"
      using assms by (simp_all add: mod_add_left_eq [symmetric, of "unat a"])
    then show ?thesis by (simp only: boot_ram_def)
  qed
  from off [of 0] off [of 1] off [of 2] off [of 3] show ?thesis
    by (simp add: load32_def bytes_of_word)
qed

lemma boot_entries:
  "i < 256 \<Longrightarrow> load32 boot_ram (0x200000 + 4 * of_nat i) = of_nat (0x300003 + i * 4096)"
  "p \<in> {0x300 ..< 0x400} \<Longrightarrow> load32 boot_ram (0x300000 + 4 * of_nat p) = of_nat (3 + p * 4096)"
  "load32 boot_ram 0x300800 = 0x200003"
  "p < 262144 \<Longrightarrow> p \<notin> insert 0x200 {0x300 ..< 0x400} \<Longrightarrow> load32 boot_ram (0x300000 + 4 * of_nat p) = 0"
proof -
  have u: "unat (0x200000 + 4 * of_nat i :: u32) = 0x200000 + 4 * i" if "i < 256" for i
    using that by (simp add: unat_word_ariths unat_of_nat take_bit_nat_eq_self)
  have v: "unat (0x300000 + 4 * of_nat p :: u32) = 0x300000 + 4 * p" if "p < 262144" for p
    using that by (simp add: unat_word_ariths unat_of_nat take_bit_nat_eq_self)
  show "load32 boot_ram (0x200000 + 4 * of_nat i) = of_nat (0x300003 + i * 4096)" if "i < 256"
    using u [OF that] that by (subst load32_boot_ram) (simp_all add: boot_word_def)
  show "load32 boot_ram (0x300000 + 4 * of_nat p) = of_nat (3 + p * 4096)" if "p \<in> {0x300 ..< 0x400}"
    using v [of p] that by (subst load32_boot_ram) (simp_all add: boot_word_def)
  show "load32 boot_ram 0x300800 = 0x200003"
    by (subst load32_boot_ram) (simp_all add: boot_word_def)
  show "load32 boot_ram (0x300000 + 4 * of_nat p) = 0" if "p < 262144" "p \<notin> insert 0x200 {0x300 ..< 0x400}"
    using v [OF that(1)] that(2) by (subst load32_boot_ram) (auto simp: boot_word_def)
qed

lemma entry_of_nat:
  assumes "p < 1048576"
  shows "entry_present (of_nat (3 + p * 4096))" "entry_frame (of_nat (3 + p * 4096)) = of_nat p"
proof -
  have u: "unat (of_nat (3 + p * 4096) :: u32) = 3 + p * 4096"
    unfolding unat_of_nat using assms by (simp add: take_bit_nat_eq_self)
  have "odd (of_nat (3 + p * 4096) :: u32)" 
    by simp
  then show "entry_present (of_nat (3 + p * 4096))"
    by (simp add: entry_present_def bit_0)
  have "unat (entry_frame (of_nat (3 + p * 4096))) = p"
    unfolding entry_frame_def unat_drop_12 u by simp
  then show "entry_frame (of_nat (3 + p * 4096)) = of_nat p"
    by (metis of_nat_unat ucast_id)
qed

lemma boot_pages: "table_pages boot_layout = {0x300 ..< 0x400}" "reserved_pages boot_layout = insert 0x200 {0x300 ..< 0x400}"
  by (auto simp: table_pages_def reserved_pages_def boot_layout_def)

lemma boot_frames: "used_pages (memManData boot_machine) = {..< 1024}"
proof -
  have "page_used (memManData boot_machine) p \<longleftrightarrow> p < 1024" if "p < NPAGES" for p
  proof -
    have "unat (of_nat (p div 8) :: u32) = p div 8" using that by (intro unat_of_nat32) simp
    then have "(of_nat (p div 8) :: u32) < 128 \<longleftrightarrow> p < 1024" by (auto simp: word_less_nat_alt)
    moreover have "(0xFF :: u8) = - 1" by simp
    then have "bit (0xFF :: u8) (p mod 8)" by (simp only: bit_minus_1_iff) simp
    ultimately show ?thesis by (simp add: page_used_def boot_machine_def)
  qed
  then show ?thesis by (auto simp: used_pages_def)
qed

lemma boot_inv: "mm_inv boot_layout 0x200000 boot_machine"
proof -
  have k: "kentry boot_layout boot_machine p = load32 boot_ram (0x300000 + 4 * of_nat p)" for p
    by (simp add: kentry_def kentry_addr_def boot_machine_def boot_layout_def)
  have kd: "kentry boot_layout boot_machine 512 = of_nat (3 + 512 * 4096)"
    using boot_entries(3) by (simp add: k)
  have dir: "dir_at boot_layout boot_machine 0x200000"
  proof -
    have "load32 boot_ram (0x200000 + 4 * of_nat i) = of_nat (3 + (768 + i) * 4096)" if "i < 256" for i
      unfolding boot_entries(1) [OF that] by (rule arg_cong) simp
    then show ?thesis
      using entry_of_nat [of "768 + i" for i]
      unfolding dir_at_def boot_pages by (simp add: boot_machine_def boot_layout_def)
  qed
  have entries: "entry_present (kentry boot_layout boot_machine p) \<and> entry_frame (kentry boot_layout boot_machine p) = of_nat p"
    if "p \<in> reserved_pages boot_layout" for p
  proof (cases "p = 512")
    case True
    then show ?thesis using entry_of_nat [of 512] by (simp only: kd)
  next
    case False
    then show ?thesis
      using that boot_entries(2) [of p] entry_of_nat [of p] by (simp only: k boot_pages) auto
  qed
  have frame: "push_bit 12 (entry_frame (0x200000 :: u32)) = 0x200000" 
    by (simp add: entry_frame_def)
  have "kspace boot_layout boot_machine"
    using dir entries frame by (simp add: kspace_def boot_machine_def layout_ok_def boot_layout_def)
  moreover have "pd_ok boot_layout boot_machine 0x200000"
    using dir entry_of_nat [of 512] by (simp add: pd_ok_def kd)
  moreover have "cr3_reg boot_machine = 0x200000" by (simp add: boot_machine_def)
  ultimately show ?thesis
    unfolding mm_inv_def boot_pages boot_frames by (auto simp: kd)
qed

section \<open>Properties\<close>

text \<open>
  Property C1: a kernel allocation gives fresh, zeroed memory or nothing. When it succeeds the
  address is the lowest run of free kernel pages, at least as long as asked for; every byte of it
  translates to a frame that was free and now holds zeros; no other mapping and no other memory
  changed, interrupts are on and the manager's invariant holds again. When it fails either no run
  of addresses is free and the state is as before, with interrupts on; or no run of frames is free,
  and then interrupts stay off.
\<close>

theorem memoryAllocate_fresh_zeroed:
  assumes "mm_inv L pd s" and "0 < sz" and "sz \<le> 0x40000000"
    and "unat (TotalMemory (memManData s) div PAGE_SIZE) + unat (num_pages sz) \<le> 1048568"
  shows "unat sz \<le> unat (num_pages sz) * 4096 \<and>
    ((\<exists>q f s'. memoryAllocate pd sz False s = Some (of_nat q * 4096, s') \<and>
            allocated L (unat (num_pages sz)) q f s s' \<and> mm_inv L pd s') \<or>
     ((\<forall>q \<ge> 256. \<not> free_run L s (unat (num_pages sz)) q) \<and>
       memoryAllocate pd sz False s = Some (0, s\<lparr>interrupts := True\<rparr>)) \<or>
     ((\<forall>q < unat (TotalMemory (memManData s) div PAGE_SIZE).
         {q ..< q + unat (num_pages sz)} \<inter> used_pages (memManData s) \<noteq> {}) \<and>
       memoryAllocate pd sz False s = Some (0, s\<lparr>interrupts := False\<rparr>)))"
  using memoryAllocate_kernel [OF assms] num_pages_bounds(2) [OF assms(2,3)] by blast

theorem memoryAllocate_fresh_zeroed_witness:
  "unat (0x1800 :: u32) \<le> unat (num_pages 0x1800) * 4096 \<and>
    ((\<exists>q f s'. memoryAllocate 0x200000 0x1800 False boot_machine = Some (of_nat q * 4096, s') \<and>
            allocated boot_layout (unat (num_pages 0x1800)) q f boot_machine s' \<and> mm_inv boot_layout 0x200000 s') \<or>
     ((\<forall>q \<ge> 256. \<not> free_run boot_layout boot_machine (unat (num_pages 0x1800)) q) \<and>
       memoryAllocate 0x200000 0x1800 False boot_machine = Some (0, boot_machine\<lparr>interrupts := True\<rparr>)) \<or>
     ((\<forall>q < unat (TotalMemory (memManData boot_machine) div PAGE_SIZE).
         {q ..< q + unat (num_pages 0x1800)} \<inter> used_pages (memManData boot_machine) \<noteq> {}) \<and>
       memoryAllocate 0x200000 0x1800 False boot_machine = Some (0, boot_machine\<lparr>interrupts := False\<rparr>)))"
  by (rule memoryAllocate_fresh_zeroed [OF boot_inv])
    (simp_all add: num_pages_def PAGE_ALIGN_def boot_machine_def)

text \<open>
  Property C4: freeing the pages of an allocation undoes it: the same frames are in use as
  before, the same kernel pages are mapped, and the manager's invariant holds.
\<close>

theorem memoryFree_undoes_memoryAllocate:
  assumes "mm_inv L pd s" and "0 < sz" and "sz \<le> 0x40000000"
    and "unat (TotalMemory (memManData s) div PAGE_SIZE) + unat (num_pages sz) \<le> 1048568"
    and "memoryAllocate pd sz False s = Some (a, s')" and "a \<noteq> 0"
  shows "\<exists>s''. memoryFree pd a (num_pages sz * PAGE_SIZE) s' = Some s'' \<and>
    used_pages (memManData s'') = used_pages (memManData s) \<and>
    (\<forall>r < 262144. entry_present (kentry L s'' r) = entry_present (kentry L s r)) \<and>
    mm_inv L pd s'' \<and> interrupts s''"
proof -
  let ?n = "unat (num_pages sz)"
  obtain q f where a: "a = of_nat q * 4096" and al: "allocated L ?n q f s s'" and inv': "mm_inv L pd s'"
    using memoryAllocate_kernel [OF assms(1-4)] assms(5,6) by auto
  have run: "q + ?n \<le> 262144" "\<And>r. q \<le> r \<Longrightarrow> r < q + ?n \<Longrightarrow> \<not> entry_present (kentry L s r)"
    and f: "f + ?n \<le> 1048568" "{f ..< f + ?n} \<inter> used_pages (memManData s) = {}"
      "used_pages (memManData s') = used_pages (memManData s) \<union> {f ..< f + ?n}" "cr3_reg s' = cr3_reg s"
    and ents: "\<forall>k < ?n. entry_present (kentry L s' (q + k)) \<and> entry_frame (kentry L s' (q + k)) = of_nat (f + k)"
    and others: "\<forall>r < 262144. r \<notin> {q ..< q + ?n} \<longrightarrow> kentry L s' r = kentry L s r"
    using al by (auto simp: allocated_def first_run_def free_run_def)
  have taken: "entry_present (kentry L s r)" if "r \<in> insert (unat pd div 4096) (reserved_pages L)" for r
    using that assms(1) by (auto simp: mm_inv_def kspace_def pd_ok_def)
  then have avoid: "{q ..< q + ?n} \<inter> insert (unat pd div 4096) (reserved_pages L) = {}"
    using run(2) by (meson atLeastLessThan_iff disjoint_iff)
  have "unat pd < 0x40000000" using assms(1) by (simp add: mm_inv_def pd_ok_def)
  then have "unat pd div 4096 < 262144" by simp
  then have "kentry L s' (unat pd div 4096) = kentry L s (unat pd div 4096)"
    using others avoid by blast
  then have safe: "{f ..< f + ?n} \<inter> insert 0 (insert (unat (cr3_reg s') div 4096)
      (insert (unat (kentry L s' (unat pd div 4096)) div 4096) (table_pages L))) = {}"
    using assms(1) f(2,4) unfolding mm_inv_def by auto
  obtain s'' where s'': "memoryFree pd a (of_nat ?n * 4096) s' = Some s''" "freed L q f ?n s' s''" "mm_inv L pd s''" "interrupts s''"
    using memoryFree_kernel [OF inv' run(1) f(1) ents avoid safe] a by blast
  have "used_pages (memManData s'') = used_pages (memManData s)"
    using s''(2) f(2,3) unfolding freed_def by auto
  moreover have "entry_present (kentry L s'' r) = entry_present (kentry L s r)" if "r < 262144" for r
    using that s''(2) others run(2) [of r] by (auto simp: freed_def entry_present_def)
  ultimately show ?thesis using s'' by auto
qed

lemma boot_room: "memory_room boot_layout 17 (boot_machine\<lparr>interrupts := b\<rparr>)"
proof -
  have "kentry boot_layout boot_machine r = 0" if "r \<in> {256 ..< 256 + 17}" for r
    using that boot_entries(4) [of r] by (auto simp: kentry_def kentry_addr_def boot_machine_def boot_layout_def)
  then have "free_run boot_layout boot_machine 17 256" unfolding free_run_def by (simp add: entry_present_def)
  moreover have "free_run boot_layout (boot_machine\<lparr>interrupts := b\<rparr>) k q = free_run boot_layout boot_machine k q" for k q
    using regs_irrelevant [of "boot_machine\<lparr>interrupts := b\<rparr>" boot_machine] by simp
  moreover have "{1024 ..< 1024 + 17} \<inter> used_pages (memManData boot_machine) = {}" by (auto simp: boot_frames)
  moreover have "1024 + 17 \<le> unat (TotalMemory (memManData boot_machine) div 4096)" by (simp add: boot_machine_def)
  ultimately show ?thesis unfolding memory_room_def by (intro conjI exI [of _ 256] exI [of _ 1024]) simp_all
qed

lemma boot_succeeds:
  assumes "unat (num_pages sz) \<le> 16" and "0 < sz" "sz \<le> 0x40000000"
  shows "\<exists>q f s'. memoryAllocate 0x200000 sz False (boot_machine\<lparr>interrupts := b\<rparr>) = Some (of_nat q * 4096, s') \<and>
    allocated boot_layout (unat (num_pages sz)) q f (boot_machine\<lparr>interrupts := b\<rparr>) s' \<and> mm_inv boot_layout 0x200000 s' \<and>
    of_nat q * 4096 \<noteq> (0 :: u32)"
proof -
  have "mm_inv boot_layout 0x200000 (boot_machine\<lparr>interrupts := b\<rparr>)"
    using boot_inv regs_irrelevant [of "boot_machine\<lparr>interrupts := b\<rparr>" boot_machine] by (simp add: mm_inv_def)
  moreover have "memory_room boot_layout (unat (num_pages sz)) (boot_machine\<lparr>interrupts := b\<rparr>)"
    using assms(1) by (intro memory_room_mono [OF boot_room]) simp
  moreover have "unat (TotalMemory (memManData (boot_machine\<lparr>interrupts := b\<rparr>)) div PAGE_SIZE) \<le> 786424" by (simp add: boot_machine_def)
  ultimately show ?thesis using room_allocates [OF _ _ assms(2,3)] by blast
qed

theorem memoryFree_undoes_memoryAllocate_witness:
  "\<exists>a s' s''. memoryAllocate 0x200000 0x1800 False boot_machine = Some (a, s') \<and> a \<noteq> 0 \<and>
    memoryFree 0x200000 a (num_pages 0x1800 * PAGE_SIZE) s' = Some s'' \<and>
    used_pages (memManData s'') = used_pages (memManData boot_machine) \<and>
    (\<forall>r < 262144. entry_present (kentry boot_layout s'' r) = entry_present (kentry boot_layout boot_machine r)) \<and>
    mm_inv boot_layout 0x200000 s'' \<and> interrupts s''"
proof -
  have "num_pages 0x1800 = 2" by (simp add: num_pages_def PAGE_ALIGN_def)
  moreover have "boot_machine\<lparr>interrupts := True\<rparr> = boot_machine" by (simp add: boot_machine_def)
  ultimately obtain a s' where a: "memoryAllocate 0x200000 0x1800 False boot_machine = Some (a, s')" "a \<noteq> 0"
    using boot_succeeds [of "0x1800" True] by auto
  have "unat (TotalMemory (memManData boot_machine) div PAGE_SIZE) + unat (num_pages 0x1800) \<le> 1048568"
    by (simp add: boot_machine_def num_pages_def PAGE_ALIGN_def)
  from memoryFree_undoes_memoryAllocate [OF boot_inv _ _ this a] a show ?thesis by auto
qed

text \<open>
  Property C7: \<open>VirtualMap\<close> maps what it is told to. In the kernel's gigabyte, on any directory
  that shares the kernel's tables, the pages from \<open>va\<close> on become present and translate to the
  frames from \<open>pa\<close> on, for the lookup functions and for the processor alike, and every other
  kernel page translates as before. The fuel suffices, as no table is missing.
\<close>

theorem VirtualMap_translates:
  assumes "kspace L s" and "pd_ok L s pd" and "unat va mod 4096 = 0" and "unat pa mod 4096 = 0"
    and "unat va div 4096 + unat n \<le> 262144" and "unat pa div 4096 + unat n \<le> 1048576"
    and "\<forall>p \<in> {unat va div 4096 ..< unat va div 4096 + unat n}. p \<notin> reserved_pages L \<and> p \<noteq> unat pd div 4096"
  shows "\<exists>s'. VirtualMap (Suc fuel) pd va pa n user s = Some s' \<and>
    (\<forall>k x. k < unat n \<and> unat x < 4096 \<longrightarrow>
       IsPagePresent s' pd (va + of_nat k * 4096) = Some True \<and>
       GetPhysicalAddress s' pd (va + of_nat k * 4096 + x) = Some (pa + of_nat k * 4096 + x) \<and>
       xlate s' (va + of_nat k * 4096 + x) = Some (pa + of_nat k * 4096 + x)) \<and>
    (\<forall>v. unat v < 0x40000000 \<and> unat v div 4096 \<notin> {unat va div 4096 ..< unat va div 4096 + unat n} \<longrightarrow>
       IsPagePresent s' pd v = IsPagePresent s pd v \<and>
       GetPhysicalAddress s' pd v = GetPhysicalAddress s pd v \<and> xlate s' v = xlate s v)"
proof -
  obtain s' where s': "VirtualMap (Suc fuel) pd va pa n user s = Some s'" "kspace L s'" "pd_ok L s' pd"
      "mapped L (unat va div 4096) (unat n) (drop_bit 12 pa) user s s'"
    using VirtualMap_kernel [OF assms(1,2,3,5,6,7)] by blast
  have "IsPagePresent s' pd (va + of_nat k * 4096) = Some True \<and>
       GetPhysicalAddress s' pd (va + of_nat k * 4096 + x) = Some (pa + of_nat k * 4096 + x) \<and>
       xlate s' (va + of_nat k * 4096 + x) = Some (pa + of_nat k * 4096 + x)"
    if k: "k < unat n" and x: "unat x < 4096" for k x
  proof -
    have pk: "unat va div 4096 + k < 262144" using assms(5) k by simp
    define v where "v = va + of_nat k * 4096"
    have v: "unat v < 0x40000000" "unat v div 4096 = unat va div 4096 + k" "unat v mod 4096 = 0"
      using unat_page_range [OF assms(3) pk] assms(3) by (simp_all add: v_def)
    note off = page_offset [OF v(3,1) x] frame_or_offset [OF v(3) x, of "drop_bit 12 pa + of_nat k"]
      frame_or_offset [OF v(3) x, of 0]
    have "unat (drop_bit 12 pa + of_nat k) < 1048576"
      using assms(6) k by (simp add: unat_word_ariths unat_drop_12 unat_of_nat take_bit_nat_eq_self)
    then have e: "entry_present (kentry L s' (unat va div 4096 + k))"
        "entry_frame (kentry L s' (unat va div 4096 + k)) = drop_bit 12 pa + of_nat k"
      using s'(4) k pk by (simp_all add: mapped_def)
    have pa: "(drop_bit 12 pa + of_nat k) * 4096 = pa + of_nat k * 4096"
      using align_12 [OF assms(4)] by (simp add: algebra_simps)
    have "IsPagePresent s' pd v = Some True"
      using IsPagePresent_kernel [OF s'(2,3) v(1)] v(2) e(1) by simp
    moreover have "GetPhysicalAddress s' pd (v + x) = Some (pa + of_nat k * 4096 + x)"
      using GetPhysicalAddress_kernel [OF s'(2,3) off(2)] off(1,4) v(2) e(2) pa by simp
    moreover have "xlate s' (v + x) = Some (pa + of_nat k * 4096 + x)"
      using xlate_kernel [OF s'(2) off(2)] off(1,3) v(2) e pa by simp
    ultimately show ?thesis by (simp add: v_def)
  qed
  moreover have "IsPagePresent s' pd v = IsPagePresent s pd v \<and>
       GetPhysicalAddress s' pd v = GetPhysicalAddress s pd v \<and> xlate s' v = xlate s v"
    if v: "unat v < 0x40000000" "unat v div 4096 \<notin> {unat va div 4096 ..< unat va div 4096 + unat n}" for v
  proof -
    have "unat v div 4096 < 262144" using v(1) by simp
    then have "kentry L s' (unat v div 4096) = kentry L s (unat v div 4096)"
      using s'(4) v(2) by (auto simp: mapped_def)
    then show ?thesis
      using v(1) s'(2,3) assms(1,2)
      by (simp add: IsPagePresent_kernel GetPhysicalAddress_kernel xlate_kernel)
  qed
  ultimately show ?thesis using s'(1) by blast
qed

theorem VirtualMap_translates_witness:
  "\<exists>s'. VirtualMap (Suc 7) 0x200000 0x500000 0x800000 3 True boot_machine = Some s' \<and>
    GetPhysicalAddress s' 0x200000 0x502004 = Some 0x802004 \<and> xlate s' 0x502004 = Some 0x802004"
proof -
  have inv: "kspace boot_layout boot_machine" "pd_ok boot_layout boot_machine 0x200000"
    using boot_inv by (simp_all add: mm_inv_def)
  have res: "reserved_pages boot_layout = insert 0x200 {0x300 ..< 0x400}"
    by (auto simp: reserved_pages_def table_pages_def boot_layout_def)
  obtain s' where s': "VirtualMap (Suc 7) 0x200000 0x500000 0x800000 3 True boot_machine = Some s'"
    "\<forall>k x. k < unat (3 :: u32) \<and> unat x < 4096 \<longrightarrow>
       IsPagePresent s' 0x200000 (0x500000 + of_nat k * 4096) = Some True \<and>
       GetPhysicalAddress s' 0x200000 (0x500000 + of_nat k * 4096 + x) = Some (0x800000 + of_nat k * 4096 + x) \<and>
       xlate s' (0x500000 + of_nat k * 4096 + x) = Some (0x800000 + of_nat k * 4096 + x)"
    using VirtualMap_translates [OF inv, of "0x500000" "0x800000" 3 7 True] by (auto simp: res)
  from s'(2) [rule_format, of 2 4] show ?thesis using s'(1) by simp
qed

lemma page_below_top:
  fixes va :: u32
  assumes "unat va mod 4096 = 0"
  shows "va < 0xFFFFFFFF" and "unat (va + 4096) mod 4096 = 0"
proof -
  have "unat va \<noteq> 0xFFFFFFFF" using assms by auto
  then show "va < 0xFFFFFFFF"
    using unsigned_less [of va, where ?'a = nat] by (simp add: word_less_nat_alt)
  show "unat (va + 4096) mod 4096 = 0"
    using assms by (simp add: unat_word_ariths mod_mod_cancel)
qed

lemma user_search_result:
  assumes "VirtualAllocate_loop s pd n m st va i = Some r"
  shows "m = 0xFFFFFFFF \<longrightarrow> unat va mod 4096 = 0 \<longrightarrow> r \<noteq> None"
proof (rule VirtualAllocate_loop.raw_induct
    [where P = "\<lambda>s pd n m st va i r. m = 0xFFFFFFFF \<longrightarrow> unat va mod 4096 = 0 \<longrightarrow> r \<noteq> None", OF _ assms])
  fix loop s pd n m st va i r
  assume IH: "\<And>s pd n m st va i r. loop s pd n m st va i = Some r \<Longrightarrow>
      m = 0xFFFFFFFF \<longrightarrow> unat va mod 4096 = 0 \<longrightarrow> r \<noteq> None"
    and body: "(if va < m then IsPagePresent s pd va \<bind> (\<lambda>present.
        if \<not> present then if i + 1 = n then Some (Some st) else loop s pd n m st (va + 4096) (i + 1)
        else loop s pd n m (va + 4096) (va + 4096) 0) else Some None) = Some r"
  show "m = 0xFFFFFFFF \<longrightarrow> unat va mod 4096 = 0 \<longrightarrow> r \<noteq> None"
    using body page_below_top [of va] IH by (auto split: bind_splits if_splits)
qed

text \<open>
  An allocation for user space has no failing search. The upper limit of the search is
  the last byte of the address space, which no page address reaches, so the search wraps round to
  address 0 and on into the kernel's pages: if it returns at all it returns a run of pages.
\<close>

theorem user_search_never_fails:
  assumes "unat virtualAddress mod 4096 = 0"
    and "VirtualAllocate_loop s pd n 0xFFFFFFFF startAddr virtualAddress pageIndex = Some r"
  shows "r \<noteq> None"
  using user_search_result [OF assms(2)] assms(1) by simp

lemma empty_user_search:
  assumes "ram s = (\<lambda>a. 0)" and "\<not> paging s"
  shows "VirtualAllocate_loop s pd 1 0xFFFFFFFF 0x40000000 0x40000000 0 = Some (Some 0x40000000)"
  using assms
  by (simp add: VirtualAllocate_loop.simps IsPagePresent_def vload32_def xlate_def load32_def entry_present_def)

theorem user_search_never_fails_witness:
  "(Some 0x40000000 :: addr option) \<noteq> None \<and>
   VirtualAllocate_loop (boot_machine\<lparr>ram := (\<lambda>a. 0), paging := False\<rparr>) 0 1 0xFFFFFFFF 0x40000000 0x40000000 0 =
     Some (Some 0x40000000)"
proof -
  have loop: "VirtualAllocate_loop (boot_machine\<lparr>ram := (\<lambda>a. 0), paging := False\<rparr>) 0 1 0xFFFFFFFF
      0x40000000 0x40000000 0 = Some (Some 0x40000000)"
    by (rule empty_user_search) simp_all
  with user_search_never_fails [OF _ loop] show ?thesis by simp
qed

text \<open>
  When the machine is out of page frames \<open>memoryAllocate\<close> returns 0 and leaves the
  interrupts disabled, whatever they were; every other way out enables them.
\<close>

theorem out_of_frames_leaves_interrupts_off:
  assumes "physicalAllocate (num_pages sz) (memManData s) = Some (0, d)"
  shows "memoryAllocate pd sz user s = Some (0, s\<lparr>memManData := d, interrupts := False\<rparr>)"
  using assms by (simp add: memoryAllocate_def Let_def atomicEnable_def)

theorem out_of_frames_leaves_interrupts_off_witness:
  "memoryAllocate 0x200000 0x1000 False
     (boot_machine\<lparr>memManData := \<lparr>TotalMemory = 0, UsedMemory = 0, PhysicalAllocation = (\<lambda>i. 0)\<rparr>\<rparr>) =
   Some (0, boot_machine\<lparr>memManData := \<lparr>TotalMemory = 0, UsedMemory = 0, PhysicalAllocation = (\<lambda>i. 0)\<rparr>,
     interrupts := False\<rparr>)"
  by (subst out_of_frames_leaves_interrupts_off
      [where d = "\<lparr>TotalMemory = 0, UsedMemory = 0, PhysicalAllocation = (\<lambda>i. 0)\<rparr>"])
    (simp_all add: physicalAllocate_def physicalAllocate_from.simps [of 0])

text \<open>
  Property C16: a user page directory shares the kernel's address space. When
  \<open>createUserPageDirectory\<close> returns an address, it is that of a directory whose first 256 entries are
  the kernel's page tables, in a frame of its own, and the other kernel mappings are intact.
\<close>

theorem user_directory_shares_kernel:
  assumes "mm_inv L (cr3 (regs (getRunningTask sched))) s"
    and "unat (TotalMemory (memManData s) div PAGE_SIZE) + 1 \<le> 1048568"
    and "createUserPageDirectory L sched s = Some (a, s')" and "a \<noteq> 0"
  shows "kspace L s' \<and> pd_ok L s' a \<and> interrupts s' \<and>
    (\<forall>r < 262144. r \<noteq> unat a div 4096 \<longrightarrow> kentry L s' r = kentry L s r)"
proof -
  let ?pd = "cr3 (regs (getRunningTask sched))"
  have s0: "ram (atomicEnable s) = ram s" "cr3_reg (atomicEnable s) = cr3_reg s" "paging (atomicEnable s) = paging s"
      "memManData (atomicEnable s) = memManData s"
    by (simp_all add: atomicEnable_def)
  have inv: "mm_inv L ?pd (atomicEnable s)"
    using assms(1) regs_irrelevant [OF s0(1-3)] s0(2,4) by (simp add: mm_inv_def)
  have n: "num_pages 4096 = 1" by (simp add: num_pages_def)
  obtain s1 where s1: "memoryAllocate ?pd 4096 False (atomicEnable s) = Some (a, s1)"
    using assms(3,4) by (auto simp: createUserPageDirectory_def memoryAllocate_running_def split: bind_splits if_splits)
  obtain q f where a: "a = of_nat q * 4096" and al: "allocated L 1 q f (atomicEnable s) s1" and inv1: "mm_inv L ?pd s1"
    using memoryAllocate_kernel [OF inv, of 4096] s1 assms(2,4) n s0(4) by auto
  have "q < 262144" using al by (auto simp: allocated_def first_run_def free_run_def)
  then have "unat a div 4096 = q" using page_number_address(2) a by simp
  then show ?thesis
    using createUserPageDirectory_kernel [OF assms(1) s1 [unfolded a] al inv1] assms(3) by (auto simp: a)
qed

definition boot_scheduler :: scheduler where
  "boot_scheduler = booted\<lparr>tasks := (\<lambda>a. (tasks booted a)\<lparr>regs := (regs (tasks booted a))\<lparr>cr3 := 0x200000\<rparr>\<rparr>)\<rparr>"

theorem user_directory_shares_kernel_witness:
  "\<exists>a s'. createUserPageDirectory boot_layout boot_scheduler boot_machine = Some (a, s') \<and> a \<noteq> 0 \<and>
    kspace boot_layout s' \<and> pd_ok boot_layout s' a \<and> interrupts s' \<and>
    (\<forall>r < 262144. r \<noteq> unat a div 4096 \<longrightarrow> kentry boot_layout s' r = kentry boot_layout boot_machine r)"
proof -
  have cr3: "cr3 (regs (getRunningTask boot_scheduler)) = 0x200000"
    by (simp add: boot_scheduler_def getRunningTask_def)
  have inv: "mm_inv boot_layout (cr3 (regs (getRunningTask boot_scheduler))) boot_machine"
    using boot_inv cr3 by simp
  have enabled: "atomicEnable boot_machine = boot_machine\<lparr>interrupts := False\<rparr>" by (simp add: atomicEnable_def)
  have n: "num_pages 4096 = 1" by (simp add: num_pages_def)
  have T: "unat (TotalMemory (memManData boot_machine) div 4096) + 1 \<le> 1048568" by (simp add: boot_machine_def)
  obtain q f s1 where s1: "memoryAllocate 0x200000 4096 False (atomicEnable boot_machine) = Some (of_nat q * 4096, s1)"
      "allocated boot_layout 1 q f (atomicEnable boot_machine) s1" "mm_inv boot_layout 0x200000 s1"
    using boot_succeeds [of 4096 False] n enabled by auto
  obtain s' where "createUserPageDirectory boot_layout boot_scheduler boot_machine = Some (of_nat q * 4096, s')"
      "of_nat q * 4096 \<noteq> (0 :: u32)"
    using createUserPageDirectory_kernel [OF inv s1(1) [folded cr3] s1(2) s1(3) [folded cr3]] by blast
  with user_directory_shares_kernel [OF inv T] show ?thesis by blast
qed

end
