(* ===== verification/Arch.thy ===== *)
theory Arch
  imports Prelude
begin

text \<open>
  The processor's tables and the ports: \<open>Arch/i386/GDT.cpp\<close>, \<open>Arch/i386/IDT.cpp\<close>,
  \<open>InterruptHandler.cpp\<close> and the port functions of \<open>Arch/i386/Arch.h\<close>. The addresses of the
  interrupt stubs, of the task state segment and of the tables are chosen by the linker and are
  arguments.
\<close>

section \<open>Definitions\<close>

subsection \<open>Ports\<close>

text \<open>
  Every write to a port is kept in order; the value of the n-th read of a port is an environment
  input.
\<close>

record ports =
  out_log :: "(u16 \<times> u8) list"
  in_values :: "u16 \<Rightarrow> nat \<Rightarrow> u8"
  in_count :: "u16 \<Rightarrow> nat"

definition outb :: "u16 \<Rightarrow> u8 \<Rightarrow> ports \<Rightarrow> ports" where
  "outb port val s = s\<lparr>out_log := out_log s @ [(port, val)]\<rparr>"

definition inb :: "u16 \<Rightarrow> ports \<Rightarrow> u8 \<times> ports" where
  "inb port s =
     (in_values s port (in_count s port), s\<lparr>in_count := (in_count s)(port := in_count s port + 1)\<rparr>)"

datatype InterruptSource =
  DivideZeroExeption | OverflowException | InvalidOpcodeException | DoubleFault
  | GeneralProtectionFault | PageFault | Timer | Keyboard | Com2 | Com1

fun interrupt_number :: "InterruptSource \<Rightarrow> u32" where
  "interrupt_number DivideZeroExeption = 0"
| "interrupt_number OverflowException = 1"
| "interrupt_number InvalidOpcodeException = 6"
| "interrupt_number DoubleFault = 8"
| "interrupt_number GeneralProtectionFault = 13"
| "interrupt_number PageFault = 14"
| "interrupt_number Timer = 32"
| "interrupt_number Keyboard = 33"
| "interrupt_number Com2 = 35"
| "interrupt_number Com1 = 36"

abbreviation (input) NumInterrupts :: u32 where "NumInterrupts \<equiv> 48"

text \<open>The registers an interrupt stub pushes.\<close>

record Registers =
  r_gs :: u32
  r_fs :: u32
  r_es :: u32
  r_ds :: u32
  r_edi :: u32
  r_esi :: u32
  r_ebp :: u32
  r_esp :: u32
  r_ebx :: u32
  r_edx :: u32
  r_ecx :: u32
  r_eax :: u32
  int_no :: u32
  err_code :: u32
  r_eip :: u32
  r_cs :: u32
  r_eflags :: u32
  r_useresp :: u32
  r_ss :: u32

subsection \<open>The global descriptor table\<close>

definition SEG_DESCTYPE :: "u16 \<Rightarrow> u16" where "SEG_DESCTYPE x = push_bit 4 x"
definition SEG_PRES :: "u16 \<Rightarrow> u16" where "SEG_PRES x = push_bit 7 x"
definition SEG_SAVL :: "u16 \<Rightarrow> u16" where "SEG_SAVL x = push_bit 12 x"
definition SEG_LONG :: "u16 \<Rightarrow> u16" where "SEG_LONG x = push_bit 13 x"
definition SEG_SIZE :: "u16 \<Rightarrow> u16" where "SEG_SIZE x = push_bit 14 x"
definition SEG_GRAN :: "u16 \<Rightarrow> u16" where "SEG_GRAN x = push_bit 15 x"
definition SEG_PRIV :: "u16 \<Rightarrow> u16" where "SEG_PRIV x = push_bit 5 (x AND 3)"

abbreviation (input) SEG_DATA_RDWR :: u16 where "SEG_DATA_RDWR \<equiv> 2"
abbreviation (input) SEG_CODE_EXRD :: u16 where "SEG_CODE_EXRD \<equiv> 0xA"

definition GDT_CODE_PL0 :: u16 where
  "GDT_CODE_PL0 = SEG_DESCTYPE 1 OR SEG_PRES 1 OR SEG_SAVL 0 OR SEG_LONG 0 OR SEG_SIZE 1 OR SEG_GRAN 1 OR
     SEG_PRIV 0 OR SEG_CODE_EXRD"

definition GDT_DATA_PL0 :: u16 where
  "GDT_DATA_PL0 = SEG_DESCTYPE 1 OR SEG_PRES 1 OR SEG_SAVL 0 OR SEG_LONG 0 OR SEG_SIZE 1 OR SEG_GRAN 1 OR
     SEG_PRIV 0 OR SEG_DATA_RDWR"

definition GDT_CODE_PL3 :: u16 where
  "GDT_CODE_PL3 = SEG_DESCTYPE 1 OR SEG_PRES 1 OR SEG_SAVL 0 OR SEG_LONG 0 OR SEG_SIZE 1 OR SEG_GRAN 1 OR
     SEG_PRIV 3 OR SEG_CODE_EXRD"

definition GDT_DATA_PL3 :: u16 where
  "GDT_DATA_PL3 = SEG_DESCTYPE 1 OR SEG_PRES 1 OR SEG_SAVL 0 OR SEG_LONG 0 OR SEG_SIZE 1 OR SEG_GRAN 1 OR
     SEG_PRIV 3 OR SEG_DATA_RDWR"

text \<open>\<open>flag << 8\<close> is done in \<open>int\<close>, \<open>base << 16\<close> in 32 bits.\<close>

definition create_descriptor :: "u32 \<Rightarrow> u32 \<Rightarrow> u16 \<Rightarrow> u64" where
  "create_descriptor base limit flag =
     (let d1 = ucast (limit AND 0x000F0000);
          d2 = d1 OR ucast (push_bit 8 (ucast flag :: u32) AND 0x00F0FF00);
          d3 = d2 OR ucast (drop_bit 16 base AND 0x000000FF);
          d4 = d3 OR ucast (base AND 0xFF000000);
          d5 = push_bit 32 d4;
          d6 = d5 OR ucast (push_bit 16 base)
      in d6 OR ucast (limit AND 0x0000FFFF))"

record TSS =
  tss_prev_tss :: u32
  tss_esp0 :: u32
  tss_ss0 :: u32
  tss_esp1 :: u32
  tss_ss1 :: u32
  tss_esp2 :: u32
  tss_ss2 :: u32
  tss_cr3 :: u32
  tss_eip :: u32
  tss_eflags :: u32
  tss_eax :: u32
  tss_ecx :: u32
  tss_edx :: u32
  tss_ebx :: u32
  tss_esp :: u32
  tss_ebp :: u32
  tss_esi :: u32
  tss_edi :: u32
  tss_es :: u32
  tss_cs :: u32
  tss_ss :: u32
  tss_ds :: u32
  tss_fs :: u32
  tss_gs :: u32
  tss_ldt :: u32
  tss_trap :: u16
  tss_iomap_base :: u16

definition zero_TSS :: TSS where
  "zero_TSS = \<lparr>tss_prev_tss = 0, tss_esp0 = 0, tss_ss0 = 0, tss_esp1 = 0, tss_ss1 = 0, tss_esp2 = 0, tss_ss2 = 0, tss_cr3 = 0,
     tss_eip = 0, tss_eflags = 0, tss_eax = 0, tss_ecx = 0, tss_edx = 0, tss_ebx = 0, tss_esp = 0, tss_ebp = 0, tss_esi = 0,
     tss_edi = 0, tss_es = 0, tss_cs = 0, tss_ss = 0, tss_ds = 0, tss_fs = 0, tss_gs = 0, tss_ldt = 0,
     tss_trap = 0, tss_iomap_base = 0\<rparr>"

record gdt_state =
  tss :: TSS
  gdTable :: "u64 list"
  gp_base :: addr
  gp_limit :: u16
  gdt_loaded :: bool

definition sizeof_TSS :: u32 where
  "sizeof_TSS = 104"

definition gdt_init :: "addr \<Rightarrow> addr \<Rightarrow> gdt_state" where
  "gdt_init tss_addr table_addr =
     \<lparr>tss = zero_TSS\<lparr>tss_ss0 := 0x10, tss_esp0 := 0, tss_cs := 0x0b, tss_ss := 0x13, tss_ds := 0x13,
               tss_es := 0x13, tss_fs := 0x13, tss_gs := 0x13\<rparr>,
      gdTable = [create_descriptor 0 0 0,
                 create_descriptor 0 0x000FFFFF GDT_CODE_PL0,
                 create_descriptor 0 0x000FFFFF GDT_DATA_PL0,
                 create_descriptor 0 0x000FFFFF GDT_CODE_PL3,
                 create_descriptor 0 0x000FFFFF GDT_DATA_PL3,
                 create_descriptor tss_addr sizeof_TSS 99],
      gp_base = table_addr,
      gp_limit = 8 * 6 - 1,
      gdt_loaded = True\<rparr>"

subsection \<open>The interrupt descriptor table\<close>

record IDT_entry =
  offsetLower :: u16
  selector :: u16
  idt_zero :: u8
  typeAttribute :: u8
  offsethigher :: u16

definition empty_gate :: IDT_entry where
  "empty_gate = \<lparr>offsetLower = 0, selector = 0, idt_zero = 0, typeAttribute = 0, offsethigher = 0\<rparr>"

definition configureGate :: "u32 \<Rightarrow> nat \<Rightarrow> (nat \<Rightarrow> IDT_entry) \<Rightarrow> nat \<Rightarrow> IDT_entry" where
  "configureGate offset gateNum t =
     t(gateNum := \<lparr>offsetLower = ucast (offset AND 0xffff), selector = 0x08, idt_zero = 0, typeAttribute = 0x8E,
                   offsethigher = ucast (drop_bit 16 (offset AND 0xffff0000))\<rparr>)"

definition configureIdt :: "(nat \<Rightarrow> u32) \<Rightarrow> (nat \<Rightarrow> IDT_entry) \<Rightarrow> nat \<Rightarrow> IDT_entry" where
  "configureIdt irq t =
     (configureGate (irq 128) 128 \<circ> configureGate (irq 33) 33 \<circ> configureGate (irq 32) 32 \<circ>
      configureGate (irq 17) 17 \<circ> configureGate (irq 14) 14 \<circ> configureGate (irq 13) 13 \<circ>
      configureGate (irq 12) 12 \<circ> configureGate (irq 11) 11 \<circ> configureGate (irq 10) 10 \<circ>
      configureGate (irq 8) 8 \<circ> configureGate (irq 7) 7 \<circ> configureGate (irq 6) 6 \<circ>
      configureGate (irq 5) 5 \<circ> configureGate (irq 4) 4 \<circ> configureGate (irq 3) 2 \<circ>
      configureGate (irq 1) 1 \<circ> configureGate (irq 0) 0) t"

record idt_state =
  IDTTable :: "nat \<Rightarrow> IDT_entry"
  idt_ptr0 :: u32
  idt_ptr1 :: u32
  idt_ports :: ports
  idt_interrupts :: bool

definition remap_pic :: "ports \<Rightarrow> ports" where
  "remap_pic = outb 0xA1 0 \<circ> outb 0x21 0 \<circ> outb 0xA1 1 \<circ> outb 0x21 1 \<circ> outb 0xA1 2 \<circ> outb 0x21 4 \<circ>
     outb 0xA1 40 \<circ> outb 0x21 0x20 \<circ> outb 0xA0 0x11 \<circ> outb 0x20 0x11"

definition idt_init :: "(nat \<Rightarrow> u32) \<Rightarrow> addr \<Rightarrow> ports \<Rightarrow> idt_state" where
  "idt_init irq idt_address p =
     \<lparr>IDTTable = configureIdt irq (\<lambda>_. empty_gate),
      idt_ptr0 = 8 * 256 + push_bit 16 (idt_address AND 0xffff),
      idt_ptr1 = drop_bit 16 idt_address,
      idt_ports = remap_pic p,
      idt_interrupts = True\<rparr>"

subsection \<open>Interrupt callbacks\<close>

text \<open>The callback table holds the registered objects; \<open>'h\<close> names them.\<close>

definition registerInterrupt :: "u32 \<Rightarrow> 'h \<Rightarrow> (u32 \<Rightarrow> 'h option) \<Rightarrow> u32 \<Rightarrow> 'h option" where
  "registerInterrupt intNum this tbl = (if intNum < NumInterrupts then tbl(intNum \<mapsto> this) else tbl)"

text \<open>The object whose \<open>irqCallback\<close> is called for an interrupt.\<close>

definition dispatch :: "(u32 \<Rightarrow> 'h option) \<Rightarrow> u32 \<Rightarrow> 'h option" where
  "dispatch tbl intNum = (if intNum < NumInterrupts then tbl intNum else None)"

definition end_of_interrupt :: "u32 \<Rightarrow> ports \<Rightarrow> ports" where
  "end_of_interrupt n = (if 40 \<le> n then outb 0xA0 0x20 else outb 0x20 0x20)"

definition ConfigurePit :: "ports \<Rightarrow> ports" where
  "ConfigurePit p =
     (let divisor = 1193182 div 1000 :: u32
      in outb 0x40 (ucast (drop_bit 8 divisor AND 0xFF)) (outb 0x40 (ucast (divisor AND 0xFF)) (outb 0x43 0x36 p)))"

section \<open>Properties\<close>

text \<open>The fields of a segment descriptor as the processor reads them.\<close>

definition desc_base :: "u64 \<Rightarrow> u32" where
  "desc_base d = ucast (drop_bit 16 d AND 0xFFFFFF) OR push_bit 24 (ucast (drop_bit 56 d))"

definition desc_limit :: "u64 \<Rightarrow> u32" where
  "desc_limit d = ucast (d AND 0xFFFF) OR push_bit 16 (ucast (drop_bit 48 d AND 0xF))"

definition desc_access :: "u64 \<Rightarrow> u8" where
  "desc_access d = ucast (drop_bit 40 d)"

definition desc_flags :: "u64 \<Rightarrow> u8" where
  "desc_flags d = ucast (drop_bit 52 d AND 0xF)"

lemma bit_mask_int:
  "bit (0xF0000 :: int) n \<longleftrightarrow> 16 \<le> n \<and> n < 20"
  "bit (0xF0FF00 :: int) n \<longleftrightarrow> (8 \<le> n \<and> n < 16) \<or> (20 \<le> n \<and> n < 24)"
  "bit (0xFF :: int) n \<longleftrightarrow> n < 8"
  "bit (0xFF000000 :: int) n \<longleftrightarrow> 24 \<le> n \<and> n < 32"
  "bit (0xFFFF :: int) n \<longleftrightarrow> n < 16"
  "bit (0xFFFFF :: int) n \<longleftrightarrow> n < 20"
  "bit (0xFFFF0000 :: int) n \<longleftrightarrow> 16 \<le> n \<and> n < 32"
  "bit (0xFFFFFF :: int) n \<longleftrightarrow> n < 24"
  "bit (0xF :: int) n \<longleftrightarrow> n < 4"
proof -
  have m: "(0xF0000 :: int) = push_bit 16 (mask 4)" "(0xF0FF00 :: int) = push_bit 8 (mask 8) OR push_bit 20 (mask 4)"
    "(0xFF :: int) = mask 8" "(0xFF000000 :: int) = push_bit 24 (mask 8)" "(0xFFFF :: int) = mask 16"
    "(0xFFFFF :: int) = mask 20" "(0xFFFF0000 :: int) = push_bit 16 (mask 16)"
    "(0xFFFFFF :: int) = mask 24" "(0xF :: int) = mask 4"
    by (simp_all add: mask_eq_exp_minus_1)
  show "bit (0xF0000 :: int) n \<longleftrightarrow> 16 \<le> n \<and> n < 20"
    "bit (0xF0FF00 :: int) n \<longleftrightarrow> (8 \<le> n \<and> n < 16) \<or> (20 \<le> n \<and> n < 24)"
    "bit (0xFF :: int) n \<longleftrightarrow> n < 8" "bit (0xFF000000 :: int) n \<longleftrightarrow> 24 \<le> n \<and> n < 32"
    "bit (0xFFFF :: int) n \<longleftrightarrow> n < 16" "bit (0xFFFFF :: int) n \<longleftrightarrow> n < 20"
    "bit (0xFFFF0000 :: int) n \<longleftrightarrow> 16 \<le> n \<and> n < 32"
    "bit (0xFFFFFF :: int) n \<longleftrightarrow> n < 24" "bit (0xF :: int) n \<longleftrightarrow> n < 4"
    unfolding m by (auto simp: bit_simps)
qed

lemma bit_descriptor_low:
  "n < 16 \<Longrightarrow> bit (create_descriptor b l f) n = bit l n"
  "16 \<le> n \<Longrightarrow> n < 32 \<Longrightarrow> bit (create_descriptor b l f) n = bit b (n - 16)"
  by (simp_all add: create_descriptor_def Let_def bit_mask_int bit_simps)

lemma bit_descriptor_high:
  "m < 8 \<Longrightarrow> bit (create_descriptor b l f) (32 + m) = bit b (16 + m)"
  "8 \<le> m \<Longrightarrow> m < 16 \<Longrightarrow> bit (create_descriptor b l f) (32 + m) = bit f (m - 8)"
  "16 \<le> m \<Longrightarrow> m < 20 \<Longrightarrow> bit (create_descriptor b l f) (32 + m) = bit l m"
  "20 \<le> m \<Longrightarrow> m < 24 \<Longrightarrow> bit (create_descriptor b l f) (32 + m) = bit f (m - 8)"
  "24 \<le> m \<Longrightarrow> m < 32 \<Longrightarrow> bit (create_descriptor b l f) (32 + m) = bit b m"
  by (auto simp: create_descriptor_def Let_def bit_mask_int bit_simps)

lemma descriptor_fields:
  "desc_base (create_descriptor b l f) = b" (is ?base)
  "desc_limit (create_descriptor b l f) = l AND 0xFFFFF" (is ?limit)
  "desc_access (create_descriptor b l f) = ucast f" (is ?access)
  "desc_flags (create_descriptor b l f) = ucast (drop_bit 12 f)" (is ?flags)
proof -
  let ?d = "create_descriptor b l f"
  note defs = desc_base_def desc_limit_def desc_access_def desc_flags_def bit_simps bit_mask_int
  show ?base
  proof (rule bit_word_eqI)
    fix n assume n: "n < LENGTH(32)"
    consider "n < 16" | m where "n = 16 + m" "m < 8" | m where "n = 24 + m" "m < 8"
      using n le_Suc_ex [of 16 n] le_Suc_ex [of 24 n] by fastforce
    then show "bit (desc_base ?d) n = bit b n"
    proof cases
      case (2 m)
      then show ?thesis using bit_descriptor_high(1) [of m b l f] by (simp add: defs)
    next
      case (3 m)
      then show ?thesis using bit_descriptor_high(5) [of "24 + m" b l f] by (simp add: defs)
    qed (simp add: defs bit_descriptor_low)
  qed
  show ?limit
  proof (rule bit_word_eqI)
    fix n assume n: "n < LENGTH(32)"
    consider "n < 16" | m where "n = 16 + m" "m < 4" | m where "n = 20 + m"
      using n le_Suc_ex [of 16 n] le_Suc_ex [of 20 n] by fastforce
    then show "bit (desc_limit ?d) n = bit (l AND 0xFFFFF) n"
    proof cases
      case (2 m)
      then show ?thesis using bit_descriptor_high(3) [of "16 + m" b l f] by (simp add: defs)
    qed (simp_all add: defs bit_descriptor_low)
  qed
  show ?access
  proof (rule bit_word_eqI)
    fix n assume "n < LENGTH(8)"
    then show "bit (desc_access ?d) n = bit (ucast f :: u8) n"
      using bit_descriptor_high(2) [of "8 + n" b l f] by (simp add: defs)
  qed
  show ?flags
  proof (rule bit_word_eqI)
    fix n assume n: "n < LENGTH(8)"
    have "\<not> bit f (12 + n)" if "4 \<le> n"
      using that by (simp add: impossible_bit)
    then show "bit (desc_flags ?d) n = bit (ucast (drop_bit 12 f) :: u8) n"
      using n bit_descriptor_high(4) [of "20 + n" b l f] by (cases "n < 4") (simp_all add: defs)
  qed
qed

text \<open>
  Property C36: \<open>create_descriptor\<close> packs what the processor unpacks: the base address, the low 20
  bits of the limit, the access byte and the four flag bits are read back from the descriptor for
  every base, limit and flag word.
\<close>

theorem descriptor_roundtrip:
  "desc_base (create_descriptor b l f) = b \<and>
   desc_limit (create_descriptor b l f) = l AND 0xFFFFF \<and>
   desc_access (create_descriptor b l f) = ucast f \<and>
   desc_flags (create_descriptor b l f) = ucast (drop_bit 12 f)"
  by (simp add: descriptor_fields)

text \<open>
  The segments that \<open>gdt::init\<close> installs. The four code and data segments are present,
  flat (base 0, limit \<open>0xFFFFF\<close> pages) and 32-bit, two at privilege 0 and two at privilege 3; the
  table has six entries, which is what the limit says. The last one is to be the task state
  segment: it has its address and size, but its access byte says that it is not present.
\<close>

theorem installed_segments:
  "map (\<lambda>d. (desc_base d, desc_limit d, desc_access d, desc_flags d)) (gdTable (gdt_init t g)) =
     [(0, 0, 0, 0), (0, 0xFFFFF, 0x9A, 0xC), (0, 0xFFFFF, 0x92, 0xC), (0, 0xFFFFF, 0xFA, 0xC),
      (0, 0xFFFFF, 0xF2, 0xC), (t, 104, 0x63, 0)] \<and>
   unat (gp_limit (gdt_init t g)) + 1 = 8 * length (gdTable (gdt_init t g)) \<and>
   \<not> bit (desc_access (gdTable (gdt_init t g) ! 5)) 7"
  by (simp add: gdt_init_def descriptor_fields GDT_CODE_PL0_def GDT_DATA_PL0_def GDT_CODE_PL3_def GDT_DATA_PL3_def
      SEG_DESCTYPE_def SEG_PRES_def SEG_SAVL_def SEG_LONG_def SEG_SIZE_def SEG_GRAN_def SEG_PRIV_def sizeof_TSS_def)

text \<open>The address that the processor calls through a gate.\<close>

definition gate_offset :: "IDT_entry \<Rightarrow> u32" where
  "gate_offset g = ucast (offsetLower g) OR push_bit 16 (ucast (offsethigher g))"

lemma gate_offset_configureGate:
  "gate_offset (configureGate h k t n) = (if n = k then h else gate_offset (t n))"
  by (rule bit_word_eqI) (auto simp: gate_offset_def configureGate_def bit_simps bit_mask_int)

lemma gate_type_configureGate:
  "typeAttribute (configureGate h k t n) = (if n = k then 0x8E else typeAttribute (t n))"
  "selector (configureGate h k t n) = (if n = k then 8 else selector (t n))"
  by (simp_all add: configureGate_def)

text \<open>
  Property C35: the interrupt table after \<open>IDT::init\<close>. Each gate the code fills is a present ring-0
  interrupt gate in the kernel code segment whose split offset gives back the address of its
  stub. The stub of number \<open>n\<close> is in gate \<open>n\<close> with one exception: gate 2 has the stub of
  interrupt 3, and gate 3 is left empty. The pseudo descriptor has the table's address; its limit is
  the size of the table, one more than the last valid offset.
\<close>

theorem idt_gates:
  "(let t = IDTTable (idt_init irq a p) in
     (\<forall>n. n \<in> {0, 1, 2, 4, 5, 6, 7, 8, 10, 11, 12, 13, 14, 17, 32, 33, 128} \<longleftrightarrow>
        typeAttribute (t n) = 0x8E \<and> selector (t n) = 8) \<and>
     (\<forall>n. gate_offset (t n) =
        (if n = 2 then irq 3
         else if n \<in> {0, 1, 4, 5, 6, 7, 8, 10, 11, 12, 13, 14, 17, 32, 33, 128} then irq n else 0))) \<and>
   (idt_ptr0 (idt_init irq a p) AND 0xFFFF) = 2048 \<and>
   (drop_bit 16 (idt_ptr0 (idt_init irq a p)) OR push_bit 16 (idt_ptr1 (idt_init irq a p))) = a"
proof -
  have e: "typeAttribute empty_gate = 0" "gate_offset empty_gate = 0"
    by (simp_all add: empty_gate_def gate_offset_def)
  have "(2048 :: int) = push_bit 11 1" by simp
  then have bit_2048: "bit (2048 :: int) n \<longleftrightarrow> n = 11" for n
    by (simp only: bit_push_bit_iff) (auto simp: bit_simps)
  have "(2048 :: u32) + push_bit 16 (a AND 0xffff) = 2048 OR push_bit 16 (a AND 0xffff)"
    by (rule disjunctive_add) (auto simp: bit_2048 bit_simps)
  then have ptr: "idt_ptr0 (idt_init irq a p) = 2048 OR push_bit 16 (a AND 0xffff)"
    by (simp add: idt_init_def)
  have limit: "idt_ptr0 (idt_init irq a p) AND 0xFFFF = 2048"
    unfolding ptr by (rule bit_word_eqI) (auto simp: bit_2048 bit_simps bit_mask_int)
  have base: "drop_bit 16 (idt_ptr0 (idt_init irq a p)) OR push_bit 16 (idt_ptr1 (idt_init irq a p)) = a"
    (is "?b = a")
  proof (rule bit_word_eqI)
    fix n assume "n < LENGTH(32)"
    then show "bit ?b n = bit a n"
      unfolding ptr by (cases "n < 16") (auto simp: idt_init_def bit_2048 bit_simps bit_mask_int)
  qed
  show ?thesis
    using limit base
    by (simp add: Let_def idt_init_def configureIdt_def gate_type_configureGate gate_offset_configureGate e)
qed

end
