(* ===== verification/Devices.thy ===== *)
theory Devices
  imports RingBuffer Arch Printf_Text
begin

text \<open>
  The character devices: \<open>Devices/Keyboard.cpp\<close>, \<open>Devices/TTY.cpp\<close> with \<open>Arch/i386/vga.h\<close>,
  \<open>Devices/Serial.cpp\<close>, and \<open>printk\<close> of \<open>Libk/Libk.cpp\<close>, which formats onto the console. The
  keyboard's queue is an interpretation of \<open>bounded_queue\<close>.
\<close>

section \<open>Definitions\<close>

subsection \<open>Keyboard\<close>

definition keymap :: "u8 list" where
  "keymap =
     [0, 27, 49, 50, 51, 52, 53, 54, 55, 56, 57, 48, 45, 61, 8,
      9, 113, 119, 101, 114, 116, 121, 117, 105, 111, 112, 91, 93, 10,
      0, 97, 115, 100, 102, 103, 104, 106, 107, 108, 59, 39, 96, 0,
      92, 122, 120, 99, 118, 98, 110, 109, 44, 46, 47, 0, 42, 0,
      32, 0, 0,
      0, 0, 0, 0, 0, 0, 0, 0, 0, 0, 0, 55, 56, 57, 45, 52, 53, 54, 43, 49, 50, 51, 48, 46, 0, 0, 92, 0, 0, 0]"

text \<open>
  \<open>keymap[code]\<close> is not checked against the table's end: \<open>beyond\<close> is what the memory after the
  table holds.
\<close>

definition keymap_at :: "(nat \<Rightarrow> u8) \<Rightarrow> u8 \<Rightarrow> u8" where
  "keymap_at beyond code =
     (if unat code < length keymap then keymap ! unat code else beyond (unat code - length keymap))"

abbreviation (input) KEYBOARD_RINGBUF_SIZE :: u32 where "KEYBOARD_RINGBUF_SIZE \<equiv> 1024"
abbreviation (input) PS2_DATA_REG :: u16 where "PS2_DATA_REG \<equiv> 0x60"

record keyboard =
  m_ringbuffer :: "u8 ringbuffer"
  kb_sched :: scheduler
  kb_ports :: ports

definition keyboard_irqCallback :: "(nat \<Rightarrow> u8) \<Rightarrow> keyboard \<Rightarrow> keyboard" where
  "keyboard_irqCallback beyond k =
     (let (keycode, p) = inb PS2_DATA_REG (kb_ports k);
          k1 = k\<lparr>kb_ports := p\<rparr>
      in if keycode AND 0x80 = 0 then
           let code = keycode AND 0x7F;
               c = keymap_at beyond code;
               (_, b, s) = push KEYBOARD_RINGBUF_SIZE c False (m_ringbuffer k1, kb_sched k1)
           in k1\<lparr>m_ringbuffer := b, kb_sched := s\<rparr>
         else k1)"

text \<open>
  \<open>read\<close> polls the queue. \<open>irqs\<close> tells for each turn of the loop whether the keyboard interrupts
  before it; running out of turns means that the loop is still waiting. The bytes stored in the
  buffer are collected in order, and the function's value is 0.
\<close>

fun keyboard_read_loop ::
  "(nat \<Rightarrow> u8) \<Rightarrow> bool list \<Rightarrow> u32 \<Rightarrow> u32 \<Rightarrow> u8 list \<Rightarrow> keyboard \<Rightarrow> (u32 \<times> u8 list \<times> keyboard) option" where
  "keyboard_read_loop beyond irqs len rd buf k =
     (if \<not> rd < len then Some (0, buf, k)
      else case irqs of
        [] \<Rightarrow> None
      | irq # irqs' \<Rightarrow>
          let k1 = (if irq then keyboard_irqCallback beyond k else k)
          in if 0 < numElements (m_ringbuffer k1) then
               case pop KEYBOARD_RINGBUF_SIZE (m_ringbuffer k1, kb_sched k1) of
                 (Some c, b, s) \<Rightarrow>
                   keyboard_read_loop beyond irqs' len (rd + 1) (buf @ [c]) (k1\<lparr>m_ringbuffer := b, kb_sched := s\<rparr>)
               | (None, b, s) \<Rightarrow> None
             else keyboard_read_loop beyond irqs' len rd buf k1)"

declare keyboard_read_loop.simps [simp del]

definition keyboard_read :: "(nat \<Rightarrow> u8) \<Rightarrow> bool list \<Rightarrow> u32 \<Rightarrow> keyboard \<Rightarrow> (u32 \<times> u8 list \<times> keyboard) option" where
  "keyboard_read beyond irqs len k = keyboard_read_loop beyond irqs len 0 [] k"

definition keyboard_write :: "u8 list \<Rightarrow> u32 \<Rightarrow> u32" where
  "keyboard_write buf len = - 1"

subsection \<open>The text screen\<close>

abbreviation (input) VGA_WIDTH :: u32 where "VGA_WIDTH \<equiv> 80"
abbreviation (input) VGA_HEIGHT :: u32 where "VGA_HEIGHT \<equiv> 25"
abbreviation (input) VGA_ADDRESS_REGISTER :: u16 where "VGA_ADDRESS_REGISTER \<equiv> 0x3D4"
abbreviation (input) VGA_DATA_REGISTER :: u16 where "VGA_DATA_REGISTER \<equiv> 0x3D5"
abbreviation (input) VGA_REG_CURSOR_START :: u8 where "VGA_REG_CURSOR_START \<equiv> 0x0A"
abbreviation (input) VGA_REG_CURSOR_END :: u8 where "VGA_REG_CURSOR_END \<equiv> 0x0B"
abbreviation (input) VGA_REG_CURSOR_LOC_HIGH :: u8 where "VGA_REG_CURSOR_LOC_HIGH \<equiv> 0x0E"
abbreviation (input) VGA_REG_CURSOR_LOC_LOW :: u8 where "VGA_REG_CURSOR_LOC_LOW \<equiv> 0x0F"
abbreviation (input) VGA_COLOR_BLACK :: u8 where "VGA_COLOR_BLACK \<equiv> 0"
abbreviation (input) VGA_COLOR_LIGHT_GREY :: u8 where "VGA_COLOR_LIGHT_GREY \<equiv> 7"

definition vga_entry_color :: "u8 \<Rightarrow> u8 \<Rightarrow> u8" where
  "vga_entry_color fg bg = fg OR push_bit 4 bg"

definition vga_entry :: "u8 \<Rightarrow> u8 \<Rightarrow> u16" where
  "vga_entry uc color = ucast uc OR push_bit 8 (ucast color)"

text \<open>\<open>m_buffer\<close> is the memory at \<open>0xB8000\<close>, in 16-bit cells, by index.\<close>

record tty =
  m_color :: u8
  m_row :: u32
  m_column :: u32
  cells :: "u32 \<Rightarrow> u16"
  tty_ports :: ports

definition getBufferIndex :: "u32 \<Rightarrow> u32 \<Rightarrow> u32" where
  "getBufferIndex x y = y * VGA_WIDTH + x"

definition tty_outb :: "u16 \<Rightarrow> u8 \<Rightarrow> tty \<Rightarrow> tty" where
  "tty_outb port val t = t\<lparr>tty_ports := outb port val (tty_ports t)\<rparr>"

definition vgaWrite :: "u8 \<Rightarrow> u8 \<Rightarrow> tty \<Rightarrow> tty" where
  "vgaWrite address val t = tty_outb VGA_DATA_REGISTER val (tty_outb VGA_ADDRESS_REGISTER address t)"

definition vgaRead :: "u8 \<Rightarrow> tty \<Rightarrow> u8 \<times> tty" where
  "vgaRead address t =
     (let t1 = tty_outb VGA_ADDRESS_REGISTER address t; (v, p) = inb VGA_DATA_REGISTER (tty_ports t1)
      in (v, t1\<lparr>tty_ports := p\<rparr>))"

definition updateCursor :: "u32 \<Rightarrow> u32 \<Rightarrow> tty \<Rightarrow> tty" where
  "updateCursor x y t =
     (let pos = getBufferIndex x y
      in vgaWrite VGA_REG_CURSOR_LOC_HIGH (ucast (drop_bit 8 pos AND 0xFF))
           (vgaWrite VGA_REG_CURSOR_LOC_LOW (ucast (pos AND 0xFF)) t))"

definition enableCursor :: "u8 \<Rightarrow> u8 \<Rightarrow> tty \<Rightarrow> tty" where
  "enableCursor cursor_start cursor_end t =
     (let (v1, t1) = vgaRead VGA_REG_CURSOR_START t;
          t2 = vgaWrite VGA_REG_CURSOR_START ((v1 AND 0xC0) OR cursor_start) t1;
          (v2, t3) = vgaRead VGA_REG_CURSOR_END t2
      in vgaWrite VGA_REG_CURSOR_START ((v2 AND 0xE0) OR cursor_end) t3)"

definition disableCursor :: "tty \<Rightarrow> tty" where
  "disableCursor t = vgaWrite VGA_REG_CURSOR_START 0x20 t"

definition tty_clear :: "tty \<Rightarrow> tty" where
  "tty_clear =
     for_range 0 VGA_HEIGHT (\<lambda>y. for_range 0 VGA_WIDTH (\<lambda>x t.
       t\<lparr>cells := (cells t)(y * VGA_WIDTH + x := vga_entry 32 (m_color t))\<rparr>))"

definition writeChar_at :: "u8 \<Rightarrow> u8 \<Rightarrow> u32 \<Rightarrow> u32 \<Rightarrow> tty \<Rightarrow> tty" where
  "writeChar_at c color x y t =
     (let index = getBufferIndex x y;
          (index', t1) =
            (if VGA_WIDTH * VGA_HEIGHT < index then (0, (tty_clear t)\<lparr>m_row := 0, m_column := 0\<rparr>) else (index, t))
      in t1\<lparr>cells := (cells t1)(index' := vga_entry c color)\<rparr>)"

definition writeChar :: "u8 \<Rightarrow> tty \<Rightarrow> tty" where
  "writeChar c t =
     (if c = 13 \<or> c = 10 then t\<lparr>m_row := m_row t + 1, m_column := 0\<rparr>
      else if c = 8 then
        (if 0 <s m_column t
         then t\<lparr>cells := (cells t)(getBufferIndex (m_column t - 1) (m_row t) := 32), m_column := m_column t - 1\<rparr>
         else t)
      else
        (let t1 = writeChar_at c (m_color t) (m_column t) (m_row t) t;
             t2 = t1\<lparr>m_column := m_column t1 + 1\<rparr>
         in if m_column t2 = VGA_WIDTH then
              let t3 = t2\<lparr>m_column := 0, m_row := m_row t2 + 1\<rparr>
              in if m_row t3 = VGA_HEIGHT then t3\<lparr>m_row := 0\<rparr> else t3
            else t2))"

primrec writeChars :: "u8 list \<Rightarrow> tty \<Rightarrow> tty" where
  "writeChars [] t = t"
| "writeChars (c # cs) t = writeChars cs (writeChar c t)"

text \<open>\<open>write\<close>: the buffer is given as the \<open>length\<close> bytes it holds.\<close>

definition tty_write :: "u8 list \<Rightarrow> tty \<Rightarrow> u32 \<times> tty" where
  "tty_write buf t =
     (let t1 = writeChars buf t in (of_nat (length buf), updateCursor (m_column t1) (m_row t1) t1))"

definition tty_read :: "u32 \<Rightarrow> u32" where
  "tty_read len = - 1"

text \<open>The part of \<open>open\<close> that sets up the screen.\<close>

definition tty_open_screen :: "tty \<Rightarrow> tty" where
  "tty_open_screen t =
     updateCursor 0 0 (enableCursor 0 0 (tty_clear
       (t\<lparr>m_row := 0, m_column := 0, m_color := vga_entry_color VGA_COLOR_LIGHT_GREY VGA_COLOR_BLACK\<rparr>)))"

text \<open>One turn of \<open>tty_process\<close>, the task that echoes the keyboard.\<close>

definition tty_process_step :: "(nat \<Rightarrow> u8) \<Rightarrow> bool list \<Rightarrow> keyboard \<times> tty \<Rightarrow> (keyboard \<times> tty) option" where
  "tty_process_step beyond irqs kt =
     (case keyboard_read beyond irqs 1 (fst kt) of
        None \<Rightarrow> None
      | Some (_, buf, k) \<Rightarrow>
          let t1 = writeChar (hd buf) (snd kt) in Some (k, updateCursor (m_column t1) (m_row t1) t1))"

subsection \<open>Serial port\<close>

abbreviation (input) COM1 :: u16 where "COM1 \<equiv> 0x3F8"
abbreviation (input) LINE_STATUS :: u16 where "LINE_STATUS \<equiv> 0x3FD"

definition canTransmit :: "ports \<Rightarrow> u8 \<times> ports" where
  "canTransmit p = (let (v, p1) = inb LINE_STATUS p in (v AND 0x20, p1))"

partial_function (option) serial_wait :: "ports \<Rightarrow> ports option" where
  "serial_wait p = (let (v, p1) = canTransmit p in if v = 0 then serial_wait p1 else Some p1)"

definition serial_Write :: "u8 \<Rightarrow> ports \<Rightarrow> ports option" where
  "serial_Write a p = map_option (outb COM1 a) (serial_wait p)"

primrec serial_Write_loop :: "u8 list \<Rightarrow> ports \<Rightarrow> ports option" where
  "serial_Write_loop [] p = Some p"
| "serial_Write_loop (c # cs) p = Option.bind (serial_Write c p) (serial_Write_loop cs)"

definition serial_Write_data :: "u8 list \<Rightarrow> ports \<Rightarrow> (u32 \<times> ports) option" where
  "serial_Write_data bytes p = map_option (\<lambda>p1. (of_nat (length bytes), p1)) (serial_Write_loop bytes p)"

definition serial_Init :: "ports \<Rightarrow> ports" where
  "serial_Init =
     outb (COM1 + 4) 0x0B \<circ> outb (COM1 + 2) 0xC7 \<circ> outb (COM1 + 3) 0x03 \<circ> outb COM1 0x00 \<circ> outb COM1 0x03 \<circ>
     outb (COM1 + 3) 0x80 \<circ> outb (COM1 + 1) 0x00"

subsection \<open>printk\<close>

abbreviation (input) PRINTK_BUFFER_SIZE :: u32 where "PRINTK_BUFFER_SIZE \<equiv> 100"

definition printk ::
  "fpu \<Rightarrow> addr \<Rightarrow> u8 list \<Rightarrow> va_arg list \<Rightarrow> world \<times> tty option \<Rightarrow> (world \<times> tty option) option" where
  "printk fp printkBuffer format va wc =
     (case vsnprintf fp printkBuffer (- 1) format va (fst wc) of
        None \<Rightarrow> None
      | Some (n, w) \<Rightarrow>
          let len = (if PRINTK_BUFFER_SIZE <s n then PRINTK_BUFFER_SIZE else n)
          in Some (w, map_option (\<lambda>t. snd (tty_write (bytes_at (mem w) printkBuffer (unat len)) t)) (snd wc)))"

section \<open>The keyboard queue\<close>

interpretation kbd: bounded_queue
  "\<lambda>x. push KEYBOARD_RINGBUF_SIZE x False" "\<lambda>x. push KEYBOARD_RINGBUF_SIZE x True"
  "pop KEYBOARD_RINGBUF_SIZE" "\<lambda>q. rb_queue KEYBOARD_RINGBUF_SIZE (fst q)"
  "\<lambda>q. rb_inv KEYBOARD_RINGBUF_SIZE (fst q)" "unat KEYBOARD_RINGBUF_SIZE"
  by (rule ringbuffer_is_bounded_queue) simp_all

definition kb_inv :: "keyboard \<Rightarrow> bool" where
  "kb_inv k \<longleftrightarrow> rb_inv KEYBOARD_RINGBUF_SIZE (m_ringbuffer k)"

definition kb_queue :: "keyboard \<Rightarrow> u8 list" where
  "kb_queue k = rb_queue KEYBOARD_RINGBUF_SIZE (m_ringbuffer k)"

text \<open>The characters of the next \<open>n\<close> scan codes that the controller delivers: releases give none.\<close>

definition scan_char :: "(nat \<Rightarrow> u8) \<Rightarrow> u8 \<Rightarrow> u8 list" where
  "scan_char beyond keycode = (if bit keycode 7 then [] else [keymap_at beyond keycode])"

primrec typed :: "(nat \<Rightarrow> u8) \<Rightarrow> nat \<Rightarrow> ports \<Rightarrow> u8 list" where
  "typed beyond 0 p = []"
| "typed beyond (Suc n) p =
     (let (keycode, p1) = inb PS2_DATA_REG p in scan_char beyond keycode @ typed beyond n p1)"

lemma and_80: "(keycode :: u8) AND 0x80 = 0 \<longleftrightarrow> \<not> bit keycode 7"
  using and_exp_eq_0_iff_not_bit [of keycode 7] by simp

lemma and_7F: "\<not> bit (keycode :: u8) 7 \<Longrightarrow> keycode AND 0x7F = keycode"
proof (rule bit_word_eqI)
  fix n assume k: "\<not> bit keycode 7" and n: "n < LENGTH(8)"
  have "(0x7F :: u8) = mask 7" by (simp add: mask_eq_exp_minus_1)
  then have "bit (keycode AND 0x7F) n \<longleftrightarrow> bit keycode n \<and> n < 7"
    by (simp only: bit_and_iff bit_mask_iff) (use n in auto)
  with k n show "bit (keycode AND 0x7F) n = bit keycode n"
    by (cases "n = 7") auto
qed

lemma irq_queue:
  assumes "kb_inv k"
  shows "kb_inv (keyboard_irqCallback beyond k)"
    "kb_queue (keyboard_irqCallback beyond k) =
       take 1024 (kb_queue k @ scan_char beyond (fst (inb PS2_DATA_REG (kb_ports k))))"
    "kb_ports (keyboard_irqCallback beyond k) = snd (inb PS2_DATA_REG (kb_ports k))"
proof -
  obtain keycode p where i: "inb PS2_DATA_REG (kb_ports k) = (keycode, p)" by fastforce
  let ?q = "(m_ringbuffer k, kb_sched k)"
  have bound: "length (kb_queue k) \<le> 1024"
    using kbd.items_bound [of ?q] assms by (simp add: kb_inv_def kb_queue_def)
  show ports: "kb_ports (keyboard_irqCallback beyond k) = snd (inb PS2_DATA_REG (kb_ports k))"
    by (simp add: keyboard_irqCallback_def i Let_def split_beta)
  have "kb_inv (keyboard_irqCallback beyond k) \<and>
    kb_queue (keyboard_irqCallback beyond k) = take 1024 (kb_queue k @ scan_char beyond keycode)"
  proof (cases "bit keycode 7")
    case True
    then show ?thesis using assms bound
      by (simp add: keyboard_irqCallback_def i and_80 scan_char_def kb_inv_def kb_queue_def)
  next
    case False
    then show ?thesis
      using assms kbd.enq_all_items [of ?q "[keymap_at beyond keycode]"]
      by (simp add: keyboard_irqCallback_def i and_80 and_7F scan_char_def kb_inv_def kb_queue_def Let_def split_beta)
  qed
  then show "kb_inv (keyboard_irqCallback beyond k)"
    "kb_queue (keyboard_irqCallback beyond k) =
       take 1024 (kb_queue k @ scan_char beyond (fst (inb PS2_DATA_REG (kb_ports k))))" by (simp_all add: i)
qed

lemma pop_keyboard:
  assumes "kb_inv k" and "kb_queue k = c # cs"
  shows "\<exists>b s. pop KEYBOARD_RINGBUF_SIZE (m_ringbuffer k, kb_sched k) = (Some c, b, s) \<and>
    kb_inv (k\<lparr>m_ringbuffer := b, kb_sched := s\<rparr>) \<and> kb_queue (k\<lparr>m_ringbuffer := b, kb_sched := s\<rparr>) = cs"
  using kbd.deq_some [of "(m_ringbuffer k, kb_sched k)" c cs] kbd.deq_inv [of "(m_ringbuffer k, kb_sched k)"] assms
  by (cases "pop KEYBOARD_RINGBUF_SIZE (m_ringbuffer k, kb_sched k)") (auto simp: kb_inv_def kb_queue_def)

lemma numElements_queue: "kb_inv k \<Longrightarrow> unat (numElements (m_ringbuffer k)) = length (kb_queue k)"
  by (simp add: numElements_def kb_queue_def rb_queue_def)

lemma typed_Suc [simp]:
  "typed beyond (Suc n) p = scan_char beyond (fst (inb PS2_DATA_REG p)) @ typed beyond n (snd (inb PS2_DATA_REG p))"
  by (simp add: split_beta)

lemma scan_char_le: "length (scan_char beyond c) \<le> 1"
  by (simp add: scan_char_def)

lemma typed_le: "length (typed beyond n p) \<le> n"
proof (induction n arbitrary: p)
  case (Suc n)
  from add_mono [OF scan_char_le Suc] show ?case by (simp del: typed.simps(2))
qed simp

text \<open>The keyboard after a possible interrupt, when there is room for its character.\<close>

lemma polled:
  fixes beyond :: "nat \<Rightarrow> u8"
  assumes "kb_inv k" and "irq \<Longrightarrow> length (kb_queue k) < 1024"
  defines "k1 \<equiv> (if irq then keyboard_irqCallback beyond k else k)"
    and "n1 \<equiv> (if irq then 1 else 0 :: nat)"
  shows "kb_inv k1 \<and> kb_queue k1 = kb_queue k @ typed beyond n1 (kb_ports k) \<and>
    (\<forall>n. typed beyond (n1 + n) (kb_ports k) = typed beyond n1 (kb_ports k) @ typed beyond n (kb_ports k1))"
proof (cases irq)
  case True
  then have "length (kb_queue k @ scan_char beyond (fst (inb PS2_DATA_REG (kb_ports k)))) \<le> 1024"
    using assms(2) scan_char_le [of beyond "fst (inb PS2_DATA_REG (kb_ports k))"] by simp
  then show ?thesis using True irq_queue [OF assms(1), of beyond] by (simp add: k1_def n1_def take_all del: take_append typed.simps(2))
next
  case False
  then show ?thesis using assms(1) by (simp add: k1_def n1_def)
qed

text \<open>Nothing is lost or reordered while the queue has room for every interrupt.\<close>

lemma read_loop_fifo:
  assumes "kb_inv k" and "length (kb_queue k) + count_list irqs True \<le> 1024" and "rd \<le> len"
    and "keyboard_read_loop beyond irqs len rd buf k = Some (r, res, k')"
  shows "r = 0 \<and> kb_inv k' \<and>
    (\<exists>new. res = buf @ new \<and> unat rd + length new = unat len \<and>
    (\<exists>n \<le> count_list irqs True. new @ kb_queue k' = kb_queue k @ typed beyond n (kb_ports k)))"
  using assms
proof (induction irqs arbitrary: rd buf k)
  case Nil
  from Nil(4) have "r = 0 \<and> res = buf \<and> k' = k \<and> \<not> rd < len"
    by (subst (asm) keyboard_read_loop.simps) (auto split: if_splits)
  with Nil show ?case by (auto simp: word_less_nat_alt word_le_nat_alt intro!: exI [of _ 0])
next
  case (Cons irq irqs)
  show ?case
  proof (cases "rd < len")
    case False
    with Cons.prems(4) have "r = 0 \<and> res = buf \<and> k' = k"
      by (subst (asm) keyboard_read_loop.simps) auto
    then show ?thesis using False Cons.prems(1,3) by (auto intro!: exI [of _ 0] simp: word_less_nat_alt word_le_nat_alt)
  next
    case True
    define k1 where "k1 = (if irq then keyboard_irqCallback beyond k else k)"
    define n1 where "n1 = (if irq then 1 else 0 :: nat)"
    have c: "count_list (irq # irqs) True = n1 + count_list irqs True" by (simp add: n1_def)
    have k1: "kb_inv k1" "kb_queue k1 = kb_queue k @ typed beyond n1 (kb_ports k)"
      "\<And>n. typed beyond (n1 + n) (kb_ports k) = typed beyond n1 (kb_ports k) @ typed beyond n (kb_ports k1)"
      using polled [OF Cons.prems(1), of irq beyond] Cons.prems(2) by (auto simp: k1_def n1_def)
    have room: "length (kb_queue k1) + count_list irqs True \<le> 1024"
      using Cons.prems(2) typed_le [of beyond n1 "kb_ports k"] unfolding k1(2) c by simp
    have fin: "\<exists>n \<le> n1 + count_list irqs True. new @ kb_queue k' = kb_queue k @ typed beyond n (kb_ports k)"
      if "n \<le> count_list irqs True" "new @ kb_queue k' = kb_queue k1 @ typed beyond n (kb_ports k1)" for n new
      using that k1(2) k1(3) [of n] by (intro exI [of _ "n1 + n"]) simp
    show ?thesis
    proof (cases "kb_queue k1")
      case Nil
      then have "keyboard_read_loop beyond irqs len rd buf k1 = Some (r, res, k')"
        using Cons.prems(4) True numElements_queue [OF k1(1)]
        by (subst (asm) keyboard_read_loop.simps) (simp add: k1_def [symmetric] word_less_nat_alt)
      from Cons.IH [OF k1(1) room Cons.prems(3) this] show ?thesis using fin unfolding c by metis
    next
      case (Cons ch rest)
      then obtain b s where pop: "pop KEYBOARD_RINGBUF_SIZE (m_ringbuffer k1, kb_sched k1) = (Some ch, b, s)"
        and k2: "kb_inv (k1\<lparr>m_ringbuffer := b, kb_sched := s\<rparr>)" "kb_queue (k1\<lparr>m_ringbuffer := b, kb_sched := s\<rparr>) = rest"
        using pop_keyboard [OF k1(1)] by blast
      let ?k2 = "k1\<lparr>m_ringbuffer := b, kb_sched := s\<rparr>"
      have rd1: "unat (rd + 1) = unat rd + 1" using unat_Suc_less [OF True] by simp
      have le: "rd + 1 \<le> len" using True rd1 by (simp add: word_less_nat_alt word_le_nat_alt)
      have run: "keyboard_read_loop beyond irqs len (rd + 1) (buf @ [ch]) ?k2 = Some (r, res, k')"
        using Cons.prems(4) True numElements_queue [OF k1(1)] Cons pop
        by (subst (asm) keyboard_read_loop.simps) (simp add: k1_def [symmetric] word_less_nat_alt)
      have room2: "length (kb_queue ?k2) + count_list irqs True \<le> 1024" using room k2(2) Cons by simp
      from Cons.IH [OF k2(1) room2 le run] obtain new n where
        "r = 0" "kb_inv k'" "res = buf @ ch # new" "unat rd + 1 + length new = unat len"
        "n \<le> count_list irqs True" "new @ kb_queue k' = rest @ typed beyond n (kb_ports k1)"
        unfolding k2(2) rd1 by auto
      then show ?thesis using fin [of n "ch # new"] Cons unfolding c by (auto intro!: exI [of _ "ch # new"])
    qed
  qed
qed


text \<open>Every turn of the loop that finds the queue filled takes a character.\<close>

lemma read_loop_returns:
  assumes "kb_inv k" and "rd \<le> len" and "unat len - unat rd \<le> length (kb_queue k)"
    and "unat len - unat rd \<le> length irqs" and "length (kb_queue k) + count_list irqs True \<le> 1024"
  shows "keyboard_read_loop beyond irqs len rd buf k \<noteq> None"
  using assms
proof (induction irqs arbitrary: rd buf k)
  case Nil
  then have "\<not> rd < len" by (simp add: word_less_nat_alt)
  then show ?case by (subst keyboard_read_loop.simps) simp
next
  case (Cons irq irqs)
  show ?case
  proof (cases "rd < len")
    case False
    then show ?thesis by (subst keyboard_read_loop.simps) simp
  next
    case True
    define k1 where "k1 = (if irq then keyboard_irqCallback beyond k else k)"
    define n1 where "n1 = (if irq then 1 else 0 :: nat)"
    have c: "count_list (irq # irqs) True = n1 + count_list irqs True" by (simp add: n1_def)
    have k1: "kb_inv k1" "kb_queue k1 = kb_queue k @ typed beyond n1 (kb_ports k)"
      using polled [OF Cons.prems(1), of irq beyond] Cons.prems(5) by (auto simp: k1_def n1_def)
    have rd1: "unat (rd + 1) = unat rd + 1" using unat_Suc_less [OF True] by simp
    have lt: "unat rd < unat len" using True by (simp add: word_less_nat_alt)
    with Cons.prems(3) k1(2) have "kb_queue k1 \<noteq> []" by auto
    then obtain ch rest where q: "kb_queue k1 = ch # rest" by (meson list.exhaust)
    then obtain b s where pop: "pop KEYBOARD_RINGBUF_SIZE (m_ringbuffer k1, kb_sched k1) = (Some ch, b, s)"
      and k2: "kb_inv (k1\<lparr>m_ringbuffer := b, kb_sched := s\<rparr>)" "kb_queue (k1\<lparr>m_ringbuffer := b, kb_sched := s\<rparr>) = rest"
      using pop_keyboard [OF k1(1)] by blast
    have len: "length rest + 1 = length (kb_queue k) + length (typed beyond n1 (kb_ports k))"
      using arg_cong [OF k1(2), of length] q by simp
    have "keyboard_read_loop beyond irqs len (rd + 1) (buf @ [ch]) (k1\<lparr>m_ringbuffer := b, kb_sched := s\<rparr>) \<noteq> None"
      using Cons.prems(3-5) lt rd1 len typed_le [of beyond n1 "kb_ports k"] c
      by (intro Cons.IH [OF k2(1)]) (auto simp: k2(2) word_le_nat_alt)
    then show ?thesis
      using True numElements_queue [OF k1(1)] q pop
      by (subst keyboard_read_loop.simps) (simp add: k1_def [symmetric] word_less_nat_alt)
  qed
qed

text \<open>
  Property C28: the keyboard delivers what was typed, in order. While the queue has room for the
  interrupts that arrive, whatever \<open>read\<close> stores in the buffer followed by what stays queued is
  what was queued before followed by the characters of the scan codes received since; exactly
  the requested number of bytes is stored, although the function returns 0. A request for
  no more than what is queued returns within that many turns of the polling loop.
\<close>

theorem keyboard_delivers_in_order:
  assumes "kb_inv k" and "length (kb_queue k) + count_list irqs True \<le> 1024"
  shows "(\<forall>r bytes k'. keyboard_read beyond irqs len k = Some (r, bytes, k') \<longrightarrow>
      r = 0 \<and> kb_inv k' \<and> length bytes = unat len \<and>
      (\<exists>n \<le> count_list irqs True. bytes @ kb_queue k' = kb_queue k @ typed beyond n (kb_ports k))) \<and>
    (unat len \<le> length (kb_queue k) \<and> unat len \<le> length irqs \<longrightarrow> keyboard_read beyond irqs len k \<noteq> None)"
  using read_loop_fifo [OF assms, of 0 len beyond "[]"] read_loop_returns [OF assms(1) _ _ _ assms(2), of 0 len beyond "[]"]
  by (auto simp: keyboard_read_def)

definition typing_A :: ports where
  "typing_A = \<lparr>out_log = [], in_values = (\<lambda>_ n. if n = 0 then 0x1E else 0x9E), in_count = (\<lambda>_. 0)\<rparr>"

definition waiting_keyboard :: keyboard where
  "waiting_keyboard = \<lparr>m_ringbuffer = \<lparr>m_buffer = (replicate 1024 0)[0 := 0x62], m_head = 1, m_numElements = 1\<rparr>,
     kb_sched = booted, kb_ports = typing_A\<rparr>"

theorem keyboard_delivers_in_order_witness:
  "\<exists>r bytes k'. keyboard_read (\<lambda>_. 0) [True, True, False] 1 waiting_keyboard = Some (r, bytes, k') \<and>
      r = 0 \<and> kb_inv k' \<and> length bytes = unat (1 :: u32) \<and>
      (\<exists>n \<le> count_list [True, True, False] True.
         bytes @ kb_queue k' = kb_queue waiting_keyboard @ typed (\<lambda>_. 0) n (kb_ports waiting_keyboard))"
proof -
  have 1: "kb_inv waiting_keyboard" by (simp add: waiting_keyboard_def kb_inv_def rb_inv_def)
  have 2: "length (kb_queue waiting_keyboard) = 1" by (simp add: waiting_keyboard_def kb_queue_def rb_queue_def)
  note deliver = keyboard_delivers_in_order [OF 1, of "[True, True, False]" "\<lambda>_. 0" 1]
  obtain res where "keyboard_read (\<lambda>_. 0) [True, True, False] 1 waiting_keyboard = Some res"
    using deliver 2 by auto
  then show ?thesis using deliver 2 by (cases res) auto
qed

text \<open>
  A pressed key whose scan code is past the end of the 90-entry key map makes the
  interrupt handler queue a byte from the memory behind the table: the code is masked to seven bits
  but not checked against the table's length.
\<close>

lemma keymap_overread:
  assumes "kb_inv k" and "length (kb_queue k) < 1024" and "fst (inb PS2_DATA_REG (kb_ports k)) = keycode"
    and "90 \<le> keycode" and "keycode < 0x80"
  shows "kb_queue (keyboard_irqCallback beyond k) = kb_queue k @ [beyond (unat keycode - 90)]"
proof -
  have len: "length keymap = 90" by (simp add: keymap_def)
  have b: "90 \<le> unat keycode" "unat keycode < 128" using assms(4,5) by (simp_all add: word_le_nat_alt word_less_nat_alt)
  then have "\<not> bit (unat keycode) 7" by (simp add: bit_iff_odd)
  then have "\<not> bit keycode 7" by (simp add: bit_unsigned_iff)
  then show ?thesis using irq_queue(2) [OF assms(1), of beyond] assms(2,3) b(1) len
    by (simp add: scan_char_def keymap_at_def)
qed

section \<open>The screen\<close>

definition blanked :: "nat \<Rightarrow> tty \<Rightarrow> tty" where
  "blanked n t = t\<lparr>cells := (\<lambda>i. if unat i < n then vga_entry 32 (m_color t) else cells t i)\<rparr>"

lemma blanked_step:
  assumes "n < 2000"
  shows "(blanked n t)\<lparr>cells := (cells (blanked n t))(of_nat n := vga_entry 32 (m_color (blanked n t)))\<rparr> = blanked (Suc n) t"
proof -
  have "unat (of_nat n :: u32) = n" using assms by (intro unat_of_nat32) simp
  then have "i = of_nat n \<longleftrightarrow> unat i = n" for i :: u32 by (auto simp: word_unat_eq_iff)
  then show ?thesis by (auto simp: blanked_def fun_eq_iff less_Suc_eq)
qed

lemma tty_clear_blanks: "tty_clear t = blanked 2000 t"
proof -
  have row: "for_range 0 VGA_WIDTH (\<lambda>x t. t\<lparr>cells := (cells t)(of_nat y * VGA_WIDTH + x := vga_entry 32 (m_color t))\<rparr>)
      (blanked (y * 80) t) = blanked (Suc y * 80) t" if "y < 25" for y
  proof -
    have "for_range 0 VGA_WIDTH (\<lambda>x t. t\<lparr>cells := (cells t)(of_nat y * VGA_WIDTH + x := vga_entry 32 (m_color t))\<rparr>)
      (blanked (y * 80) t) = blanked (y * 80 + unat VGA_WIDTH) t"
    proof (rule for_range_inv)
      fix k s assume k: "k < unat VGA_WIDTH" and s: "s = blanked (y * 80 + k) t"
      have "of_nat y * VGA_WIDTH + of_nat k = (of_nat (y * 80 + k) :: u32)" by simp
      then show "s\<lparr>cells := (cells s)(of_nat y * VGA_WIDTH + of_nat k := vga_entry 32 (m_color s))\<rparr> =
          blanked (y * 80 + Suc k) t"
        unfolding s using blanked_step [of "y * 80 + k" t] k that by (simp only:) simp
    qed simp
    moreover have "y * 80 + unat VGA_WIDTH = Suc y * 80" by simp
    ultimately show ?thesis by (simp only:)
  qed
  have "tty_clear t = blanked (unat VGA_HEIGHT * 80) t"
    unfolding tty_clear_def
  proof (rule for_range_inv)
    show "t = blanked (0 * 80) t" by (simp add: blanked_def)
  next
    fix k s assume "k < unat VGA_HEIGHT" and s: "s = blanked (k * 80) t"
    then show "for_range 0 VGA_WIDTH (\<lambda>x t. t\<lparr>cells := (cells t)(of_nat k * VGA_WIDTH + x := vga_entry 32 (m_color t))\<rparr>) s =
        blanked (Suc k * 80) t" using row [of k] by simp
  qed
  then show ?thesis by simp
qed

definition tty_pos :: "tty \<Rightarrow> nat" where
  "tty_pos t = unat (m_row t) * 80 + unat (m_column t)"

definition on_screen :: "tty \<Rightarrow> bool" where
  "on_screen t \<longleftrightarrow> m_row t < VGA_HEIGHT \<and> m_column t < VGA_WIDTH"

definition printable :: "u8 \<Rightarrow> bool" where
  "printable c \<longleftrightarrow> c \<notin> {8, 10, 13}"

lemma on_screen_index:
  assumes "on_screen t"
  shows "unat (getBufferIndex (m_column t) (m_row t)) = tty_pos t" "tty_pos t < 2000"
proof -
  have b: "unat (m_row t) < 25" "unat (m_column t) < 80"
    using assms by (simp_all add: on_screen_def word_less_nat_alt)
  then show "tty_pos t < 2000" by (simp add: tty_pos_def)
  then show "unat (getBufferIndex (m_column t) (m_row t)) = tty_pos t"
    using b by (simp add: getBufferIndex_def tty_pos_def unat_word_ariths)
qed

text \<open>A printable character goes to the current cell and the position moves on by one.\<close>

lemma writeChar_printable:
  assumes "on_screen t" and "printable c"
  shows "on_screen (writeChar c t)" "tty_pos (writeChar c t) = (tty_pos t + 1) mod 2000"
    "cells (writeChar c t) = (cells t)(of_nat (tty_pos t) := vga_entry c (m_color t))"
    "m_color (writeChar c t) = m_color t" "tty_ports (writeChar c t) = tty_ports t"
proof -
  have b: "unat (m_row t) < 25" "unat (m_column t) < 80"
    using assms by (simp_all add: on_screen_def word_less_nat_alt)
  have c1: "unat (m_column t + 1) = unat (m_column t) + 1" "unat (m_row t + 1) = unat (m_row t) + 1"
    using b by (simp_all add: unat_word_ariths)
  have eq: "m_column t = 79 \<longleftrightarrow> unat (m_column t) = 79" "m_row t = 24 \<longleftrightarrow> unat (m_row t) = 24"
    by (simp_all add: word_unat_eq_iff)
  have idx: "getBufferIndex (m_column t) (m_row t) = of_nat (tty_pos t)" "\<not> 2000 < getBufferIndex (m_column t) (m_row t)"
    using on_screen_index [OF assms(1)] by (simp_all add: word_less_nat_alt word_unat_eq_iff unat_of_nat32)
  note d = writeChar_def writeChar_at_def Let_def printable_def
  show "on_screen (writeChar c t)"
    using assms(2) idx b by (simp add: d on_screen_def word_less_nat_alt c1 eq)
  show "tty_pos (writeChar c t) = (tty_pos t + 1) mod 2000"
    using assms(2) idx b by (auto simp: d tty_pos_def c1 eq mod_if)
  show "cells (writeChar c t) = (cells t)(of_nat (tty_pos t) := vga_entry c (m_color t))"
    "m_color (writeChar c t) = m_color t" "tty_ports (writeChar c t) = tty_ports t"
    using assms(2) idx by (simp_all add: d)
qed


lemma writeChars_printable:
  assumes "on_screen t" and "\<forall>c \<in> set cs. printable c" and "tty_pos t + length cs \<le> 2000"
  shows "on_screen (writeChars cs t) \<and> tty_pos (writeChars cs t) = (tty_pos t + length cs) mod 2000 \<and>
    m_color (writeChars cs t) = m_color t \<and> tty_ports (writeChars cs t) = tty_ports t \<and>
    (\<forall>i. cells (writeChars cs t) i =
       (if tty_pos t \<le> unat i \<and> unat i < tty_pos t + length cs
        then vga_entry (cs ! (unat i - tty_pos t)) (m_color t) else cells t i))"
  using assms
proof (induction cs arbitrary: t)
  case Nil
  then show ?case using on_screen_index(2) by (auto simp: mod_less)
next
  case (Cons c cs)
  have w: "on_screen t" "printable c" "tty_pos t < 2000" using Cons.prems on_screen_index(2) by auto
  note w1 = writeChar_printable [OF w(1,2)]
  show ?case
  proof (cases "cs = []")
    case True
    have "i = of_nat (tty_pos t) \<longleftrightarrow> unat i = tty_pos t" for i :: u32
      using w(3) by (auto simp: word_unat_eq_iff unat_of_nat32)
    then show ?thesis using w1 True by auto
  next
    case False
    then have p: "tty_pos t + 1 < 2000" using Cons.prems(3) by (cases cs) auto
    then have pos: "tty_pos (writeChar c t) = tty_pos t + 1" using w1(2) by simp
    have ne: "i = of_nat (tty_pos t) \<longleftrightarrow> unat i = tty_pos t" for i :: u32
      using w(3) by (auto simp: word_unat_eq_iff unat_of_nat32)
    have "on_screen (writeChars cs (writeChar c t)) \<and>
      tty_pos (writeChars cs (writeChar c t)) = (tty_pos t + 1 + length cs) mod 2000 \<and>
      m_color (writeChars cs (writeChar c t)) = m_color t \<and> tty_ports (writeChars cs (writeChar c t)) = tty_ports t \<and>
      (\<forall>i. cells (writeChars cs (writeChar c t)) i =
         (if tty_pos t + 1 \<le> unat i \<and> unat i < tty_pos t + 1 + length cs
          then vga_entry (cs ! (unat i - (tty_pos t + 1))) (m_color t) else cells (writeChar c t) i))"
      using Cons.IH [OF w1(1)] Cons.prems(2,3) unfolding pos w1(4,5) by simp
    then show ?thesis by (auto simp: w1(3) ne nth_Cons' less_Suc_eq le_less)
  qed
qed

lemma updateCursor_keeps:
  "m_row (updateCursor x y t) = m_row t" "m_column (updateCursor x y t) = m_column t"
  "m_color (updateCursor x y t) = m_color t" "cells (updateCursor x y t) = cells t"
  "tty_pos (updateCursor x y t) = tty_pos t" "on_screen (updateCursor x y t) = on_screen t"
  by (simp_all add: updateCursor_def vgaWrite_def tty_outb_def Let_def tty_pos_def on_screen_def)

text \<open>
  Property C30: \<open>TTY::write\<close> prints. Text of printable characters that fits on the rest of the screen
  appears in consecutive cells from the current position on, in the current colour, nothing else of the
  screen changes, the position is then the one after the text (the first cell when the screen
  is full), the cursor registers are sent that position, and the length is returned.
\<close>

theorem tty_write_prints:
  assumes "on_screen t" and "\<forall>c \<in> set cs. printable c" and "tty_pos t + length cs \<le> 2000"
  shows "fst (tty_write cs t) = of_nat (length cs) \<and>
    (let t' = snd (tty_write cs t); p = (tty_pos t + length cs) mod 2000
     in on_screen t' \<and> tty_pos t' = p \<and> m_color t' = m_color t \<and>
        (\<forall>i. cells t' i =
          (if tty_pos t \<le> unat i \<and> unat i < tty_pos t + length cs
           then vga_entry (cs ! (unat i - tty_pos t)) (m_color t) else cells t i)) \<and>
        out_log (tty_ports t') =
          out_log (tty_ports t) @ [(0x3D4, 0x0F), (0x3D5, of_nat p), (0x3D4, 0x0E), (0x3D5, of_nat (p div 256))])"
proof -
  let ?t = "writeChars cs t"
  note w = writeChars_printable [OF assms]
  then have idx: "unat (getBufferIndex (m_column ?t) (m_row ?t)) = (tty_pos t + length cs) mod 2000"
    using on_screen_index(1) [of ?t] by simp
  then have idx': "getBufferIndex (m_column ?t) (m_row ?t) = of_nat ((tty_pos t + length cs) mod 2000)" (is "_ = of_nat ?p")
    by (simp add: word_unat_eq_iff unat_of_nat32)
  have p: "?p < 2000" by simp
  have low: "ucast (of_nat q AND 0xFF :: u32) = (of_nat q :: u8)" if "q < 2000" for q
  proof -
    have "(0xFF :: u32) = mask 8" by (simp add: mask_eq_exp_minus_1)
    then have "of_nat q AND 0xFF = take_bit 8 (of_nat q :: u32)" by (simp only: take_bit_eq_mask)
    then have "unat (of_nat q AND 0xFF :: u32) = q mod 256"
      using that by (simp only: unsigned_take_bit_eq) (simp add: unat_of_nat32 take_bit_eq_mod)
    then show ?thesis by (simp add: word_unat_eq_iff unat_of_nat take_bit_eq_mod unsigned_ucast_eq)
  qed
  have "unat (drop_bit 8 (of_nat ?p) :: u32) = ?p div 256"
    using p by (simp add: drop_bit_eq_div unat_div unat_of_nat32)
  then have "drop_bit 8 (of_nat ?p) = (of_nat (?p div 256) :: u32)"
    using p by (simp add: word_unat_eq_iff unat_of_nat32)
  then have hi: "ucast (drop_bit 8 (of_nat ?p) AND 0xFF :: u32) = (of_nat (?p div 256) :: u8)"
    using low [of "?p div 256"] p by simp
  have log: "out_log (tty_ports (updateCursor (m_column ?t) (m_row ?t) ?t)) = out_log (tty_ports ?t) @
      [(0x3D4, 0x0F), (0x3D5, of_nat ?p), (0x3D4, 0x0E), (0x3D5, of_nat (?p div 256))]"
    by (simp add: updateCursor_def Let_def idx' low [OF p] hi vgaWrite_def tty_outb_def outb_def)
  show ?thesis
    using w log by (simp add: tty_write_def Let_def updateCursor_keeps)
qed

definition blank_screen :: tty where
  "blank_screen = \<lparr>m_color = 7, m_row = 0, m_column = 0, cells = (\<lambda>_. 0x0720),
     tty_ports = \<lparr>out_log = [], in_values = (\<lambda>_ _. 0), in_count = (\<lambda>_. 0)\<rparr>\<rparr>"

theorem tty_write_prints_witness:
  "cells (snd (tty_write [79, 75] blank_screen)) 1 = 0x074B \<and> tty_pos (snd (tty_write [79, 75] blank_screen)) = 2"
  using tty_write_prints [of blank_screen "[79, 75]"]
  by (simp add: blank_screen_def on_screen_def printable_def tty_pos_def Let_def vga_entry_def)

section \<open>The bounds of the screen memory\<close>

text \<open>
  The row counter is not bounded by new lines; what keeps the writes near the screen is the test in
  \<open>writeChar\<close>, and for the backspace that a column is only left after a write in that row.
\<close>

definition tty_inv :: "tty \<Rightarrow> bool" where
  "tty_inv t \<longleftrightarrow> m_column t < VGA_WIDTH \<and>
     (0 < m_column t \<longrightarrow> unat (m_row t * VGA_WIDTH) + (unat (m_column t) - 1) \<le> 2000)"

lemma sless_0_small: "unat (c :: u32) < 80 \<Longrightarrow> 0 <s c \<longleftrightarrow> c \<noteq> 0"
  using sint_small [of c] by (simp add: word_sless_alt order.strict_iff_order unsigned_eq_0_iff)

lemma writeChar_confined:
  assumes "tty_inv t"
  shows "tty_inv (writeChar c t)" "2000 < i \<Longrightarrow> cells (writeChar c t) i = cells t i"
proof -
  have col: "unat (m_column t) < 80" using assms by (simp add: tty_inv_def word_less_nat_alt)
  consider (nl) "c = 13 \<or> c = 10" | (bs) "c = 8" "m_column t \<noteq> 0" | (bs0) "c = 8" "m_column t = 0" | (pr) "printable c"
    by (auto simp: printable_def)
  then have "tty_inv (writeChar c t) \<and> (2000 < i \<longrightarrow> cells (writeChar c t) i = cells t i)"
  proof cases
    case nl
    then show ?thesis by (auto simp: writeChar_def tty_inv_def)
  next
    case bs0
    then show ?thesis using assms by (auto simp: writeChar_def)
  next
    case bs
    have pos: "0 < unat (m_column t)" using bs(2) by (simp add: unat_gt_0)
    have c1: "unat (m_column t - 1) = unat (m_column t) - 1" using bs(2) by (simp add: unat_minus_one)
    have b: "unat (m_row t * 80) + (unat (m_column t) - 1) \<le> 2000"
      using assms bs(2) by (simp add: tty_inv_def word_gt_0)
    then have "unat (getBufferIndex (m_column t - 1) (m_row t)) \<le> 2000"
      unfolding getBufferIndex_def using c1 by (simp add: unat_word_ariths(1))
    then show ?thesis using bs col b c1
      by (auto simp: writeChar_def sless_0_small tty_inv_def word_less_nat_alt)
  next
    case pr
    have c1: "unat (m_column t + 1) = unat (m_column t) + 1" using col by (simp add: unat_word_ariths)
    define idx where "idx = getBufferIndex (m_column t) (m_row t)"
    show ?thesis
    proof (cases "2000 < idx")
      case True
      then show ?thesis using pr
        by (auto simp: writeChar_def writeChar_at_def Let_def printable_def tty_clear_blanks blanked_def tty_inv_def
            word_less_nat_alt idx_def)
    next
      case False
      have "unat (m_row t * 80) + unat (m_column t) < 2 ^ 32"
        using assms unsigned_less [of "m_row t * 80", where ?'a = nat]
        by (cases "m_column t = 0") (auto simp: tty_inv_def word_gt_0)
      then have "unat idx = unat (m_row t * 80) + unat (m_column t)"
        unfolding idx_def getBufferIndex_def by (simp add: unat_word_ariths(1))
      then have "unat (m_row t * 80) + unat (m_column t) \<le> 2000"
        using False by (simp add: word_less_nat_alt)
      then show ?thesis using pr False col c1 unfolding idx_def
        by (auto simp: writeChar_def writeChar_at_def Let_def printable_def tty_inv_def word_less_nat_alt word_unat_eq_iff)
    qed
  qed
  then show "tty_inv (writeChar c t)" "2000 < i \<Longrightarrow> cells (writeChar c t) i = cells t i" by auto
qed


lemma writeChars_confined:
  "tty_inv t \<Longrightarrow> tty_inv (writeChars cs t) \<and> (\<forall>i > 2000. cells (writeChars cs t) i = cells t i)"
  by (induction cs arbitrary: t) (simp_all add: writeChar_confined)

text \<open>
  Property C31: whatever bytes are written to the console, and however many new lines and backspaces
  are among them, only the cells 0 to 2000 of the video memory are changed, and the bound is
  kept for the next call. The screen has 2000 cells, so cell 2000 is one too many, and it is
  reached: after the last line a new line leaves the position at row 25, and the next character
  goes to cell 2000, off the screen, with no cell of the screen changed.
\<close>

theorem tty_write_confined:
  assumes "tty_inv t"
  shows "tty_inv (snd (tty_write cs t)) \<and>
    (\<forall>i > 2000. cells (snd (tty_write cs t)) i = cells t i) \<and>
    (m_row t = 24 \<and> printable c \<longrightarrow>
      cells (snd (tty_write [10, c] t)) = (cells t)(2000 := vga_entry c (m_color t)))"
proof -
  have "tty_inv (updateCursor x y t) = tty_inv t" for x y t
    by (simp add: tty_inv_def updateCursor_keeps)
  moreover have "cells (writeChars [10, c] t) = (cells t)(2000 := vga_entry c (m_color t))"
    if "m_row t = 24" "printable c"
    using that by (simp add: writeChar_def writeChar_at_def getBufferIndex_def printable_def Let_def)
  ultimately show ?thesis
    using writeChars_confined [OF assms, of cs] by (simp add: tty_write_def Let_def updateCursor_keeps)
qed

theorem tty_write_confined_witness:
  "cells (snd (tty_write [10, 88] (blank_screen\<lparr>m_row := 24\<rparr>))) =
     (cells blank_screen)(2000 := vga_entry 88 7)"
  using tty_write_confined [of "blank_screen\<lparr>m_row := 24\<rparr>" "[]" 88]
  by (simp add: blank_screen_def tty_inv_def printable_def)

section \<open>The serial line\<close>

definition status_ready :: "ports \<Rightarrow> nat \<Rightarrow> bool" where
  "status_ready p n \<longleftrightarrow> in_values p LINE_STATUS n AND 0x20 \<noteq> 0"

definition ready_reads :: "ports \<Rightarrow> nat \<Rightarrow> nat" where
  "ready_reads p n = card {m. in_count p LINE_STATUS \<le> m \<and> m < n \<and> status_ready p m}"

abbreviation (input) status_at :: "nat \<Rightarrow> ports \<Rightarrow> ports" where
  "status_at n p \<equiv> p\<lparr>in_count := (in_count p)(LINE_STATUS := n)\<rparr>"

lemma status_ready_update [simp]:
  "status_ready (p\<lparr>in_count := c\<rparr>) = status_ready p" "status_ready (p\<lparr>out_log := l\<rparr>) = status_ready p"
  by (simp_all add: fun_eq_iff status_ready_def)

lemma ready_reads_out_log [simp]: "ready_reads (p\<lparr>out_log := l\<rparr>) = ready_reads p"
  by (simp add: fun_eq_iff ready_reads_def)

text \<open>The wait polls the status up to the first reading that shows the transmitter empty.\<close>

lemma serial_wait_first:
  assumes "in_count p LINE_STATUS \<le> m" "status_ready p m"
    and "\<And>i. in_count p LINE_STATUS \<le> i \<Longrightarrow> i < m \<Longrightarrow> \<not> status_ready p i"
  shows "serial_wait p = Some (status_at (Suc m) p)"
proof -
  have "serial_wait (status_at c p) = Some (status_at (Suc m) p)"
    if "in_count p LINE_STATUS \<le> c" "c \<le> m" for c
    using that
  proof (induction "m - c" arbitrary: c)
    case 0
    then have "c = m" by simp
    with assms(2) show ?case
      by (subst serial_wait.simps) (auto simp: canTransmit_def inb_def status_ready_def)
  next
    case (Suc d)
    moreover from this have "\<not> status_ready p c" by (intro assms(3)) simp_all
    ultimately show ?case
      by (subst serial_wait.simps) (auto simp: canTransmit_def inb_def status_ready_def)
  qed
  from this [of "in_count p LINE_STATUS"] assms(1) show ?thesis by simp
qed

lemma serial_wait_Some:
  "serial_wait p = Some p' \<Longrightarrow> \<exists>n \<ge> in_count p LINE_STATUS. status_ready p n"
proof (erule serial_wait.raw_induct
    [where P = "\<lambda>p p'. \<exists>n \<ge> in_count p LINE_STATUS. status_ready p n", rotated], goal_cases)
  case (1 wait p p')
  show ?case
  proof (cases "status_ready p (in_count p LINE_STATUS)")
    case False
    then have "wait (status_at (Suc (in_count p LINE_STATUS)) p) = Some p'"
      using 1(2) by (simp add: canTransmit_def inb_def status_ready_def)
    from 1(1) [OF this] show ?thesis by (auto intro: Suc_leD)
  qed blast
qed

text \<open>So one wait takes exactly one ready reading off the line.\<close>

lemma serial_wait_cases:
  obtains (stuck) "serial_wait p = None" "\<And>n. ready_reads p n = 0"
  | (sent) m where "in_count p LINE_STATUS \<le> m" "serial_wait p = Some (status_at (Suc m) p)"
      "\<And>n. n \<le> m \<Longrightarrow> ready_reads p n = 0"
      "\<And>n. m < n \<Longrightarrow> ready_reads p n = Suc (ready_reads (status_at (Suc m) p) n)"
proof (cases "\<exists>m \<ge> in_count p LINE_STATUS. status_ready p m")
  case False
  then have "serial_wait p = None" using serial_wait_Some [of p] by (cases "serial_wait p") auto
  with False show thesis by (intro stuck) (auto simp: ready_reads_def)
next
  case True
  define m where "m = (LEAST m. in_count p LINE_STATUS \<le> m \<and> status_ready p m)"
  have m: "in_count p LINE_STATUS \<le> m" "status_ready p m"
    using LeastI_ex [OF True] by (simp_all add: m_def)
  have first: "\<not> status_ready p i" if "in_count p LINE_STATUS \<le> i" "i < m" for i
    using not_less_Least [of i "\<lambda>m. in_count p LINE_STATUS \<le> m \<and> status_ready p m"] that by (simp add: m_def)
  show thesis
  proof (rule sent [OF m(1) serial_wait_first [OF m first]])
    show "ready_reads p n = 0" if "n \<le> m" for n
      using first that by (auto simp: ready_reads_def)
    show "ready_reads p n = Suc (ready_reads (status_at (Suc m) p) n)" if "m < n" for n
    proof -
      have "{i. in_count p LINE_STATUS \<le> i \<and> i < n \<and> status_ready p i} =
          insert m {i. Suc m \<le> i \<and> i < n \<and> status_ready p i}"
        using first m that by (auto simp: Suc_le_eq) (metis linorder_neqE_nat)
      then show ?thesis by (simp add: ready_reads_def)
    qed
  qed
qed

lemma serial_Write_loop_sends:
  "serial_Write_loop bytes p = Some p' \<Longrightarrow>
   \<exists>n. p' = p\<lparr>out_log := out_log p @ map (Pair COM1) bytes, in_count := (in_count p)(LINE_STATUS := n)\<rparr> \<and>
     in_count p LINE_STATUS \<le> n \<and> ready_reads p n = length bytes \<and>
     (\<forall>m. in_count p LINE_STATUS \<le> m \<and> m < n \<longrightarrow> ready_reads p m < length bytes)"
proof (induction bytes arbitrary: p)
  case Nil
  then show ?case by (intro exI [of _ "in_count p LINE_STATUS"]) (auto simp: ready_reads_def)
next
  case (Cons c cs)
  show ?case
  proof (cases p rule: serial_wait_cases)
    case stuck
    then show ?thesis using Cons.prems by (simp add: serial_Write_def)
  next
    case (sent m)
    then have "serial_Write_loop cs (outb COM1 c (status_at (Suc m) p)) = Some p'"
      using Cons.prems by (simp add: serial_Write_def)
    note sends = Cons.IH [OF this, unfolded outb_def, simplified]
    obtain n where
      n: "p' = p\<lparr>out_log := out_log p @ map (Pair COM1) (c # cs), in_count := (in_count p)(LINE_STATUS := n)\<rparr>"
        "Suc m \<le> n" "ready_reads (status_at (Suc m) p) n = length cs"
        "\<And>i. Suc m \<le> i \<Longrightarrow> i < n \<Longrightarrow> ready_reads (status_at (Suc m) p) i < length cs"
      using sends by (auto simp: fun_upd_def cong: if_cong)
    have "ready_reads p i < length (c # cs)" if "i < n" for i
      using sent n(4) [of i] that by (cases "i \<le> m") auto
    then show ?thesis using n sent by (intro exI [of _ n]) (auto simp: fun_upd_def)
  qed
qed

lemma serial_Write_loop_returns:
  "length bytes \<le> ready_reads p n \<Longrightarrow> \<exists>p'. serial_Write_loop bytes p = Some p'"
proof (induction bytes arbitrary: p)
  case (Cons c cs)
  show ?case
  proof (cases p rule: serial_wait_cases)
    case stuck
    then show ?thesis using Cons.prems by simp
  next
    case (sent m)
    then have "length cs \<le> ready_reads (outb COM1 c (status_at (Suc m) p)) n"
      using Cons.prems by (cases "n \<le> m") (auto simp: outb_def)
    from Cons.IH [OF this] show ?thesis using sent by (simp add: serial_Write_def)
  qed
qed simp

text \<open>
  Property C37: \<open>Serial::Write\<close> returns exactly when the line status, from the next reading on, shows
  the transmitter empty at least as often as there are bytes to send. It then returns the
  length and has sent exactly the given bytes to the port, in order; it has polled the
  status up to the reading that let the last byte go and changed nothing else of the ports. In
  every other case it never returns: with no ready reading at all, and also when the readings stop being
  ready before the last byte. An empty write returns without polling.
\<close>

theorem serial_write_sends:
  "(case serial_Write_data bytes p of
      None \<Rightarrow> \<forall>n. ready_reads p n < length bytes
    | Some (r, p') \<Rightarrow> r = of_nat (length bytes) \<and>
        (\<exists>n \<ge> in_count p LINE_STATUS. ready_reads p n = length bytes \<and>
          (\<forall>m. in_count p LINE_STATUS \<le> m \<and> m < n \<longrightarrow> ready_reads p m < length bytes) \<and>
          p' = p\<lparr>out_log := out_log p @ map (Pair COM1) bytes, in_count := (in_count p)(LINE_STATUS := n)\<rparr>))"
proof (cases "serial_Write_loop bytes p")
  case None
  then show ?thesis
    using serial_Write_loop_returns [of bytes p] by (auto simp: serial_Write_data_def not_less [symmetric])
next
  case (Some p')
  then show ?thesis using serial_Write_loop_sends [OF Some] by (auto simp: serial_Write_data_def)
qed

theorem serial_write_sends_witness:
  "serial_Write_data [79, 75] (tty_ports blank_screen\<lparr>in_values := (\<lambda>_ n. if n = 1 then 0x60 else 0)\<rparr>) = None \<and>
   serial_Write_data [79] (tty_ports blank_screen\<lparr>in_values := (\<lambda>_ n. if n = 1 then 0x60 else 0)\<rparr>) =
      Some (1, tty_ports blank_screen\<lparr>in_values := (\<lambda>_ n. if n = 1 then 0x60 else 0),
        out_log := [(COM1, 79)], in_count := (\<lambda>_. 0)(LINE_STATUS := 2)\<rparr>)"
proof -
  define p where "p = tty_ports blank_screen\<lparr>in_values := (\<lambda>_ n. if n = 1 then 0x60 else 0)\<rparr>"
  have count: "in_count p LINE_STATUS = 0" by (simp add: p_def blank_screen_def)
  have ready: "status_ready p m \<longleftrightarrow> m = 1" for m by (simp add: p_def status_ready_def)
  have "ready_reads p n = (if 1 < n then 1 else 0)" for n
  proof -
    have "{m. in_count p LINE_STATUS \<le> m \<and> m < n \<and> status_ready p m} = (if 1 < n then {1} else {})"
      by (auto simp add: ready count)
    then show ?thesis by (simp add: ready_reads_def)
  qed
  note reads = this
  have None: "serial_Write_data [79, 75] p = None"
  proof (cases "serial_Write_data [79, 75] p")
    case (Some rp)
    then obtain n where "ready_reads p n = Suc (Suc 0)"
      using serial_write_sends [of p "[79, 75]"] by (cases rp) auto
    then show ?thesis by (simp add: reads split: if_splits)
  qed
  have "serial_Write_data [79] p = Some (1, p\<lparr>out_log := out_log p @ [(COM1, 79)], in_count := (in_count p)(LINE_STATUS := 2)\<rparr>)"
  proof (cases "serial_Write_data [79] p")
    case None
    then have "ready_reads p 2 < 1" using serial_write_sends [of p "[79]"] by simp
    then show ?thesis by (simp add: reads)
  next
    case (Some rp)
    obtain r p' where rp: "rp = (r, p')" by (cases rp)
    obtain n where n: "r = 1" "ready_reads p n = 1" "\<forall>m. in_count p LINE_STATUS \<le> m \<and> m < n \<longrightarrow> ready_reads p m < 1"
      "p' = p\<lparr>out_log := out_log p @ [(COM1, 79)], in_count := (in_count p)(LINE_STATUS := n)\<rparr>"
      using serial_write_sends [of p "[79]", unfolded Some rp option.case prod.case list.map append.simps]
      by (auto simp del: less_one)
    have "1 < n" using n(2) reads [of n] by presburger
    moreover have "\<not> 2 < n"
    proof
      assume "2 < n"
      then have "ready_reads p 2 < 1" using n(3) count by (simp del: less_one)
      then show False using reads [of 2] by simp
    qed
    ultimately have "n = 2" by simp
    then show ?thesis using n(1,4) Some rp by simp
  qed
  then show ?thesis using None by (simp add: p_def blank_screen_def)
qed

section \<open>printk\<close>

text \<open>The text \<open>cs\<close> of a format goes to the buffer whole and to the console cut to 100 characters.\<close>

lemma printk_text:
  assumes loop: "\<And>k st. vsnprintf_loop fp k format va st = Some (put_all k cs st)" and "buf \<noteq> 0" and "length cs < 2 ^ 31"
  shows "printk fp buf format va (w, c) =
    Some (w\<lparr>mem := formatted buf (2 ^ 32 - 1) cs (mem w)\<rparr>,
          map_option (\<lambda>t. snd (tty_write (take 100 cs) t)) c) \<and>
    (\<forall>i < length cs. mem (fst (the (printk fp buf format va (w, c)))) (buf + of_nat i) = cs ! i)"
proof -
  have len: "length cs < 2 ^ 32 - 1" using assms(3) by simp
  from vsnprintf_text(2) [OF loop assms(2)] have v: "vsnprintf fp buf (- 1) format va w =
      Some (of_nat (length cs), w\<lparr>mem := formatted buf (2 ^ 32 - 1) cs (mem w)\<rparr>)"
    using len by (simp add: unsigned_minus_1_eq_mask mask_eq_exp_minus_1)
  have at: "formatted buf (2 ^ 32 - 1) cs (mem w) (buf + of_nat i) = cs ! i" if "i < length cs" for i
    using that len by (simp add: formatted_def Let_def unat_of_nat32)
  have u: "unat (of_nat (length cs) :: u32) = length cs" using len by (intro unat_of_nat32) simp
  then have n: "100 <s (of_nat (length cs) :: u32) \<longleftrightarrow> 100 < length cs"
    using assms(3) by (simp add: word_sless_alt sint_small)
  have b: "bytes_at (formatted buf (2 ^ 32 - 1) cs (mem w)) buf k = take k cs" if "k \<le> length cs" for k
    using that at by (intro nth_equalityI) (auto simp: bytes_at_def)
  have "printk fp buf format va (w, c) =
    Some (w\<lparr>mem := formatted buf (2 ^ 32 - 1) cs (mem w)\<rparr>,
          map_option (\<lambda>t. snd (tty_write (take 100 cs) t)) c)"
  proof (cases "100 < length cs")
    case True
    then show ?thesis using b [of 100] n v by (simp add: printk_def Let_def)
  next
    case False
    then show ?thesis using b [of "length cs"] n v u by (simp add: printk_def Let_def)
  qed
  then show ?thesis using at by simp
qed

text \<open>
  Property C33: \<open>printk\<close> tells the formatter that its 100-byte buffer has \<open>2 ^ 32 - 1\<close> bytes. A text
  of any length is therefore stored whole: for 100 or more characters the bytes behind the buffer are
  overwritten, with the text and its terminating zero. What is shown on the console is cut to 100
  characters.
\<close>

theorem printk_overruns_buffer:
  assumes "buf \<noteq> 0" and "37 \<notin> set cs" and "0 \<notin> set cs" and "length cs < 2 ^ 31"
  shows "printk fp buf cs va (w, c) =
    Some (w\<lparr>mem := formatted buf (2 ^ 32 - 1) cs (mem w)\<rparr>,
          map_option (\<lambda>t. snd (tty_write (take 100 cs) t)) c) \<and>
    (\<forall>i < length cs. mem (fst (the (printk fp buf cs va (w, c)))) (buf + of_nat i) = cs ! i)"
proof -
  have "vsnprintf_loop fp k cs va st = Some (put_all k cs st)" for k st
    using vsnprintf_loop_literal [OF assms(2,3), of fp k "[]"] by simp
  then show ?thesis by (rule printk_text [OF _ assms(1,4)])
qed

theorem printk_overruns_buffer_witness:
  "mem (fst (the (printk blank_fpu 0x1000 (replicate 120 65) [] (blank_world, None)))) 0x1064 = 65"
  using printk_overruns_buffer [of "0x1000" "replicate 120 65" blank_fpu "[]" blank_world None]
  by (auto dest!: spec [of _ 100])

end
