(* ===== verification/Kmalloc.thy ===== *)
theory Kmalloc
  imports Virtual
begin

text \<open>
  The kernel heap, \<open>Kernel/Libk/kmalloc.cpp\<close>: blocks of pages cut into chunks, each headed by a
  boundary tag. Tags are kept in a store by their address; the bytes after a tag belong to the
  client. Free chunks hang in 32 doubly linked lists by size class. The heap state carries the
  machine, whose memory manager provides the pages, and the scheduler, whose enable flag is the
  lock. A read of an array outside its bounds and a search that does not end are \<open>None\<close>.
\<close>

section \<open>Definitions\<close>

record boundary_tag =
  magic :: u32
  tag_size :: u32
  real_size :: u32
  tag_index :: int
  split_left :: addr
  split_right :: addr
  tag_next :: addr
  tag_prev :: addr

abbreviation (input) LIBALLOC_MAGIC :: u32 where "LIBALLOC_MAGIC \<equiv> 0xc001c0de"
abbreviation (input) MAXCOMPLETE :: int where "MAXCOMPLETE \<equiv> 5"
abbreviation (input) MAXEXP :: int where "MAXEXP \<equiv> 32"
abbreviation (input) MINEXP :: int where "MINEXP \<equiv> 8"
abbreviation (input) sizeof_tag :: u32 where "sizeof_tag \<equiv> 32"
abbreviation (input) l_pageSize :: u32 where "l_pageSize \<equiv> 4096"
abbreviation (input) l_pageCount :: u32 where "l_pageCount \<equiv> 16"

record kheap =
  tags :: "addr \<Rightarrow> boundary_tag"
  l_freePages :: "int \<Rightarrow> addr"
  l_completePages :: "int \<Rightarrow> int"
  l_initialized :: bool
  hmachine :: machine
  hsched :: scheduler

definition upd_tag :: "addr \<Rightarrow> (boundary_tag \<Rightarrow> boundary_tag) \<Rightarrow> kheap \<Rightarrow> kheap" where
  "upd_tag a f h = h\<lparr>tags := (tags h)(a := f (tags h a))\<rparr>"

function getexp_loop :: "nat \<Rightarrow> u32 \<Rightarrow> nat" where
  "getexp_loop shift sz =
     (if shift < 32 then if push_bit shift 1 > sz then shift else getexp_loop (shift + 1) sz else shift)"
  by pat_completeness auto
termination by (relation "measure (\<lambda>(shift, sz). 32 - shift)") auto

declare getexp_loop.simps [simp del, loop_simps]

definition getexp :: "u32 \<Rightarrow> int" where
  "getexp sz = (if sz < push_bit 8 1 then - 1 else int (getexp_loop 8 sz) - 1)"

subsection \<open>Client memory\<close>

definition vload8 :: "machine \<Rightarrow> addr \<Rightarrow> u8 option" where
  "vload8 s va = map_option (ram s) (xlate s va)"

definition liballoc_memset :: "addr \<Rightarrow> u8 \<Rightarrow> u32 \<Rightarrow> machine \<Rightarrow> machine option" where
  "liballoc_memset p c n s = for_rangeM 0 n (\<lambda>i. vstore8 (p + i) c) s"

text \<open>\<open>*ldest++ = *lsrc++\<close> on words that need not be aligned: four bytes are read, then written.\<close>

definition copy_word :: "addr \<Rightarrow> addr \<Rightarrow> machine \<Rightarrow> machine option" where
  "copy_word dst src s =
     do {
       b0 \<leftarrow> vload8 s src; b1 \<leftarrow> vload8 s (src + 1); b2 \<leftarrow> vload8 s (src + 2); b3 \<leftarrow> vload8 s (src + 3);
       s0 \<leftarrow> vstore8 dst b0 s; s1 \<leftarrow> vstore8 (dst + 1) b1 s0; s2 \<leftarrow> vstore8 (dst + 2) b2 s1;
       vstore8 (dst + 3) b3 s2
     }"

function copy_words :: "addr \<Rightarrow> addr \<Rightarrow> u32 \<Rightarrow> machine \<Rightarrow> (addr \<times> addr \<times> u32 \<times> machine) option" where
  "copy_words ldest lsrc n s =
     (if 4 \<le> n then Option.bind (copy_word ldest lsrc s) (copy_words (ldest + 4) (lsrc + 4) (n - 4))
      else Some (ldest, lsrc, n, s))"
  by pat_completeness auto
termination
  by (relation "measure (\<lambda>(ldest, lsrc, n, s). unat n)") (auto simp: word_le_nat_alt unat_sub)

declare copy_words.simps [simp del, loop_simps]

definition liballoc_memcpy :: "addr \<Rightarrow> addr \<Rightarrow> u32 \<Rightarrow> machine \<Rightarrow> machine option" where
  "liballoc_memcpy p1 p2 n0 s0 =
     do {
       (cdest, csrc, n, s) \<leftarrow> copy_words p1 p2 n0 s0;
       for_rangeM 0 n (\<lambda>i s. do { b \<leftarrow> vload8 s (csrc + i); vstore8 (cdest + i) b s }) s
     }"

subsection \<open>Tags\<close>

definition in_bins :: "int \<Rightarrow> bool" where
  "in_bins i \<longleftrightarrow> 0 \<le> i \<and> i < MAXEXP"

definition insert_tag :: "addr \<Rightarrow> int \<Rightarrow> kheap \<Rightarrow> kheap option" where
  "insert_tag tag idx h0 =
     (let realIndex = (if idx < 0
                       then let r = getexp (real_size (tags h0 tag) - sizeof_tag) in if r < MINEXP then MINEXP else r
                       else idx)
      in if \<not> in_bins realIndex then None
         else let h1 = upd_tag tag (\<lambda>t. t\<lparr>tag_index := realIndex\<rparr>) h0;
                  head = l_freePages h1 realIndex;
                  h2 = (if head \<noteq> 0
                        then upd_tag tag (\<lambda>t. t\<lparr>tag_next := head\<rparr>) (upd_tag head (\<lambda>t. t\<lparr>tag_prev := tag\<rparr>) h1)
                        else h1)
              in Some (h2\<lparr>l_freePages := (l_freePages h2)(realIndex := tag)\<rparr>))"

definition remove_tag :: "addr \<Rightarrow> kheap \<Rightarrow> kheap option" where
  "remove_tag tag h0 =
     (let idx = tag_index (tags h0 tag)
      in if \<not> in_bins idx then None
         else let h1 = (if l_freePages h0 idx = tag
                        then h0\<lparr>l_freePages := (l_freePages h0)(idx := tag_next (tags h0 tag))\<rparr> else h0);
                  h2 = (if tag_prev (tags h1 tag) \<noteq> 0
                        then upd_tag (tag_prev (tags h1 tag)) (\<lambda>t. t\<lparr>tag_next := tag_next (tags h1 tag)\<rparr>) h1 else h1);
                  h3 = (if tag_next (tags h2 tag) \<noteq> 0
                        then upd_tag (tag_next (tags h2 tag)) (\<lambda>t. t\<lparr>tag_prev := tag_prev (tags h2 tag)\<rparr>) h2 else h2)
              in Some (upd_tag tag (\<lambda>t. t\<lparr>tag_next := 0, tag_prev := 0, tag_index := - 1\<rparr>) h3))"

definition melt_left :: "addr \<Rightarrow> kheap \<Rightarrow> addr \<times> kheap" where
  "melt_left tag h0 =
     (let left = split_left (tags h0 tag);
          h1 = upd_tag left (\<lambda>t. t\<lparr>real_size := real_size t + real_size (tags h0 tag)\<rparr>) h0;
          h2 = upd_tag left (\<lambda>t. t\<lparr>split_right := split_right (tags h1 tag)\<rparr>) h1;
          h3 = (if split_right (tags h2 tag) \<noteq> 0
                then upd_tag (split_right (tags h2 tag)) (\<lambda>t. t\<lparr>split_left := left\<rparr>) h2 else h2)
      in (left, h3))"

definition absorb_right :: "addr \<Rightarrow> kheap \<Rightarrow> (addr \<times> kheap) option" where
  "absorb_right tag h0 =
     (let right = split_right (tags h0 tag)
      in do {
        h1 \<leftarrow> remove_tag right h0;
        let h2 = upd_tag tag (\<lambda>t. t\<lparr>real_size := real_size t + real_size (tags h1 right)\<rparr>) h1;
        let h3 = upd_tag tag (\<lambda>t. t\<lparr>split_right := split_right (tags h2 right)\<rparr>) h2;
        let h4 = (if split_right (tags h3 right) \<noteq> 0
                  then upd_tag (split_right (tags h3 right)) (\<lambda>t. t\<lparr>split_left := tag\<rparr>) h3 else h3);
        Some (tag, h4)
      })"

definition split_tag :: "addr \<Rightarrow> kheap \<Rightarrow> (addr \<times> kheap) option" where
  "split_tag tag h0 =
     (let remainder = real_size (tags h0 tag) - sizeof_tag - tag_size (tags h0 tag);
          new_tag = tag + sizeof_tag + tag_size (tags h0 tag);
          h1 = upd_tag new_tag (\<lambda>t. t\<lparr>magic := LIBALLOC_MAGIC, real_size := remainder, tag_next := 0, tag_prev := 0,
                                       split_left := tag, split_right := split_right (tags h0 tag)\<rparr>) h0;
          h2 = (if split_right (tags h1 new_tag) \<noteq> 0
                then upd_tag (split_right (tags h1 new_tag)) (\<lambda>t. t\<lparr>split_left := new_tag\<rparr>) h1 else h1);
          h3 = upd_tag tag (\<lambda>t. t\<lparr>split_right := new_tag\<rparr>) h2;
          h4 = upd_tag tag (\<lambda>t. t\<lparr>real_size := real_size t - real_size (tags h3 new_tag)\<rparr>) h3
      in map_option (Pair new_tag) (insert_tag new_tag (- 1) h4))"

subsection \<open>Pages\<close>

definition liballoc_lock :: "kheap \<Rightarrow> kheap" where
  "liballoc_lock h = h\<lparr>hsched := sched_disable (hsched h)\<rparr>"

definition liballoc_unlock :: "kheap \<Rightarrow> kheap" where
  "liballoc_unlock h = h\<lparr>hsched := sched_enable (hsched h)\<rparr>"

definition liballoc_alloc :: "layout \<Rightarrow> u32 \<Rightarrow> kheap \<Rightarrow> (addr \<times> kheap) option" where
  "liballoc_alloc L numPages h =
     map_option (\<lambda>(a, s). (a, h\<lparr>hmachine := s\<rparr>))
       (memoryAllocate (kernelPageDirectory L) (numPages * PAGE_SIZE) False (hmachine h))"

definition liballoc_free :: "layout \<Rightarrow> addr \<Rightarrow> u32 \<Rightarrow> kheap \<Rightarrow> kheap option" where
  "liballoc_free L p numPages h =
     map_option (\<lambda>s. h\<lparr>hmachine := s\<rparr>)
       (memoryFree (kernelPageDirectory L) p (numPages * PAGE_SIZE) (hmachine h))"

definition new_block_pages :: "u32 \<Rightarrow> u32" where
  "new_block_pages sz =
     (let usage = sz + sizeof_tag;
          pages0 = usage div l_pageSize;
          pages1 = (if usage mod l_pageSize \<noteq> 0 then pages0 + 1 else pages0)
      in if pages1 < l_pageCount then l_pageCount else pages1)"

definition allocate_new_tag :: "layout \<Rightarrow> u32 \<Rightarrow> kheap \<Rightarrow> (addr \<times> kheap) option" where
  "allocate_new_tag L sz h =
     do {
       let pages = new_block_pages sz;
       (tag, h1) \<leftarrow> liballoc_alloc L pages h;
       if tag = 0 then Some (0, h1)
       else Some (tag, upd_tag tag (\<lambda>_. \<lparr>magic = LIBALLOC_MAGIC, tag_size = sz, real_size = pages * l_pageSize,
                tag_index = - 1, split_left = 0, split_right = 0, tag_next = 0, tag_prev = 0\<rparr>) h1)
     }"

subsection \<open>The interface\<close>

definition kmalloc_init :: "kheap \<Rightarrow> kheap" where
  "kmalloc_init h =
     (if l_initialized h then h
      else h\<lparr>l_freePages := (\<lambda>i. 0), l_completePages := (\<lambda>i. 0), l_initialized := True\<rparr>)"

partial_function (option) find_tag :: "kheap \<Rightarrow> u32 \<Rightarrow> addr \<Rightarrow> addr option" where
  "find_tag h sz tag =
     (if tag \<noteq> 0 then
        if sz + sizeof_tag \<le> real_size (tags h tag) - sizeof_tag then Some tag
        else find_tag h sz (tag_next (tags h tag))
      else Some 0)"

text \<open>What \<open>kmalloc\<close> does with the chunk it found: record the size and split off the rest.\<close>

definition kmalloc_carve :: "u32 \<Rightarrow> addr \<Rightarrow> kheap \<Rightarrow> (addr \<times> kheap) option" where
  "kmalloc_carve sz tag h0 =
     (let h1 = upd_tag tag (\<lambda>t. t\<lparr>tag_size := sz\<rparr>) h0;
          remainder = real_size (tags h1 tag) - sz - sizeof_tag * 2
      in do {
        h2 \<leftarrow> (if 0 < sint remainder \<and> 0 \<le> getexp remainder then map_option snd (split_tag tag h1) else Some h1);
        Some (tag + sizeof_tag, liballoc_unlock h2)
      })"

definition kmalloc :: "layout \<Rightarrow> u32 \<Rightarrow> kheap \<Rightarrow> (addr \<times> kheap) option" where
  "kmalloc L sz h0 =
     (let h1 = kmalloc_init (liballoc_lock h0);
          idx0 = getexp sz;
          idx = (if idx0 < MINEXP then MINEXP else idx0)
      in do {
        found \<leftarrow> find_tag h1 sz (l_freePages h1 idx);
        if found = 0 then do {
          (tag, h2) \<leftarrow> allocate_new_tag L sz h1;
          if tag = 0 then Some (0, liballoc_unlock h2)
          else kmalloc_carve sz tag h2
        } else do {
          h2 \<leftarrow> remove_tag found h1;
          let h3 = (if split_left (tags h2 found) = 0 \<and> split_right (tags h2 found) = 0
                    then h2\<lparr>l_completePages := (l_completePages h2)(idx := l_completePages h2 idx - 1)\<rparr> else h2);
          kmalloc_carve sz found h3
        }
      })"

partial_function (option) melt_left_loop :: "addr \<Rightarrow> kheap \<Rightarrow> (addr \<times> kheap) option" where
  "melt_left_loop tag h =
     (if split_left (tags h tag) \<noteq> 0 \<and> 0 \<le> tag_index (tags h (split_left (tags h tag))) then do {
        let (left, h1) = melt_left tag h;
        h2 \<leftarrow> remove_tag left h1;
        melt_left_loop left h2
      } else Some (tag, h))"

partial_function (option) melt_right_loop :: "addr \<Rightarrow> kheap \<Rightarrow> (addr \<times> kheap) option" where
  "melt_right_loop tag h =
     (if split_right (tags h tag) \<noteq> 0 \<and> 0 \<le> tag_index (tags h (split_right (tags h tag))) then do {
        (tag', h1) \<leftarrow> absorb_right tag h;
        melt_right_loop tag' h1
      } else Some (tag, h))"

definition free_block_pages :: "u32 \<Rightarrow> u32" where
  "free_block_pages rs =
     (let pages0 = rs div l_pageSize;
          pages1 = (if rs mod l_pageSize \<noteq> 0 then pages0 + 1 else pages0)
      in if pages1 < l_pageCount then l_pageCount else pages1)"

definition kfree :: "layout \<Rightarrow> addr \<Rightarrow> kheap \<Rightarrow> kheap option" where
  "kfree L ptr h0 =
     (if ptr = 0 then Some h0
      else let h1 = liballoc_lock h0; tag0 = ptr - sizeof_tag
           in if magic (tags h1 tag0) \<noteq> LIBALLOC_MAGIC then Some (liballoc_unlock h1)
              else do {
                (tag1, h2) \<leftarrow> melt_left_loop tag0 h1;
                (tag, h3) \<leftarrow> melt_right_loop tag1 h2;
                let idx0 = getexp (real_size (tags h3 tag) - sizeof_tag);
                let idx = (if idx0 < MINEXP then MINEXP else idx0);
                if split_left (tags h3 tag) = 0 \<and> split_right (tags h3 tag) = 0 then
                  if l_completePages h3 idx = MAXCOMPLETE then
                    map_option liballoc_unlock (liballoc_free L tag (free_block_pages (real_size (tags h3 tag))) h3)
                  else map_option liballoc_unlock
                         (insert_tag tag idx (h3\<lparr>l_completePages := (l_completePages h3)(idx := l_completePages h3 idx + 1)\<rparr>))
                else map_option liballoc_unlock (insert_tag tag idx h3)
              })"

text \<open>Neither checks the result of \<open>kmalloc\<close>: after a failure they write to address 0.\<close>

definition kcalloc :: "layout \<Rightarrow> u32 \<Rightarrow> u32 \<Rightarrow> kheap \<Rightarrow> (addr \<times> kheap) option" where
  "kcalloc L nobj sz h =
     do {
       (p, h1) \<leftarrow> kmalloc L (nobj * sz) h;
       s \<leftarrow> liballoc_memset p 0 (nobj * sz) (hmachine h1);
       Some (p, h1\<lparr>hmachine := s\<rparr>)
     }"

definition krealloc :: "layout \<Rightarrow> addr \<Rightarrow> u32 \<Rightarrow> kheap \<Rightarrow> (addr \<times> kheap) option" where
  "krealloc L p sz h0 =
     (if sz = 0 then map_option (Pair 0) (kfree L p h0)
      else if p = 0 then kmalloc L sz h0
      else let h1 = liballoc_lock h0;
               real0 = tag_size (tags h1 (p - sizeof_tag));
               h2 = liballoc_unlock h1;
               real = (if real0 > sz then sz else real0)
           in do {
             (q, h3) \<leftarrow> kmalloc L sz h2;
             s \<leftarrow> liballoc_memcpy q p real (hmachine h3);
             h4 \<leftarrow> kfree L p (h3\<lparr>hmachine := s\<rparr>);
             Some (q, h4)
           })"

section \<open>Size classes\<close>

lemma unat_pow2: "k < 32 \<Longrightarrow> unat (2 ^ k :: u32) = 2 ^ k"
  using power_strict_increasing [of k 32 "2 :: nat"] of_nat_inverse [of "2 ^ k" "2 ^ k :: u32"] by simp

lemma power_two_le: "k < 32 \<Longrightarrow> 2 ^ k \<le> (sz :: u32) \<longleftrightarrow> 2 ^ k \<le> unat sz"
  by (simp add: word_le_nat_alt unat_pow2)

lemma getexp_loop_bounds:
  assumes "shift \<le> 32" and "0 < shift" and "2 ^ (shift - 1) \<le> unat sz"
  shows "getexp_loop shift sz \<in> {shift .. 32} \<and> 2 ^ (getexp_loop shift sz - 1) \<le> unat sz \<and>
    unat sz < 2 ^ getexp_loop shift sz"
  using assms
proof (induction shift sz rule: getexp_loop.induct)
  case (1 shift sz)
  show ?case
  proof (cases "shift < 32 \<and> push_bit shift 1 \<le> sz")
    case True
    then have nl: "\<not> sz < push_bit shift 1" by (simp add: not_less)
    with True have "getexp_loop shift sz = getexp_loop (shift + 1) sz"
      by (subst getexp_loop.simps) (simp add: not_less leD)
    moreover have "2 ^ (shift + 1 - 1) \<le> unat sz" using True power_two_le [of shift sz] by simp
    ultimately show ?thesis using "1.IH" nl True by simp
  next
    case False
    then have "getexp_loop shift sz = shift" by (subst getexp_loop.simps) auto
    moreover have "unat sz < 2 ^ shift"
      using False unsigned_less [of sz, where ?'a = nat] \<open>shift \<le> 32\<close>
      by (cases "shift = 32") (auto simp: power_two_le)
    ultimately show ?thesis using 1 by simp
  qed
qed

lemma getexp_range:
  "getexp sz = - 1 \<and> sz < 256 \<or>
   (\<exists>n \<in> {8 .. 31}. getexp sz = int n \<and> 2 ^ n \<le> unat sz \<and> unat sz < 2 ^ (n + 1))"
proof (cases "sz < 256")
  case False
  then have le: "256 \<le> sz" by simp
  from False have "256 \<le> unat sz" by (simp add: word_less_nat_alt not_less)
  with getexp_loop_bounds [of 9 sz] have b: "getexp_loop 9 sz \<in> {9 .. 32}" "2 ^ (getexp_loop 9 sz - 1) \<le> unat sz"
      "unat sz < 2 ^ getexp_loop 9 sz" by simp_all
  moreover have "getexp_loop 8 sz = getexp_loop 9 sz"
    using leD [OF le] by (subst getexp_loop.simps) (simp add: not_less leD)
  ultimately show ?thesis using False
    by (intro disjI2 bexI [of _ "getexp_loop 9 sz - 1"]) (auto simp: getexp_def)
qed (simp add: getexp_def)

definition bin_of :: "u32 \<Rightarrow> int" where
  "bin_of sz = (if getexp sz < MINEXP then MINEXP else getexp sz)"

lemma bin_of_in_bins: "in_bins (bin_of sz)"
  using getexp_range [of sz] by (auto simp: bin_of_def in_bins_def)

end
