(* ===== verification/Heap_Lists.thy ===== *)
theory Heap_Lists
  imports Kmalloc
begin

text \<open>
  The free lists of the kernel heap: doubly linked lists of tags, what \<open>insert_tag\<close> and \<open>remove_tag\<close>
  do to them, and the search for a chunk.
\<close>

section \<open>Doubly linked lists\<close>

text \<open>
  The nodes \<open>xs\<close> from \<open>a\<close> on, linked by \<open>nx\<close> forwards up to the null pointer and by \<open>pv\<close> backwards
  down to \<open>p\<close>.
\<close>

fun dll :: "(addr \<Rightarrow> addr) \<Rightarrow> (addr \<Rightarrow> addr) \<Rightarrow> addr \<Rightarrow> addr \<Rightarrow> addr list \<Rightarrow> bool" where
  "dll nx pv p a [] \<longleftrightarrow> a = 0"
| "dll nx pv p a (x # xs) \<longleftrightarrow> a = x \<and> x \<noteq> 0 \<and> pv x = p \<and> dll nx pv x (nx x) xs"

lemma dll_cong:
  "(\<And>x. x \<in> set xs \<Longrightarrow> nx x = nx' x \<and> pv x = pv' x) \<Longrightarrow> dll nx pv p a xs = dll nx' pv' p a xs"
  by (induction xs arbitrary: p a) auto

lemma dll_nonzero: "dll nx pv p a xs \<Longrightarrow> 0 \<notin> set xs"
  by (induction xs arbitrary: p a) auto

lemma dll_head: "dll nx pv p a xs \<Longrightarrow> a = (if xs = [] then 0 else hd xs)"
  by (cases xs) auto

lemma dll_head_mem: "dll nx pv p a xs \<Longrightarrow> a = 0 \<or> a \<in> set xs"
  by (cases xs) auto

lemma dll_next_mem: "dll nx pv p a xs \<Longrightarrow> x \<in> set xs \<Longrightarrow> nx x = 0 \<or> nx x \<in> set xs"
  by (induction xs arbitrary: p a) (auto dest: dll_head_mem)

lemma dll_prev_mem: "dll nx pv p a xs \<Longrightarrow> x \<in> set xs \<Longrightarrow> pv x = p \<and> x = a \<or> pv x \<in> set xs"
  by (induction xs arbitrary: p a) fastforce+


lemma dll_push:
  assumes "dll nx pv 0 a xs" and "distinct (x # xs)" and "x \<noteq> 0" and "pv x = 0" and "nx x = 0"
  shows "dll (if a \<noteq> 0 then nx(x := a) else nx) (if a \<noteq> 0 then pv(a := x) else pv) 0 x (x # xs)"
proof (cases xs)
  case (Cons y ys)
  then have "dll (nx(x := a)) (pv(a := x)) y (nx y) ys = dll nx pv y (nx y) ys"
    using assms by (intro dll_cong) auto
  then show ?thesis using assms Cons by auto
qed (use assms in auto)

lemma dll_remove:
  assumes "dll nx pv p a xs" and "distinct (p # xs)" and "x \<in> set xs"
  shows "dll (nx(pv x := nx x)) (if nx x \<noteq> 0 then pv(nx x := pv x) else pv) p
    (if a = x then nx x else a) (remove1 x xs)"
  using assms
proof (induction xs arbitrary: p a)
  case (Cons y ys)
  let ?nx = "nx(pv x := nx x)" and ?pv = "if nx x \<noteq> 0 then pv(nx x := pv x) else pv"
  have tail: "dll nx pv y (nx y) ys" and y: "a = y" "y \<noteq> 0" "pv y = p" using Cons.prems by auto
  show ?case
  proof (cases "y = x")
    case True
    show ?thesis
    proof (cases ys)
      case Nil
      then show ?thesis using Cons.prems True by auto
    next
      case (Cons z zs)
      then have "dll ?nx ?pv z (nx z) zs = dll nx pv z (nx z) zs"
        using tail True y Cons.prems(2) by (intro dll_cong) auto
      then show ?thesis using tail True y Cons Cons.prems by (auto simp: fun_upd_def)
    qed
  next
    case False
    then have x: "x \<in> set ys" using Cons.prems by simp
    have IH: "dll ?nx ?pv y (if nx y = x then nx x else nx y) (remove1 x ys)"
      using Cons.IH [OF tail _ x] Cons.prems(2) by (simp del: fun_upd_apply)
    have "nx x \<noteq> y" using dll_next_mem [OF tail x] y(2) Cons.prems(2) by auto
    moreover have "nx y = x \<longleftrightarrow> pv x = y"
      using dll_prev_mem [OF tail x] dll_head [OF tail] Cons.prems(2) x tail by (cases ys) auto
    ultimately have "?pv y = p" and "?nx y = (if nx y = x then nx x else nx y)" using y(3) by auto
    then show ?thesis using IH False y(1,2) by (simp del: fun_upd_apply)
  qed
qed simp

lemma dll_unlink:
  assumes "dll nx pv 0 a xs" and "distinct xs" and "x \<in> set xs"
  shows "dll ((if pv x \<noteq> 0 then nx(pv x := nx x) else nx)(x := u)) ((if nx x \<noteq> 0 then pv(nx x := pv x) else pv)(x := v)) 0
    (if a = x then nx x else a) (remove1 x xs)"
proof -
  have nz: "0 \<notin> set xs" by (rule dll_nonzero [OF assms(1)])
  show ?thesis
    using dll_remove [OF assms(1) _ assms(3)] nz assms(2)
    by (subst dll_cong [where nx' = "nx(pv x := nx x)" and pv' = "if nx x \<noteq> 0 then pv(nx x := pv x) else pv"])
      (auto dest: notin_set_remove1)
qed

lemma find_tag_dll:
  assumes "dll (\<lambda>x. tag_next (tags h x)) pv p a xs"
  shows "find_tag h sz a =
    Some (case find (\<lambda>x. sz + sizeof_tag \<le> real_size (tags h x) - sizeof_tag) xs of None \<Rightarrow> 0 | Some x \<Rightarrow> x)"
  using assms
proof (induction xs arbitrary: p a)
  case Nil
  then show ?case by (subst find_tag.simps) simp
next
  case (Cons x xs)
  then show ?case by (subst find_tag.simps) auto
qed

section \<open>The free lists\<close>

abbreviation (input) nexts :: "kheap \<Rightarrow> addr \<Rightarrow> addr" where "nexts h \<equiv> \<lambda>a. tag_next (tags h a)"
abbreviation (input) prevs :: "kheap \<Rightarrow> addr \<Rightarrow> addr" where "prevs h \<equiv> \<lambda>a. tag_prev (tags h a)"
abbreviation (input) lefts :: "kheap \<Rightarrow> addr \<Rightarrow> addr" where "lefts h \<equiv> \<lambda>a. split_left (tags h a)"
abbreviation (input) rights :: "kheap \<Rightarrow> addr \<Rightarrow> addr" where "rights h \<equiv> \<lambda>a. split_right (tags h a)"
abbreviation (input) sizes :: "kheap \<Rightarrow> addr \<Rightarrow> u32" where "sizes h \<equiv> \<lambda>a. real_size (tags h a)"
abbreviation (input) classes :: "kheap \<Rightarrow> addr \<Rightarrow> int" where "classes h \<equiv> \<lambda>a. tag_index (tags h a)"

text \<open>
  Of the chunks \<open>C\<close>, those whose tag has a class hang in the list of that class, once each; the
  others are in use and unlinked.
\<close>

definition free_lists :: "kheap \<Rightarrow> addr set \<Rightarrow> bool" where
  "free_lists h C \<longleftrightarrow>
     (\<forall>i. in_bins i \<longrightarrow> (\<exists>xs. dll (nexts h) (prevs h) 0 (l_freePages h i) xs \<and> distinct xs \<and>
        set xs = {x \<in> C. classes h x = i})) \<and>
     (\<forall>x \<in> C. in_bins (classes h x) \<or> classes h x = - 1 \<and> nexts h x = 0 \<and> prevs h x = 0)"

text \<open>Two heaps that differ in the links and classes of the free lists only.\<close>

definition same_chunks :: "kheap \<Rightarrow> kheap \<Rightarrow> bool" where
  "same_chunks h h' \<longleftrightarrow>
     (\<forall>a. magic (tags h' a) = magic (tags h a) \<and> tag_size (tags h' a) = tag_size (tags h a) \<and>
        sizes h' a = sizes h a \<and> lefts h' a = lefts h a \<and> rights h' a = rights h a) \<and>
     l_completePages h' = l_completePages h \<and> l_initialized h' = l_initialized h \<and> hmachine h' = hmachine h \<and> hsched h' = hsched h"

lemma upd_tag_rest [simp]:
  "l_freePages (upd_tag x f h) = l_freePages h" "l_completePages (upd_tag x f h) = l_completePages h"
  "l_initialized (upd_tag x f h) = l_initialized h" "hmachine (upd_tag x f h) = hmachine h" "hsched (upd_tag x f h) = hsched h"
  by (simp_all add: upd_tag_def)

text \<open>What an assignment to one field of a tag does to the fields of all tags.\<close>

lemma upd_tag_size [simp]:
  "magic (tags (upd_tag x (\<lambda>t. t\<lparr>tag_size := v\<rparr>) h) a) = magic (tags h a)"
  "tag_size (tags (upd_tag x (\<lambda>t. t\<lparr>tag_size := v\<rparr>) h) a) = (if a = x then v else tag_size (tags h a))"
  "real_size (tags (upd_tag x (\<lambda>t. t\<lparr>tag_size := v\<rparr>) h) a) = real_size (tags h a)"
  "tag_index (tags (upd_tag x (\<lambda>t. t\<lparr>tag_size := v\<rparr>) h) a) = tag_index (tags h a)"
  "split_left (tags (upd_tag x (\<lambda>t. t\<lparr>tag_size := v\<rparr>) h) a) = split_left (tags h a)"
  "split_right (tags (upd_tag x (\<lambda>t. t\<lparr>tag_size := v\<rparr>) h) a) = split_right (tags h a)"
  "tag_next (tags (upd_tag x (\<lambda>t. t\<lparr>tag_size := v\<rparr>) h) a) = tag_next (tags h a)"
  "tag_prev (tags (upd_tag x (\<lambda>t. t\<lparr>tag_size := v\<rparr>) h) a) = tag_prev (tags h a)"
  by (simp_all add: upd_tag_def)

lemma upd_real_size [simp]:
  "magic (tags (upd_tag x (\<lambda>t. t\<lparr>real_size := v t\<rparr>) h) a) = magic (tags h a)"
  "tag_size (tags (upd_tag x (\<lambda>t. t\<lparr>real_size := v t\<rparr>) h) a) = tag_size (tags h a)"
  "real_size (tags (upd_tag x (\<lambda>t. t\<lparr>real_size := v t\<rparr>) h) a) = (if a = x then v (tags h a) else real_size (tags h a))"
  "tag_index (tags (upd_tag x (\<lambda>t. t\<lparr>real_size := v t\<rparr>) h) a) = tag_index (tags h a)"
  "split_left (tags (upd_tag x (\<lambda>t. t\<lparr>real_size := v t\<rparr>) h) a) = split_left (tags h a)"
  "split_right (tags (upd_tag x (\<lambda>t. t\<lparr>real_size := v t\<rparr>) h) a) = split_right (tags h a)"
  "tag_next (tags (upd_tag x (\<lambda>t. t\<lparr>real_size := v t\<rparr>) h) a) = tag_next (tags h a)"
  "tag_prev (tags (upd_tag x (\<lambda>t. t\<lparr>real_size := v t\<rparr>) h) a) = tag_prev (tags h a)"
  by (simp_all add: upd_tag_def)

lemma upd_tag_index [simp]:
  "magic (tags (upd_tag x (\<lambda>t. t\<lparr>tag_index := v\<rparr>) h) a) = magic (tags h a)"
  "tag_size (tags (upd_tag x (\<lambda>t. t\<lparr>tag_index := v\<rparr>) h) a) = tag_size (tags h a)"
  "real_size (tags (upd_tag x (\<lambda>t. t\<lparr>tag_index := v\<rparr>) h) a) = real_size (tags h a)"
  "tag_index (tags (upd_tag x (\<lambda>t. t\<lparr>tag_index := v\<rparr>) h) a) = (if a = x then v else tag_index (tags h a))"
  "split_left (tags (upd_tag x (\<lambda>t. t\<lparr>tag_index := v\<rparr>) h) a) = split_left (tags h a)"
  "split_right (tags (upd_tag x (\<lambda>t. t\<lparr>tag_index := v\<rparr>) h) a) = split_right (tags h a)"
  "tag_next (tags (upd_tag x (\<lambda>t. t\<lparr>tag_index := v\<rparr>) h) a) = tag_next (tags h a)"
  "tag_prev (tags (upd_tag x (\<lambda>t. t\<lparr>tag_index := v\<rparr>) h) a) = tag_prev (tags h a)"
  by (simp_all add: upd_tag_def)

lemma upd_split_left [simp]:
  "magic (tags (upd_tag x (\<lambda>t. t\<lparr>split_left := v\<rparr>) h) a) = magic (tags h a)"
  "tag_size (tags (upd_tag x (\<lambda>t. t\<lparr>split_left := v\<rparr>) h) a) = tag_size (tags h a)"
  "real_size (tags (upd_tag x (\<lambda>t. t\<lparr>split_left := v\<rparr>) h) a) = real_size (tags h a)"
  "tag_index (tags (upd_tag x (\<lambda>t. t\<lparr>split_left := v\<rparr>) h) a) = tag_index (tags h a)"
  "split_left (tags (upd_tag x (\<lambda>t. t\<lparr>split_left := v\<rparr>) h) a) = (if a = x then v else split_left (tags h a))"
  "split_right (tags (upd_tag x (\<lambda>t. t\<lparr>split_left := v\<rparr>) h) a) = split_right (tags h a)"
  "tag_next (tags (upd_tag x (\<lambda>t. t\<lparr>split_left := v\<rparr>) h) a) = tag_next (tags h a)"
  "tag_prev (tags (upd_tag x (\<lambda>t. t\<lparr>split_left := v\<rparr>) h) a) = tag_prev (tags h a)"
  by (simp_all add: upd_tag_def)

lemma upd_split_right [simp]:
  "magic (tags (upd_tag x (\<lambda>t. t\<lparr>split_right := v\<rparr>) h) a) = magic (tags h a)"
  "tag_size (tags (upd_tag x (\<lambda>t. t\<lparr>split_right := v\<rparr>) h) a) = tag_size (tags h a)"
  "real_size (tags (upd_tag x (\<lambda>t. t\<lparr>split_right := v\<rparr>) h) a) = real_size (tags h a)"
  "tag_index (tags (upd_tag x (\<lambda>t. t\<lparr>split_right := v\<rparr>) h) a) = tag_index (tags h a)"
  "split_left (tags (upd_tag x (\<lambda>t. t\<lparr>split_right := v\<rparr>) h) a) = split_left (tags h a)"
  "split_right (tags (upd_tag x (\<lambda>t. t\<lparr>split_right := v\<rparr>) h) a) = (if a = x then v else split_right (tags h a))"
  "tag_next (tags (upd_tag x (\<lambda>t. t\<lparr>split_right := v\<rparr>) h) a) = tag_next (tags h a)"
  "tag_prev (tags (upd_tag x (\<lambda>t. t\<lparr>split_right := v\<rparr>) h) a) = tag_prev (tags h a)"
  by (simp_all add: upd_tag_def)

lemma upd_tag_next [simp]:
  "magic (tags (upd_tag x (\<lambda>t. t\<lparr>tag_next := v\<rparr>) h) a) = magic (tags h a)"
  "tag_size (tags (upd_tag x (\<lambda>t. t\<lparr>tag_next := v\<rparr>) h) a) = tag_size (tags h a)"
  "real_size (tags (upd_tag x (\<lambda>t. t\<lparr>tag_next := v\<rparr>) h) a) = real_size (tags h a)"
  "tag_index (tags (upd_tag x (\<lambda>t. t\<lparr>tag_next := v\<rparr>) h) a) = tag_index (tags h a)"
  "split_left (tags (upd_tag x (\<lambda>t. t\<lparr>tag_next := v\<rparr>) h) a) = split_left (tags h a)"
  "split_right (tags (upd_tag x (\<lambda>t. t\<lparr>tag_next := v\<rparr>) h) a) = split_right (tags h a)"
  "tag_next (tags (upd_tag x (\<lambda>t. t\<lparr>tag_next := v\<rparr>) h) a) = (if a = x then v else tag_next (tags h a))"
  "tag_prev (tags (upd_tag x (\<lambda>t. t\<lparr>tag_next := v\<rparr>) h) a) = tag_prev (tags h a)"
  by (simp_all add: upd_tag_def)

lemma upd_tag_prev [simp]:
  "magic (tags (upd_tag x (\<lambda>t. t\<lparr>tag_prev := v\<rparr>) h) a) = magic (tags h a)"
  "tag_size (tags (upd_tag x (\<lambda>t. t\<lparr>tag_prev := v\<rparr>) h) a) = tag_size (tags h a)"
  "real_size (tags (upd_tag x (\<lambda>t. t\<lparr>tag_prev := v\<rparr>) h) a) = real_size (tags h a)"
  "tag_index (tags (upd_tag x (\<lambda>t. t\<lparr>tag_prev := v\<rparr>) h) a) = tag_index (tags h a)"
  "split_left (tags (upd_tag x (\<lambda>t. t\<lparr>tag_prev := v\<rparr>) h) a) = split_left (tags h a)"
  "split_right (tags (upd_tag x (\<lambda>t. t\<lparr>tag_prev := v\<rparr>) h) a) = split_right (tags h a)"
  "tag_next (tags (upd_tag x (\<lambda>t. t\<lparr>tag_prev := v\<rparr>) h) a) = tag_next (tags h a)"
  "tag_prev (tags (upd_tag x (\<lambda>t. t\<lparr>tag_prev := v\<rparr>) h) a) = (if a = x then v else tag_prev (tags h a))"
  by (simp_all add: upd_tag_def)

lemma upd_unlinked [simp]:
  "magic (tags (upd_tag x (\<lambda>t. t\<lparr>tag_next := 0, tag_prev := 0, tag_index := - 1\<rparr>) h) a) = magic (tags h a)"
  "tag_size (tags (upd_tag x (\<lambda>t. t\<lparr>tag_next := 0, tag_prev := 0, tag_index := - 1\<rparr>) h) a) = tag_size (tags h a)"
  "real_size (tags (upd_tag x (\<lambda>t. t\<lparr>tag_next := 0, tag_prev := 0, tag_index := - 1\<rparr>) h) a) = real_size (tags h a)"
  "tag_index (tags (upd_tag x (\<lambda>t. t\<lparr>tag_next := 0, tag_prev := 0, tag_index := - 1\<rparr>) h) a) = (if a = x then - 1 else tag_index (tags h a))"
  "split_left (tags (upd_tag x (\<lambda>t. t\<lparr>tag_next := 0, tag_prev := 0, tag_index := - 1\<rparr>) h) a) = split_left (tags h a)"
  "split_right (tags (upd_tag x (\<lambda>t. t\<lparr>tag_next := 0, tag_prev := 0, tag_index := - 1\<rparr>) h) a) = split_right (tags h a)"
  "tag_next (tags (upd_tag x (\<lambda>t. t\<lparr>tag_next := 0, tag_prev := 0, tag_index := - 1\<rparr>) h) a) = (if a = x then 0 else tag_next (tags h a))"
  "tag_prev (tags (upd_tag x (\<lambda>t. t\<lparr>tag_next := 0, tag_prev := 0, tag_index := - 1\<rparr>) h) a) = (if a = x then 0 else tag_prev (tags h a))"
  by (simp_all add: upd_tag_def)

lemma remove_tag_effect:
  assumes "in_bins (classes h x)"
  shows "\<exists>h'. remove_tag x h = Some h' \<and> same_chunks h h' \<and>
    nexts h' = (if prevs h x \<noteq> 0 then (nexts h)(prevs h x := nexts h x) else nexts h)(x := 0) \<and>
    prevs h' = (if nexts h x \<noteq> 0 then (prevs h)(nexts h x := prevs h x) else prevs h)(x := 0) \<and>
    classes h' = (classes h)(x := - 1) \<and>
    l_freePages h' = (l_freePages h)(classes h x := (if l_freePages h (classes h x) = x then nexts h x else l_freePages h (classes h x)))"
proof -
  let ?i = "classes h x"
  define h1 where "h1 = (if l_freePages h ?i = x then h\<lparr>l_freePages := (l_freePages h)(?i := nexts h x)\<rparr> else h)"
  define h2 where "h2 = (if prevs h1 x \<noteq> 0 then upd_tag (prevs h1 x) (\<lambda>t. t\<lparr>tag_next := nexts h1 x\<rparr>) h1 else h1)"
  define h3 where "h3 = (if nexts h2 x \<noteq> 0 then upd_tag (nexts h2 x) (\<lambda>t. t\<lparr>tag_prev := prevs h2 x\<rparr>) h2 else h2)"
  define h4 where "h4 = upd_tag x (\<lambda>t. t\<lparr>tag_next := 0, tag_prev := 0, tag_index := - 1\<rparr>) h3"
  have h4: "remove_tag x h = Some h4"
    by (simp only: remove_tag_def Let_def h1_def h2_def h3_def h4_def assms simp_thms if_False)
  have 1: "tags h1 = tags h" "same_chunks h h1"
      "l_freePages h1 = (l_freePages h)(?i := (if l_freePages h ?i = x then nexts h x else l_freePages h ?i))"
    by (simp_all add: h1_def same_chunks_def)
  have 2: "nexts h2 = (if prevs h x \<noteq> 0 then (nexts h)(prevs h x := nexts h x) else nexts h)" "prevs h2 = prevs h"
      "classes h2 = classes h" "l_freePages h2 = l_freePages h1" "same_chunks h h2"
    using 1(2) by (simp_all add: h2_def 1(1) same_chunks_def fun_eq_iff)
  have "nexts h2 x = nexts h x" using fun_cong [OF 2(1), of x] by simp
  then have 3: "nexts h3 = nexts h2" "prevs h3 = (if nexts h x \<noteq> 0 then (prevs h)(nexts h x := prevs h x) else prevs h)"
      "classes h3 = classes h" "l_freePages h3 = l_freePages h1" "same_chunks h h3"
    using 2(2-) by (simp_all add: h3_def same_chunks_def fun_eq_iff)
  have "nexts h4 = (nexts h3)(x := 0)" "prevs h4 = (prevs h3)(x := 0)" "classes h4 = (classes h3)(x := - 1)"
      "l_freePages h4 = l_freePages h1" "same_chunks h h4"
    using 3(4,5) by (simp_all add: h4_def same_chunks_def fun_eq_iff)
  then show ?thesis using h4 1(3) 2(1) 3(1-3) by simp
qed

lemma remove_tag_free_lists:
  assumes fl: "free_lists h C" and "x \<in> C" and i: "in_bins (classes h x)"
  shows "\<exists>h'. remove_tag x h = Some h' \<and> same_chunks h h' \<and> free_lists h' C \<and> classes h' = (classes h)(x := - 1)"
proof -
  obtain h' where h': "remove_tag x h = Some h'" "same_chunks h h'"
    "nexts h' = (if prevs h x \<noteq> 0 then (nexts h)(prevs h x := nexts h x) else nexts h)(x := 0)"
    "prevs h' = (if nexts h x \<noteq> 0 then (prevs h)(nexts h x := prevs h x) else prevs h)(x := 0)"
    "classes h' = (classes h)(x := - 1)"
    "l_freePages h' = (l_freePages h)(classes h x := (if l_freePages h (classes h x) = x then nexts h x else l_freePages h (classes h x)))"
    using remove_tag_effect [OF i] by (elim exE conjE) (rule that)
  let ?i = "classes h x"
  have cls: "classes h' y = (if y = x then - 1 else classes h y)" for y using fun_cong [OF h'(5)] by simp
  obtain xs where xs: "dll (nexts h) (prevs h) 0 (l_freePages h ?i) xs" "distinct xs" "set xs = {y \<in> C. classes h y = ?i}"
    using fl i unfolding free_lists_def by blast
  have x: "x \<in> set xs" using xs(3) assms(2) by simp
  have near: "prevs h x = 0 \<or> prevs h x \<in> set xs" "nexts h x = 0 \<or> nexts h x \<in> set xs"
    using dll_prev_mem [OF xs(1) x] dll_next_mem [OF xs(1) x] by auto
  have keep: "nexts h' y = nexts h y \<and> prevs h' y = prevs h y" if "y \<notin> set xs" "y \<noteq> 0" for y
    using that near x fun_cong [OF h'(3), of y] fun_cong [OF h'(4), of y] by auto
  have "\<exists>ys. dll (nexts h') (prevs h') 0 (l_freePages h' j) ys \<and> distinct ys \<and> set ys = {y \<in> C. classes h' y = j}"
    if j: "in_bins j" for j
  proof (cases "j = ?i")
    case True
    have "set (remove1 x xs) = set xs - {x}" using xs(2) by simp
    then have "set (remove1 x xs) = {y \<in> C. classes h' y = ?i}"
      using xs(3) i by (auto simp: cls in_bins_def)
    moreover have "dll (nexts h') (prevs h') 0 (l_freePages h' ?i) (remove1 x xs)"
      using dll_unlink [OF xs(1,2) x, of 0 0] unfolding h'(3,4,6) fun_upd_same .
    ultimately show ?thesis using xs(2) True by (intro exI [of _ "remove1 x xs"]) simp
  next
    case False
    obtain ys where ys: "dll (nexts h) (prevs h) 0 (l_freePages h j) ys" "distinct ys" "set ys = {y \<in> C. classes h y = j}"
      using fl j unfolding free_lists_def by blast
    have "dll (nexts h') (prevs h') 0 (l_freePages h j) ys = dll (nexts h) (prevs h) 0 (l_freePages h j) ys"
      using xs(3) ys(3) False dll_nonzero [OF ys(1)] by (intro dll_cong keep) auto
    moreover have "set ys = {y \<in> C. classes h' y = j}" using ys(3) False j by (auto simp: cls in_bins_def)
    moreover have "l_freePages h' j = l_freePages h j" using h'(6) False by simp
    ultimately show ?thesis using ys(1,2) by auto
  qed
  moreover have "in_bins (classes h' y) \<or> classes h' y = - 1 \<and> nexts h' y = 0 \<and> prevs h' y = 0" if "y \<in> C" for y
  proof (cases "y = x \<or> in_bins (classes h y)")
    case True
    then show ?thesis using cls [of y] fun_cong [OF h'(3), of y] fun_cong [OF h'(4), of y] by auto
  next
    case False
    then have y: "y \<notin> set xs" "nexts h y = 0" "prevs h y = 0" "classes h y = - 1"
      using fl that xs(3) i unfolding free_lists_def by auto
    then show ?thesis using False near cls [of y] fun_cong [OF h'(3), of y] fun_cong [OF h'(4), of y] by auto
  qed
  ultimately have "free_lists h' C" unfolding free_lists_def by blast
  then show ?thesis using h'(1,2,5) by auto
qed

lemma insert_tag_effect:
  assumes "in_bins r" and "r = (if idx < 0 then bin_of (sizes h x - sizeof_tag) else idx)"
  shows "\<exists>h'. insert_tag x idx h = Some h' \<and> same_chunks h h' \<and>
    nexts h' = (if l_freePages h r \<noteq> 0 then (nexts h)(x := l_freePages h r) else nexts h) \<and>
    prevs h' = (if l_freePages h r \<noteq> 0 then (prevs h)(l_freePages h r := x) else prevs h) \<and>
    classes h' = (classes h)(x := r) \<and> l_freePages h' = (l_freePages h)(r := x)"
proof -
  let ?head = "l_freePages h r"
  define h1 where "h1 = upd_tag x (\<lambda>t. t\<lparr>tag_index := r\<rparr>) h"
  define h2 where "h2 = (if ?head \<noteq> 0 then upd_tag x (\<lambda>t. t\<lparr>tag_next := ?head\<rparr>) (upd_tag ?head (\<lambda>t. t\<lparr>tag_prev := x\<rparr>) h1) else h1)"
  have bin: "bin_of sz = (let r = getexp sz in if r < MINEXP then MINEXP else r)" for sz
    by (simp only: bin_of_def Let_def)
  have "insert_tag x idx h = Some (h2\<lparr>l_freePages := (l_freePages h2)(r := x)\<rparr>)"
    unfolding insert_tag_def bin [symmetric] assms(2) [symmetric]
    using assms(1) by (simp only: Let_def h1_def h2_def simp_thms if_False upd_tag_rest)
  moreover have 1: "nexts h1 = nexts h" "prevs h1 = prevs h" "classes h1 = (classes h)(x := r)" "l_freePages h1 = l_freePages h"
      "same_chunks h h1"
    by (simp_all add: h1_def same_chunks_def fun_eq_iff)
  have "nexts h2 = (if ?head \<noteq> 0 then (nexts h)(x := ?head) else nexts h)"
      "prevs h2 = (if ?head \<noteq> 0 then (prevs h)(?head := x) else prevs h)" "classes h2 = (classes h)(x := r)"
      "l_freePages h2 = l_freePages h" "same_chunks h h2"
    using 1 by (simp_all add: h2_def same_chunks_def fun_eq_iff)
  ultimately show ?thesis by (simp add: same_chunks_def)
qed

lemma insert_tag_free_lists:
  assumes fl: "free_lists h (C - {x})" and "x \<in> C" and "x \<noteq> 0" and x: "nexts h x = 0" "prevs h x = 0"
    and r: "in_bins r" "r = (if idx < 0 then bin_of (sizes h x - sizeof_tag) else idx)"
  shows "\<exists>h'. insert_tag x idx h = Some h' \<and> same_chunks h h' \<and> free_lists h' C \<and> classes h' = (classes h)(x := r)"
proof -
  obtain h' where h': "insert_tag x idx h = Some h'" "same_chunks h h'"
    "nexts h' = (if l_freePages h r \<noteq> 0 then (nexts h)(x := l_freePages h r) else nexts h)"
    "prevs h' = (if l_freePages h r \<noteq> 0 then (prevs h)(l_freePages h r := x) else prevs h)"
    "classes h' = (classes h)(x := r)" "l_freePages h' = (l_freePages h)(r := x)"
    using insert_tag_effect [OF r] by (elim exE conjE) (rule that)
  have cls: "classes h' y = (if y = x then r else classes h y)" for y using fun_cong [OF h'(5)] by simp
  obtain xs where xs: "dll (nexts h) (prevs h) 0 (l_freePages h r) xs" "distinct xs" "set xs = {y \<in> C - {x}. classes h y = r}"
    using fl r(1) unfolding free_lists_def by blast
  have notin: "x \<notin> set xs" using xs(3) by auto
  have head: "l_freePages h r = 0 \<or> l_freePages h r \<in> set xs" by (rule dll_head_mem [OF xs(1)])
  have keep: "nexts h' y = nexts h y \<and> prevs h' y = prevs h y" if "y \<notin> set xs" "y \<noteq> x" for y
    using that head fun_cong [OF h'(3), of y] fun_cong [OF h'(4), of y] by auto
  have "\<exists>ys. dll (nexts h') (prevs h') 0 (l_freePages h' j) ys \<and> distinct ys \<and> set ys = {y \<in> C. classes h' y = j}"
    if j: "in_bins j" for j
  proof (cases "j = r")
    case True
    have "dll (nexts h') (prevs h') 0 x (x # xs)"
      unfolding h'(3,4) using xs notin x assms(3) by (intro dll_push) simp_all
    moreover have "set (x # xs) = {y \<in> C. classes h' y = r}" using xs(3) assms(2) by (auto simp: cls)
    ultimately show ?thesis using xs(2) notin True h'(6) by (intro exI [of _ "x # xs"]) simp
  next
    case False
    obtain ys where ys: "dll (nexts h) (prevs h) 0 (l_freePages h j) ys" "distinct ys" "set ys = {y \<in> C - {x}. classes h y = j}"
      using fl j unfolding free_lists_def by blast
    have "x \<notin> set ys" using ys(3) by auto
    then have "dll (nexts h') (prevs h') 0 (l_freePages h j) ys = dll (nexts h) (prevs h) 0 (l_freePages h j) ys"
      using xs(3) ys(3) False by (intro dll_cong keep) auto
    moreover have "set ys = {y \<in> C. classes h' y = j}" using ys(3) False by (auto simp: cls)
    moreover have "l_freePages h' j = l_freePages h j" using h'(6) False by simp
    ultimately show ?thesis using ys(1,2) by auto
  qed
  moreover have "in_bins (classes h' y) \<or> classes h' y = - 1 \<and> nexts h' y = 0 \<and> prevs h' y = 0" if "y \<in> C" for y
  proof (cases "y = x \<or> in_bins (classes h y)")
    case True
    then show ?thesis using cls [of y] r(1) by auto
  next
    case False
    then have "y \<notin> set xs" "nexts h y = 0" "prevs h y = 0" "classes h y = - 1"
      using fl that xs(3) r(1) unfolding free_lists_def by auto
    then show ?thesis using False keep [of y] cls [of y] by auto
  qed
  ultimately have "free_lists h' C" unfolding free_lists_def by blast
  then show ?thesis using h'(1,2,5) by auto
qed

end
