(* ===== verification/Heap_Tiling.thy ===== *)
theory Heap_Tiling
  imports Heap_Lists
begin

text \<open>
  The chunks of the kernel heap tile the blocks of pages it got: what merging two neighbours,
  cutting a chunk, and adding or releasing a block do to the tiling.
\<close>

section \<open>Chunks tile their blocks\<close>

definition span :: "kheap \<Rightarrow> addr \<Rightarrow> nat set" where
  "span h x = {unat x ..< unat x + unat (sizes h x)}"

definition block :: "addr \<times> nat \<Rightarrow> nat set" where
  "block bn = {unat (fst bn) ..< unat (fst bn) + snd bn * 4096}"

text \<open>
  Blocks of at least \<open>l_pageCount\<close> pages, in the kernel's gigabyte, that do not overlap.
\<close>

definition blocks_ok :: "(addr \<times> nat) set \<Rightarrow> bool" where
  "blocks_ok B \<longleftrightarrow>
     (\<forall>bn \<in> B. fst bn \<noteq> 0 \<and> 16 \<le> snd bn \<and> unat (fst bn) + snd bn * 4096 \<le> 0x40000000) \<and>
     (\<forall>bn \<in> B. \<forall>cm \<in> B. bn \<noteq> cm \<longrightarrow> block bn \<inter> block cm = {})"

text \<open>
  A chunk \<open>x\<close> of a heap with the chunks \<open>C\<close>, each in the block \<open>blk\<close> gives: its neighbours are the
  chunks before and after it in its block.
\<close>

definition chunk_ok :: "kheap \<Rightarrow> addr set \<Rightarrow> (addr \<Rightarrow> addr \<times> nat) \<Rightarrow> addr \<Rightarrow> bool" where
  "chunk_ok h C blk x \<longleftrightarrow>
     magic (tags h x) = LIBALLOC_MAGIC \<and> 32 \<le> unat (sizes h x) \<and> span h x \<subseteq> block (blk x) \<and>
     (if rights h x = 0 then unat x + unat (sizes h x) = unat (fst (blk x)) + snd (blk x) * 4096
      else rights h x \<in> C \<and> lefts h (rights h x) = x \<and> unat (rights h x) = unat x + unat (sizes h x) \<and>
        blk (rights h x) = blk x) \<and>
     (if lefts h x = 0 then x = fst (blk x) else lefts h x \<in> C \<and> rights h (lefts h x) = x)"

lemma chunk_okI:
  assumes "magic (tags h x) = LIBALLOC_MAGIC" and "32 \<le> unat (sizes h x)" and "span h x \<subseteq> block (blk x)"
    and "if rights h x = 0 then unat x + unat (sizes h x) = unat (fst (blk x)) + snd (blk x) * 4096
      else rights h x \<in> C \<and> lefts h (rights h x) = x \<and> unat (rights h x) = unat x + unat (sizes h x) \<and>
        blk (rights h x) = blk x"
    and "if lefts h x = 0 then x = fst (blk x) else lefts h x \<in> C \<and> rights h (lefts h x) = x"
  shows "chunk_ok h C blk x"
  using assms unfolding chunk_ok_def by blast

definition tiling :: "kheap \<Rightarrow> addr set \<Rightarrow> (addr \<Rightarrow> addr \<times> nat) \<Rightarrow> (addr \<times> nat) set \<Rightarrow> bool" where
  "tiling h C blk B \<longleftrightarrow>
     finite C \<and> 0 \<notin> C \<and> blocks_ok B \<and> blk ` C \<subseteq> B \<and> (\<forall>x \<in> C. chunk_ok h C blk x) \<and>
     (\<forall>x \<in> C. \<forall>y \<in> C. x \<noteq> y \<longrightarrow> span h x \<inter> span h y = {})"

lemma tiling_same_chunks: "same_chunks h h' \<Longrightarrow> tiling h' C blk B = tiling h C blk B"
  by (simp add: tiling_def chunk_ok_def span_def same_chunks_def)

lemma same_chunks_trans: "same_chunks h h' \<Longrightarrow> same_chunks h' h'' \<Longrightarrow> same_chunks h h''"
  by (simp add: same_chunks_def)

lemma tiling_bounds:
  assumes "tiling h C blk B" and "x \<in> C"
  shows "unat x + unat (sizes h x) \<le> 0x40000000" and "32 \<le> unat (sizes h x)" and "x \<noteq> 0"
proof -
  have x: "span h x \<subseteq> block (blk x)" "blk x \<in> B" "blocks_ok B" and s: "32 \<le> unat (sizes h x)"
    using assms by (auto simp: tiling_def chunk_ok_def)
  have "unat x + unat (sizes h x) - 1 \<in> span h x" using s by (simp add: span_def)
  then have "unat x + unat (sizes h x) - 1 < unat (fst (blk x)) + snd (blk x) * 4096"
    using x(1) by (auto simp: block_def)
  moreover have "unat (fst (blk x)) + snd (blk x) * 4096 \<le> 0x40000000" using x(2,3) by (simp add: blocks_ok_def)
  ultimately show "unat x + unat (sizes h x) \<le> 0x40000000" by linarith
  show "32 \<le> unat (sizes h x)" by (rule s)
  show "x \<noteq> 0" using assms by (auto simp: tiling_def)
qed

text \<open>Two neighbours become one chunk.\<close>

lemma tiling_merge:
  assumes t: "tiling h C blk B" and x: "x \<in> C" and y: "rights h x = y" "y \<noteq> 0"
    and sz: "\<And>a. sizes h' a = (if a = x then sizes h x + sizes h y else sizes h a)"
    and rt: "\<And>a. rights h' a = (if a = x then rights h y else rights h a)"
    and lf: "\<And>a. lefts h' a = (if a = rights h y \<and> a \<noteq> 0 then x else lefts h a)"
    and mg: "\<And>a. magic (tags h' a) = magic (tags h a)"
  shows "tiling h' (C - {y}) blk B"
proof -
  have ok: "\<And>w. w \<in> C \<Longrightarrow> chunk_ok h C blk w" and disj: "\<And>u v. u \<in> C \<Longrightarrow> v \<in> C \<Longrightarrow> u \<noteq> v \<Longrightarrow> span h u \<inter> span h v = {}"
    and nz: "0 \<notin> C" using t by (auto simp: tiling_def)
  have xy: "y \<in> C" "lefts h y = x" "unat y = unat x + unat (sizes h x)" "blk y = blk x"
    using ok [OF x] y by (auto simp: chunk_ok_def)
  have s32: "32 \<le> unat (sizes h x)" "32 \<le> unat (sizes h y)" using ok x xy(1) by (auto simp: chunk_ok_def)
  then have "x \<noteq> y" using xy(3) by auto
  have "unat (sizes h x) + unat (sizes h y) < 4294967296"
    using tiling_bounds(1) [OF t xy(1)] xy(3) by linarith
  then have sum: "unat (sizes h x + sizes h y) = unat (sizes h x) + unat (sizes h y)"
    by (simp add: unat_word_ariths)
  have spans: "span h' x = span h x \<union> span h y" "\<And>w. w \<noteq> x \<Longrightarrow> span h' w = span h w"
    using xy(3) sum by (auto simp: span_def sz)
  let ?z = "rights h y"
  have z: "?z \<noteq> 0 \<Longrightarrow> ?z \<in> C \<and> lefts h ?z = y \<and> unat ?z = unat y + unat (sizes h y) \<and> blk ?z = blk y"
      "?z = 0 \<Longrightarrow> unat y + unat (sizes h y) = unat (fst (blk y)) + snd (blk y) * 4096"
    using ok [OF xy(1)] by (auto simp: chunk_ok_def split: if_splits)
  have gt: "unat y < unat ?z" if "?z \<noteq> 0" using z(1) [OF that] s32(2) by linarith
  have zne: "?z \<noteq> x" using gt xy(3) tiling_bounds(3) [OF t x] by (metis not_add_less1)
  have zne': "?z \<noteq> y" using gt y(2) by (metis less_irrefl)
  have "chunk_ok h' (C - {y}) blk w" if w: "w \<in> C - {y}" for w
  proof (cases "w = x")
    case True
    have "lefts h x \<noteq> y" using ok [OF x] zne y(2) by (auto simp: chunk_ok_def split: if_splits)
    moreover have "lefts h' x = lefts h x" using zne by (simp add: lf)
    ultimately have l: "if lefts h' x = 0 then x = fst (blk x) else lefts h' x \<in> C - {y} \<and> rights h' (lefts h' x) = x"
      using ok [OF x] y \<open>x \<noteq> y\<close> by (auto simp: chunk_ok_def rt)
    have r: "if rights h' x = 0 then unat x + unat (sizes h' x) = unat (fst (blk x)) + snd (blk x) * 4096
        else rights h' x \<in> C - {y} \<and> lefts h' (rights h' x) = x \<and> unat (rights h' x) = unat x + unat (sizes h' x) \<and>
          blk (rights h' x) = blk x"
      using z zne zne' xy(3,4) sum by (simp add: rt lf sz add.assoc)
    have s: "span h' x \<subseteq> block (blk x)"
      using ok [OF x] ok [OF xy(1)] xy(4) spans(1) by (simp add: chunk_ok_def)
    have "magic (tags h' x) = LIBALLOC_MAGIC" "32 \<le> unat (sizes h' x)"
      using ok [OF x] s32 sum by (simp_all add: chunk_ok_def mg sz)
    then show ?thesis using s r l unfolding True by (rule chunk_okI)
  next
    case False
    have "rights h w \<noteq> y" using ok [of w] w False xy(2) y(2) by (auto simp: chunk_ok_def)
    moreover have "?z = 0 \<or> rights h w \<noteq> ?z" using ok [of w] w z(1) by (auto simp: chunk_ok_def)
    ultimately have r: "if rights h' w = 0 then unat w + unat (sizes h' w) = unat (fst (blk w)) + snd (blk w) * 4096
        else rights h' w \<in> C - {y} \<and> lefts h' (rights h' w) = w \<and> unat (rights h' w) = unat w + unat (sizes h' w) \<and>
          blk (rights h' w) = blk w"
      using ok [of w] w False by (auto simp: chunk_ok_def rt lf sz)
    have "w = ?z \<or> lefts h w \<noteq> y" using ok [of w] w y(2) by (auto simp: chunk_ok_def split: if_splits)
    then have l: "if lefts h' w = 0 then w = fst (blk w) else lefts h' w \<in> C - {y} \<and> rights h' (lefts h' w) = w"
      using ok [of w] w nz x y(1) \<open>x \<noteq> y\<close> tiling_bounds(3) [OF t x] by (auto simp: chunk_ok_def rt lf)
    have "magic (tags h' w) = LIBALLOC_MAGIC" "32 \<le> unat (sizes h' w)" "span h' w \<subseteq> block (blk w)"
      using ok [of w] w False spans(2) [of w] by (simp_all add: chunk_ok_def mg sz)
    then show ?thesis using r l by (rule chunk_okI)
  qed
  moreover have "span h' u \<inter> span h' v = {}" if "u \<in> C - {y}" "v \<in> C - {y}" "u \<noteq> v" for u v
    using that disj [of u v] disj [of y] disj [OF _ xy(1)] xy(1) spans by (cases "u = x"; cases "v = x") auto
  ultimately show ?thesis using t by (auto simp: tiling_def)
qed

text \<open>A chunk is cut in two; the second part is a new chunk.\<close>

lemma tiling_split:
  assumes t: "tiling h C blk B" and x: "x \<in> C" and k: "32 \<le> unat k" "unat k + 32 \<le> unat (sizes h x)"
    and n: "n = x + k"
    and sz: "\<And>a. sizes h' a = (if a = x then k else if a = n then sizes h x - k else sizes h a)"
    and rt: "\<And>a. rights h' a = (if a = x then n else if a = n then rights h x else rights h a)"
    and lf: "\<And>a. lefts h' a = (if a = n then x else if a = rights h x \<and> a \<noteq> 0 then n else lefts h a)"
    and mg: "\<And>a. magic (tags h' a) = (if a = n then LIBALLOC_MAGIC else magic (tags h a))"
  shows "n \<notin> C \<and> n \<noteq> 0 \<and> tiling h' (insert n C) (blk(n := blk x)) B"
proof -
  let ?blk = "blk(n := blk x)"
  have ok: "\<And>w. w \<in> C \<Longrightarrow> chunk_ok h C blk w" and disj: "\<And>u v. u \<in> C \<Longrightarrow> v \<in> C \<Longrightarrow> u \<noteq> v \<Longrightarrow> span h u \<inter> span h v = {}"
    and nz: "0 \<notin> C" using t by (auto simp: tiling_def)
  have un: "unat n = unat x + unat k"
    using tiling_bounds(1) [OF t x] k(2) by (simp add: n unat_word_ariths)
  have us: "unat (sizes h x - k) = unat (sizes h x) - unat k"
    using k(2) by (simp add: unat_sub_if')
  have nx: "n \<noteq> x" "n \<noteq> 0" using un k(1) by auto
  have n_in: "unat n \<in> span h x" using un k by (simp add: span_def)
  have nC: "n \<notin> C"
  proof
    assume "n \<in> C"
    then have "unat n \<in> span h n" using ok [of n] by (auto simp: chunk_ok_def span_def)
    then show False using disj [OF x \<open>n \<in> C\<close>] n_in nx(1) by auto
  qed
  let ?z = "rights h x"
  have z: "?z \<noteq> 0 \<Longrightarrow> ?z \<in> C \<and> lefts h ?z = x \<and> unat ?z = unat x + unat (sizes h x) \<and> blk ?z = blk x"
      "?z = 0 \<Longrightarrow> unat x + unat (sizes h x) = unat (fst (blk x)) + snd (blk x) * 4096"
    using ok [OF x] by (auto simp: chunk_ok_def split: if_splits)
  have zn: "?z \<noteq> n" using z(1) nx(2) nC by auto
  have zx: "?z \<noteq> x" using z(1) k tiling_bounds(3) [OF t x] by force
  have spans: "span h' x \<union> span h' n = span h x" "span h' x \<inter> span h' n = {}"
      "\<And>w. w \<noteq> x \<Longrightarrow> w \<noteq> n \<Longrightarrow> span h' w = span h w"
    using un us k nx by (auto simp: span_def sz)
  have old: "chunk_ok h' (insert n C) ?blk w" if w: "w \<in> C" for w
  proof (cases "w = x")
    case True
    have "lefts h x \<noteq> n" "lefts h' x = lefts h x" using ok [OF x] nC nx zx by (auto simp: chunk_ok_def lf)
    moreover have "lefts h x \<noteq> x" using ok [OF x] zx tiling_bounds(3) [OF t x] by (auto simp: chunk_ok_def split: if_splits)
    ultimately have l: "if lefts h' x = 0 then x = fst (?blk x) else lefts h' x \<in> insert n C \<and> rights h' (lefts h' x) = x"
      using ok [OF x] nx by (simp add: chunk_ok_def rt)
    have "span h' x \<subseteq> block (?blk x)" using spans(1) ok [OF x] nx by (auto simp: chunk_ok_def)
    then show ?thesis using l ok [OF x] nx k un unfolding True
      by (intro chunk_okI) (simp_all add: mg sz rt lf chunk_ok_def)
  next
    case False
    have wn: "w \<noteq> n" using w nC by auto
    have "rights h w = 0 \<or> rights h w \<noteq> ?z" "rights h w \<noteq> n" using ok [OF w] False z(1) nC nx by (auto simp: chunk_ok_def)
    then have r: "if rights h' w = 0 then unat w + unat (sizes h' w) = unat (fst (?blk w)) + snd (?blk w) * 4096
        else rights h' w \<in> insert n C \<and> lefts h' (rights h' w) = w \<and> unat (rights h' w) = unat w + unat (sizes h' w) \<and>
          ?blk (rights h' w) = ?blk w"
      using ok [OF w] False wn by (auto simp: chunk_ok_def rt lf sz)
    have "w = ?z \<or> lefts h w \<noteq> x" "lefts h w \<noteq> n"
      using ok [OF w] nC nx tiling_bounds(3) [OF t x] by (auto simp: chunk_ok_def split: if_splits)
    then have l: "if lefts h' w = 0 then w = fst (?blk w) else lefts h' w \<in> insert n C \<and> rights h' (lefts h' w) = w"
      using ok [OF w] w nz nx wn zn z(1) by (auto simp: chunk_ok_def rt lf)
    show ?thesis using r l ok [OF w] False wn spans(3) [of w]
      by (intro chunk_okI) (simp_all add: mg sz chunk_ok_def)
  qed
  have "chunk_ok h' (insert n C) ?blk n"
  proof (rule chunk_okI)
    show "span h' n \<subseteq> block (?blk n)" using spans(1) ok [OF x] by (auto simp: chunk_ok_def)
  qed (use z zn zx nx us un k x nz in \<open>auto simp: mg sz rt lf\<close>)
  moreover have dj: "span h' u \<inter> span h' v = {}" if "u \<in> C" "v \<in> insert n C" "u \<noteq> v" for u v
  proof -
    have "span h' v \<subseteq> span h (if v = n then x else v)" "span h' u \<subseteq> span h u" "u \<noteq> n"
      using spans(1) spans(3) [of v] spans(3) [of u] that(1) nC by (cases "v = n"; cases "v = x"; cases "u = x"; auto)+
    moreover have "span h u \<inter> span h (if v = n then x else v) = {}" if "\<not> (v = n \<and> u = x)"
      using that disj [of u "if v = n then x else v"] \<open>u \<in> C\<close> \<open>v \<in> insert n C\<close> \<open>u \<noteq> v\<close> x by (auto split: if_splits)
    ultimately show ?thesis using spans(2) by (cases "v = n \<and> u = x") blast+
  qed
  ultimately have "tiling h' (insert n C) ?blk B"
    using t old x nx nC unfolding tiling_def by (auto dest: dj simp: Int_commute)
  then show ?thesis using nC nx by blast
qed

lemma tiling_grow:
  assumes t: "tiling h C blk B" and B: "blocks_ok (insert (x, n) B)" "(x, n) \<notin> B" and x: "x \<noteq> 0"
    and sz: "\<And>a. sizes h' a = (if a = x then of_nat (n * 4096) else sizes h a)"
    and rt: "\<And>a. rights h' a = (if a = x then 0 else rights h a)"
    and lf: "\<And>a. lefts h' a = (if a = x then 0 else lefts h a)"
    and mg: "\<And>a. magic (tags h' a) = (if a = x then LIBALLOC_MAGIC else magic (tags h a))"
  shows "x \<notin> C \<and> tiling h' (insert x C) (blk(x := (x, n))) (insert (x, n) B)"
proof -
  have ok: "\<And>w. w \<in> C \<Longrightarrow> chunk_ok h C blk w" and blk: "\<And>w. w \<in> C \<Longrightarrow> blk w \<in> B" using t by (auto simp: tiling_def)
  have b: "16 \<le> n" "unat x + n * 4096 \<le> 0x40000000" using B(1) by (auto simp: blocks_ok_def)
  then have un: "unat (of_nat (n * 4096) :: u32) = n * 4096" by (intro unat_of_nat32) simp
  have far: "span h w \<inter> block (x, n) = {}" if "w \<in> C" for w
  proof -
    have "blk w \<noteq> (x, n)" using blk [OF that] B(2) by auto
    then have "block (blk w) \<inter> block (x, n) = {}" using B(1) blk [OF that] unfolding blocks_ok_def by blast
    then show ?thesis using ok [OF that] by (auto simp: chunk_ok_def)
  qed
  have inw: "unat w \<in> span h w" if "w \<in> C" for w using ok [OF that] by (simp add: chunk_ok_def span_def)
  have xb: "unat x \<in> block (x, n)" using b by (simp add: block_def)
  then have xC: "x \<notin> C" using far inw by blast
  have sx: "span h' x = block (x, n)" "\<And>w. w \<in> C \<Longrightarrow> span h' w = span h w" using un xC by (auto simp: span_def block_def sz)
  have "chunk_ok h' (insert x C) (blk(x := (x, n))) w" if "w \<in> C" for w
  proof -
    have w: "w \<noteq> x" "rights h w \<noteq> x" "lefts h w \<noteq> x" using ok [OF that] xC x that by (auto simp: chunk_ok_def split: if_splits)
    then show ?thesis using ok [OF that] sx(2) [OF that] unfolding chunk_ok_def by (simp add: sz rt lf mg)
  qed
  moreover have "chunk_ok h' (insert x C) (blk(x := (x, n))) x"
    using sx(1) b un by (intro chunk_okI) (simp_all add: sz rt lf mg)
  moreover have "span h' u \<inter> span h' v = {}" if "u \<in> insert x C" "v \<in> insert x C" "u \<noteq> v" for u v
    using that sx far [of u] far [of v] t by (cases "u = x"; cases "v = x") (auto simp: tiling_def)
  ultimately show ?thesis using t B(1) x xC unfolding tiling_def by auto
qed

lemma tiling_shrink:
  assumes t: "tiling h C blk B" and x: "x \<in> C" and alone: "lefts h x = 0" "rights h x = 0"
  shows "blk x \<in> B \<and> fst (blk x) = x \<and> unat (sizes h x) = snd (blk x) * 4096 \<and> tiling h (C - {x}) blk (B - {blk x})"
proof -
  have ok: "\<And>w. w \<in> C \<Longrightarrow> chunk_ok h C blk w" and disj: "\<And>u v. u \<in> C \<Longrightarrow> v \<in> C \<Longrightarrow> u \<noteq> v \<Longrightarrow> span h u \<inter> span h v = {}"
    using t by (auto simp: tiling_def)
  have b: "fst (blk x) = x" "unat (sizes h x) = snd (blk x) * 4096" using ok [OF x] alone by (auto simp: chunk_ok_def)
  then have sx: "span h x = block (blk x)" by (simp add: span_def block_def)
  have other: "blk w \<noteq> blk x" if w: "w \<in> C - {x}" for w
  proof
    assume "blk w = blk x"
    then have "span h w \<subseteq> span h x" using ok [of w] w sx by (simp add: chunk_ok_def)
    moreover have "unat w \<in> span h w" using ok [of w] w by (simp add: chunk_ok_def span_def)
    ultimately show False using disj [of w x] w x by blast
  qed
  have "chunk_ok h (C - {x}) blk w" if w: "w \<in> C - {x}" for w
  proof -
    have "rights h w \<noteq> x" "lefts h w \<noteq> x" 
      using ok [of w] w alone tiling_bounds(3) [OF t x] tiling_bounds(3) [OF t, of w] by (auto simp: chunk_ok_def split: if_splits)
    then show ?thesis using ok [of w] w unfolding chunk_ok_def by simp
  qed
  moreover have "blocks_ok (B - {blk x})" using t by (simp add: tiling_def blocks_ok_def)
  moreover have "blk ` (C - {x}) \<subseteq> B - {blk x}" using t other by (fastforce simp: tiling_def)
  ultimately show ?thesis using t x b unfolding tiling_def by (simp add: image_subset_iff)
qed

end
