(* ===== verification/Heap.thy ===== *)
theory Heap
  imports Heap_Tiling Kernel_Space
begin

text \<open>
  The kernel heap on top of the memory manager: its invariant, that \<open>kmalloc\<close> and \<open>kfree\<close> keep it
  and always return, the contract of an allocator as a locale, and that the heap meets it.
\<close>

section \<open>The invariant of the heap\<close>

definition complete_chunks :: "kheap \<Rightarrow> addr set \<Rightarrow> int \<Rightarrow> addr set" where
  "complete_chunks h C i = {x \<in> C. classes h x = i \<and> lefts h x = 0 \<and> rights h x = 0}"

text \<open>
  The chunks tile the blocks; the free ones hang in the lists; a chunk in use, unless it is in
  \<open>X\<close>, holds what was asked for; no two free chunks are neighbours; and the counters count the
  whole blocks that stand by, of which no class has more than \<open>MAXCOMPLETE\<close>.
\<close>

definition heap_ok :: "addr set \<Rightarrow> kheap \<Rightarrow> addr set \<Rightarrow> (addr \<Rightarrow> addr \<times> nat) \<Rightarrow> (addr \<times> nat) set \<Rightarrow> bool" where
  "heap_ok X h C blk B \<longleftrightarrow>
     tiling h C blk B \<and> free_lists h C \<and>
     (\<forall>x \<in> C - X. classes h x = - 1 \<longrightarrow> unat (tag_size (tags h x)) + 32 \<le> unat (sizes h x)) \<and>
     (\<forall>x \<in> C. rights h x \<noteq> 0 \<longrightarrow> classes h x = - 1 \<or> classes h (rights h x) = - 1) \<and>
     (\<forall>i. in_bins i \<longrightarrow> l_completePages h i = int (card (complete_chunks h C i)) \<and> card (complete_chunks h C i) \<le> 5)"

lemma heap_okI:
  assumes "tiling h C blk B" and "free_lists h C"
    and "\<And>x. x \<in> C \<Longrightarrow> x \<notin> X \<Longrightarrow> classes h x = - 1 \<Longrightarrow> unat (tag_size (tags h x)) + 32 \<le> unat (sizes h x)"
    and "\<And>x. x \<in> C \<Longrightarrow> rights h x \<noteq> 0 \<Longrightarrow> classes h x = - 1 \<or> classes h (rights h x) = - 1"
    and "\<And>i. in_bins i \<Longrightarrow> l_completePages h i = int (card (complete_chunks h C i)) \<and> card (complete_chunks h C i) \<le> 5"
  shows "heap_ok X h C blk B"
  using assms unfolding heap_ok_def by blast

lemma heap_okD:
  assumes "heap_ok X h C blk B"
  shows "tiling h C blk B" and "free_lists h C"
    and "x \<in> C \<Longrightarrow> x \<notin> X \<Longrightarrow> classes h x = - 1 \<Longrightarrow> unat (tag_size (tags h x)) + 32 \<le> unat (sizes h x)"
    and "x \<in> C \<Longrightarrow> rights h x \<noteq> 0 \<Longrightarrow> classes h x = - 1 \<or> classes h (rights h x) = - 1"
    and "in_bins i \<Longrightarrow> l_completePages h i = int (card (complete_chunks h C i))"
    and "in_bins i \<Longrightarrow> card (complete_chunks h C i) \<le> 5"
  using assms unfolding heap_ok_def by blast+

lemma heap_ok_neighbours:
  assumes "heap_ok X h C blk B" and "x \<in> C"
  shows "rights h x \<noteq> 0 \<Longrightarrow> rights h x \<in> C \<and> lefts h (rights h x) = x \<and> unat x < unat (rights h x)"
    and "lefts h x \<noteq> 0 \<Longrightarrow> lefts h x \<in> C \<and> rights h (lefts h x) = x \<and> unat (lefts h x) < unat x"
    and "in_bins (classes h x) \<or> classes h x = - 1"
proof -
  have ok: "\<And>w. w \<in> C \<Longrightarrow> chunk_ok h C blk w" using heap_okD(1) [OF assms(1)] by (simp add: tiling_def)
  have r: "rights h w \<in> C \<and> lefts h (rights h w) = w \<and> unat w < unat (rights h w)" if "w \<in> C" "rights h w \<noteq> 0" for w
  proof -
    have "unat (rights h w) = unat w + unat (sizes h w)" "32 \<le> unat (sizes h w)"
      using ok [OF that(1)] that(2) by (auto simp: chunk_ok_def)
    then have "unat w < unat (rights h w)" by simp
    then show ?thesis using ok [OF that(1)] that(2) by (simp add: chunk_ok_def)
  qed
  show "rights h x \<noteq> 0 \<Longrightarrow> rights h x \<in> C \<and> lefts h (rights h x) = x \<and> unat x < unat (rights h x)" using r [OF assms(2)] by simp
  show "lefts h x \<in> C \<and> rights h (lefts h x) = x \<and> unat (lefts h x) < unat x" if "lefts h x \<noteq> 0"
  proof -
    have l: "lefts h x \<in> C" "rights h (lefts h x) = x" using ok [OF assms(2)] that by (auto simp: chunk_ok_def)
    moreover have "x \<noteq> 0" using tiling_bounds(3) heap_okD(1) [OF assms(1)] assms(2) by blast
    ultimately show ?thesis using r [OF l(1)] by auto
  qed
  show "in_bins (classes h x) \<or> classes h x = - 1"
    using heap_okD(2) [OF assms(1)] assms(2) unfolding free_lists_def by blast
qed

section \<open>Merging\<close>

definition joined :: "kheap \<Rightarrow> addr \<Rightarrow> addr \<Rightarrow> kheap \<Rightarrow> bool" where
  "joined h x y h' \<longleftrightarrow>
     (\<forall>a. sizes h' a = (if a = x then sizes h x + sizes h y else sizes h a) \<and>
        rights h' a = (if a = x then rights h y else rights h a) \<and>
        lefts h' a = (if a = rights h y \<and> a \<noteq> 0 then x else lefts h a) \<and>
        magic (tags h' a) = magic (tags h a) \<and> tag_size (tags h' a) = tag_size (tags h a)) \<and>
     l_completePages h' = l_completePages h \<and> l_initialized h' = l_initialized h \<and> hmachine h' = hmachine h \<and> hsched h' = hsched h"

definition same_links :: "kheap \<Rightarrow> kheap \<Rightarrow> bool" where
  "same_links h h' \<longleftrightarrow> (\<forall>a. nexts h' a = nexts h a \<and> prevs h' a = prevs h a \<and> classes h' a = classes h a) \<and>
     l_freePages h' = l_freePages h"

lemma free_lists_same_links: "same_links h h' \<Longrightarrow> free_lists h' C = free_lists h C"
  by (simp add: free_lists_def same_links_def)

lemma free_lists_drop_used:
  assumes "free_lists h C" and "classes h y = - 1"
  shows "free_lists h (C - {y})"
proof -
  have "{x \<in> C - {y}. classes h x = i} = {x \<in> C. classes h x = i}" if "in_bins i" for i
    using that assms(2) by (auto simp: in_bins_def)
  then show ?thesis using assms(1) unfolding free_lists_def by simp
qed

lemma melt_left_joined:
  assumes "lefts h x = l" and "rights h l = x" and "l \<noteq> x" and "rights h x \<noteq> x" and "rights h x = 0 \<or> rights h x \<noteq> l"
  shows "\<exists>h'. melt_left x h = (l, h') \<and> joined h l x h' \<and> same_links h h'"
proof -
  define h1 where "h1 = upd_tag l (\<lambda>t. t\<lparr>real_size := real_size t + sizes h x\<rparr>) h"
  define h2 where "h2 = upd_tag l (\<lambda>t. t\<lparr>split_right := rights h1 x\<rparr>) h1"
  define h3 where "h3 = (if rights h2 x \<noteq> 0 then upd_tag (rights h2 x) (\<lambda>t. t\<lparr>split_left := l\<rparr>) h2 else h2)"
  have "melt_left x h = (l, h3)"
    by (simp only: melt_left_def Let_def h1_def h2_def h3_def assms(1))
  moreover have "rights h1 x = rights h x" by (simp add: h1_def)
  then have "rights h2 x = rights h x" using assms(3) by (simp add: h2_def)
  then have "joined h l x h3" "same_links h h3"
    using assms by (auto simp: joined_def same_links_def h3_def h2_def h1_def)
  ultimately show ?thesis by blast
qed

lemma absorb_right_joined:
  assumes "rights h x = r" and "r \<noteq> x" and "remove_tag r h = Some h1" and "same_chunks h h1" and "rights h r \<noteq> x \<or> rights h r = 0"
  shows "\<exists>h'. absorb_right x h = Some (x, h') \<and> joined h x r h' \<and> same_links h1 h'"
proof -
  define h2 where "h2 = upd_tag x (\<lambda>t. t\<lparr>real_size := real_size t + sizes h1 r\<rparr>) h1"
  define h3 where "h3 = upd_tag x (\<lambda>t. t\<lparr>split_right := rights h2 r\<rparr>) h2"
  define h4 where "h4 = (if rights h3 r \<noteq> 0 then upd_tag (rights h3 r) (\<lambda>t. t\<lparr>split_left := x\<rparr>) h3 else h3)"
  have "absorb_right x h = Some (x, h4)"
    using assms(1,3) by (simp add: absorb_right_def Let_def h2_def h3_def h4_def)
  moreover have "rights h2 r = rights h r" using assms(4) by (simp add: h2_def same_chunks_def)
  then have "rights h3 r = rights h r" using assms(2) by (simp add: h3_def)
  then have "joined h x r h4" "same_links h1 h4"
    using assms(2,4) by (auto simp: joined_def same_links_def same_chunks_def h4_def h3_def h2_def)
  ultimately show ?thesis by blast
qed

definition live :: "kheap \<Rightarrow> addr set \<Rightarrow> addr \<rightharpoonup> u32" where
  "live h C = (\<lambda>x. if x \<in> C \<and> classes h x = - 1 then Some (tag_size (tags h x)) else None)"

definition same_rest :: "kheap \<Rightarrow> kheap \<Rightarrow> bool" where
  "same_rest h h' \<longleftrightarrow> l_initialized h' = l_initialized h \<and> hmachine h' = hmachine h \<and> hsched h' = hsched h"

text \<open>
  The chunk \<open>t\<close> that is being freed and a free neighbour \<open>k\<close> of it have become the chunk \<open>x\<close>, the
  left one of the two.
\<close>

lemma merge_heap_ok:
  assumes ok: "heap_ok {t} h C blk B" and x: "x \<in> C" and y: "rights h x = y" "y \<noteq> 0"
    and t: "t = x \<and> k = y \<or> t = y \<and> k = x" and used: "classes h t = - 1" and free: "classes h k \<noteq> - 1"
    and j: "joined h x y h'" and fl: "free_lists h' (C - {y})"
    and cls: "\<And>a. classes h' a = (if a = k then - 1 else classes h a)"
  shows "heap_ok {x} h' (C - {y}) blk B \<and> (live h' (C - {y}))(x := None) = (live h C)(t := None) \<and> same_rest h h'"
proof -
  have nb: "y \<in> C" "lefts h y = x" "y \<noteq> x" using heap_ok_neighbours(1) [OF ok x] y by auto
  have J: "\<And>a. sizes h' a = (if a = x then sizes h x + sizes h y else sizes h a)"
    "\<And>a. rights h' a = (if a = x then rights h y else rights h a)"
    "\<And>a. lefts h' a = (if a = rights h y \<and> a \<noteq> 0 then x else lefts h a)"
    "\<And>a. magic (tags h' a) = magic (tags h a)" "\<And>a. tag_size (tags h' a) = tag_size (tags h a)"
    "l_completePages h' = l_completePages h" "same_rest h h'"
    using j by (simp_all add: joined_def same_rest_def)
  have x0: "x \<noteq> 0" using tiling_bounds(3) [OF heap_okD(1) [OF ok] x] .
  have clsx: "classes h' x = - 1" "\<And>a. a \<noteq> x \<Longrightarrow> a \<noteq> y \<Longrightarrow> classes h' a = classes h a"
    using t used by (auto simp: cls)
  have "heap_ok {x} h' (C - {y}) blk B"
  proof (rule heap_okI)
    show "tiling h' (C - {y}) blk B" by (rule tiling_merge [OF heap_okD(1) [OF ok] x y J(1-4)])
    show "free_lists h' (C - {y})" by (rule fl)
    show "unat (tag_size (tags h' w)) + 32 \<le> unat (sizes h' w)" if "w \<in> C - {y}" "w \<notin> {x}" "classes h' w = - 1" for w
      using heap_okD(3) [OF ok, of w] that clsx(2) [of w] t by (auto simp: J(1,5))
    show "classes h' w = - 1 \<or> classes h' (rights h' w) = - 1" if w: "w \<in> C - {y}" "rights h' w \<noteq> 0" for w
    proof (cases "w = x \<or> rights h' w = x")
      case False
      then have r: "rights h' w = rights h w" using J(2) by simp
      then have "rights h w \<noteq> y" using heap_ok_neighbours(1) [OF ok, of w] w nb(2) False by auto
      then show ?thesis using heap_okD(4) [OF ok, of w] w r False clsx(2) [of w] clsx(2) [of "rights h w"] by auto
    qed (use clsx(1) in auto)
    show "l_completePages h' i = int (card (complete_chunks h' (C - {y}) i)) \<and> card (complete_chunks h' (C - {y}) i) \<le> 5"
      if i: "in_bins i" for i
    proof -
      have "w \<in> complete_chunks h' (C - {y}) i \<longleftrightarrow> w \<in> complete_chunks h C i" for w
      proof (cases "w = x \<or> w = y")
        case True
        then show ?thesis using i clsx(1) y nb(2) x0 by (auto simp: complete_chunks_def in_bins_def)
      next
        case False
        moreover have "w = rights h y \<Longrightarrow> w \<noteq> 0 \<Longrightarrow> lefts h w \<noteq> 0"
          using heap_ok_neighbours(1) [OF ok nb(1)] y(2) by auto
        ultimately show ?thesis using x0 clsx(2) [of w] by (auto simp: complete_chunks_def J(2,3))
      qed
      then have "complete_chunks h' (C - {y}) i = complete_chunks h C i" by blast
      then show ?thesis using heap_okD(5,6) [OF ok i] J(6) by simp
    qed
  qed
  moreover have "(live h' (C - {y}))(x := None) = (live h C)(t := None)"
  proof
    fix a
    show "((live h' (C - {y}))(x := None)) a = ((live h C)(t := None)) a"
    proof (cases "a = x \<or> a = y")
      case True
      then show ?thesis using t nb(3) free by (auto simp: live_def)
    next
      case False
      then show ?thesis using clsx(2) [of a] t by (auto simp: live_def J(5))
    qed
  qed
  ultimately show ?thesis using J(7) by blast
qed


lemma melt_left_step:
  assumes ok: "heap_ok {x} h C blk B" and x: "x \<in> C" "classes h x = - 1" and l: "lefts h x = l" "l \<noteq> 0" "classes h l \<noteq> - 1"
  shows "\<exists>h1 h'. melt_left x h = (l, h1) \<and> remove_tag l h1 = Some h' \<and> l \<in> C - {x} \<and> classes h' l = - 1 \<and>
    heap_ok {l} h' (C - {x}) blk B \<and> (live h' (C - {x}))(l := None) = (live h C)(x := None) \<and> same_rest h h' \<and>
    (lefts h' l \<noteq> 0 \<longrightarrow> classes h' (lefts h' l) = - 1)"
proof -
  have nb: "l \<in> C" "rights h l = x" "unat l < unat x" using heap_ok_neighbours(2) [OF ok x(1)] l by auto
  have x0: "x \<noteq> 0" using tiling_bounds(3) [OF heap_okD(1) [OF ok] x(1)] .
  have lx: "l \<noteq> x" using nb(3) by auto
  have "rights h x = 0 \<or> unat x < unat (rights h x)" using heap_ok_neighbours(1) [OF ok x(1)] by auto
  then have r: "rights h x \<noteq> x" "rights h x = 0 \<or> rights h x \<noteq> l" using nb(3) x0 by auto
  obtain h1 where h1: "melt_left x h = (l, h1)" "joined h l x h1" "same_links h h1"
    using melt_left_joined [OF l(1) nb(2) lx r] by blast
  have "free_lists h1 (C - {x})"
    using free_lists_drop_used [OF heap_okD(2) [OF ok] x(2)] free_lists_same_links [OF h1(3)] by simp
  moreover have c1: "\<And>a. classes h1 a = classes h a" using h1(3) by (simp add: same_links_def)
  moreover have "in_bins (classes h1 l)" using heap_ok_neighbours(3) [OF ok nb(1)] l(3) c1 by simp
  ultimately obtain h' where h': "remove_tag l h1 = Some h'" "same_chunks h1 h'" "free_lists h' (C - {x})"
      "classes h' = (classes h1)(l := - 1)"
    using remove_tag_free_lists [of h1 "C - {x}" l] nb(1) lx by auto
  have j: "joined h l x h'" using h1(2) h'(2) by (simp add: joined_def same_chunks_def)
  have cls: "classes h' a = (if a = l then - 1 else classes h a)" for a using fun_cong [OF h'(4), of a] c1 by simp
  have "heap_ok {l} h' (C - {x}) blk B \<and> (live h' (C - {x}))(l := None) = (live h C)(x := None) \<and> same_rest h h'"
    using merge_heap_ok [OF ok nb(1,2) x0 _ x(2) l(3) j h'(3) cls] by simp
  moreover have "lefts h' l \<noteq> 0 \<longrightarrow> classes h' (lefts h' l) = - 1"
  proof
    assume a: "lefts h' l \<noteq> 0"
    have "lefts h' l = lefts h l" using j r(2) l(2) by (auto simp: joined_def)
    then show "classes h' (lefts h' l) = - 1"
      using heap_ok_neighbours(2) [OF ok nb(1)] heap_okD(4) [OF ok, of "lefts h l"] l(2,3) a cls by auto
  qed
  ultimately show ?thesis using h1(1) h'(1) nb(1) lx cls [of l] by auto
qed

lemma absorb_right_step:
  assumes ok: "heap_ok {x} h C blk B" and x: "x \<in> C" "classes h x = - 1" and r: "rights h x = r" "r \<noteq> 0" "classes h r \<noteq> - 1"
  shows "\<exists>h'. absorb_right x h = Some (x, h') \<and> x \<in> C - {r} \<and> classes h' x = - 1 \<and>
    heap_ok {x} h' (C - {r}) blk B \<and> (live h' (C - {r}))(x := None) = (live h C)(x := None) \<and> same_rest h h' \<and>
    (rights h' x \<noteq> 0 \<longrightarrow> classes h' (rights h' x) = - 1) \<and> lefts h' x = lefts h x \<and>
    (\<forall>a. a \<noteq> r \<longrightarrow> classes h' a = classes h a)"
proof -
  have nb: "r \<in> C" "lefts h r = x" "unat x < unat r" using heap_ok_neighbours(1) [OF ok x(1)] r by auto
  have rx: "r \<noteq> x" using nb(3) by auto
  have "rights h r = 0 \<or> unat r < unat (rights h r)" using heap_ok_neighbours(1) [OF ok nb(1)] by auto
  then have rr: "rights h r \<noteq> x \<or> rights h r = 0" "rights h r \<noteq> r" using nb(3) r(2) by auto
  have "in_bins (classes h r)" using heap_ok_neighbours(3) [OF ok nb(1)] r(3) by simp
  then obtain h1 where h1: "remove_tag r h = Some h1" "same_chunks h h1" "free_lists h1 C" "classes h1 = (classes h)(r := - 1)"
    using remove_tag_free_lists [OF heap_okD(2) [OF ok] nb(1)] by blast
  obtain h' where h': "absorb_right x h = Some (x, h')" "joined h x r h'" "same_links h1 h'"
    using absorb_right_joined [OF r(1) rx h1(1,2) rr(1)] by blast
  have cls: "classes h' a = (if a = r then - 1 else classes h a)" for a
    using fun_cong [OF h1(4), of a] h'(3) by (simp add: same_links_def)
  have "classes h1 r = - 1" using fun_cong [OF h1(4), of r] by simp
  then have fl: "free_lists h' (C - {r})"
    using free_lists_drop_used [OF h1(3)] free_lists_same_links [OF h'(3)] by simp
  have "heap_ok {x} h' (C - {r}) blk B \<and> (live h' (C - {r}))(x := None) = (live h C)(x := None) \<and> same_rest h h'"
    using merge_heap_ok [OF ok x(1) r(1,2) _ x(2) r(3) h'(2) fl cls] by simp
  moreover have "rights h' x = rights h r" "lefts h' x = lefts h x"
    using h'(2) rr(1) tiling_bounds(3) [OF heap_okD(1) [OF ok] x(1)] by (auto simp: joined_def)
  moreover have "rights h r \<noteq> 0 \<longrightarrow> classes h' (rights h r) = - 1"
    using heap_okD(4) [OF ok nb(1)] r(3) cls by auto
  ultimately show ?thesis using h'(1) x rx cls by auto
qed

section \<open>Blocks of pages\<close>

text \<open>
  A block the heap got from the memory manager: page aligned, its pages mapped to a run of frames,
  apart from the page tables and the kernel's directory.
\<close>

definition owns :: "layout \<Rightarrow> machine \<Rightarrow> addr \<times> nat \<Rightarrow> bool" where
  "owns L s bn \<longleftrightarrow>
     (let pd = kernelPageDirectory L; q = unat (fst bn) div 4096; n = snd bn
      in unat (fst bn) mod 4096 = 0 \<and> q + n \<le> 262144 \<and>
         {q ..< q + n} \<inter> insert (unat pd div 4096) (reserved_pages L) = {} \<and>
         (\<exists>f. f + n \<le> 1048568 \<and>
            (\<forall>k < n. entry_present (kentry L s (q + k)) \<and> entry_frame (kentry L s (q + k)) = of_nat (f + k)) \<and>
            {f ..< f + n} \<inter> insert 0 (insert (unat (cr3_reg s) div 4096)
               (insert (unat (kentry L s (unat pd div 4096)) div 4096) (table_pages L))) = {}))"

definition block_pages :: "addr \<times> nat \<Rightarrow> nat set" where
  "block_pages bn = {unat (fst bn) div 4096 ..< unat (fst bn) div 4096 + snd bn}"

text \<open>
  What the heap keeps of the memory manager. The pages \<open>Z\<close> are any that were mapped before and are
  not the heap's: they stay mapped and the heap never gets or frees them.
\<close>

definition pages_ok :: "layout \<Rightarrow> nat set \<Rightarrow> machine \<Rightarrow> (addr \<times> nat) set \<Rightarrow> bool" where
  "pages_ok L Z s B \<longleftrightarrow> mm_inv L (kernelPageDirectory L) s \<and> blocks_ok B \<and> (\<forall>bn \<in> B. owns L s bn) \<and>
     (\<forall>p \<in> Z. p < 262144 \<and> entry_present (kentry L s p)) \<and> (\<forall>bn \<in> B. block_pages bn \<inter> Z = {})"

lemma owns_cong:
  assumes "cr3_reg s' = cr3_reg s" and "\<And>r. r \<in> insert (unat (kernelPageDirectory L) div 4096) {unat (fst bn) div 4096 ..< unat (fst bn) div 4096 + snd bn} \<Longrightarrow> kentry L s' r = kentry L s r"
  shows "owns L s' bn = owns L s bn"
  using assms unfolding owns_def Let_def by (simp add: Ball_def)

lemma num_pages_multiple:
  assumes "n * 4096 \<le> 0x40000000"
  shows "num_pages (of_nat n * 4096) = of_nat n" and "unat (of_nat n * 4096 :: u32) = n * 4096"
proof -
  have u: "unat (of_nat n :: u32) = n" using assms by (intro unat_of_nat32) simp
  then show v: "unat (of_nat n * 4096 :: u32) = n * 4096" using assms by (simp add: unat_word_ariths)
  have "unat (of_nat n * 4096 mod 4096 :: u32) = 0" "unat (of_nat n * 4096 div 4096 :: u32) = n"
    using v by (simp_all add: unat_div unat_mod)
  then show "num_pages (of_nat n * 4096) = of_nat n"
    unfolding num_pages_def using u by (metis unat_eq_zero word_unat_eq_iff)
qed

lemma mm_inv_directory_page:
  assumes "mm_inv L pd s"
  shows "unat pd div 4096 < 262144" and "entry_present (kentry L s (unat pd div 4096))"
proof -
  have "unat pd < 0x40000000" using assms by (simp add: mm_inv_def pd_ok_def)
  then show "unat pd div 4096 < 262144" by simp
  show "entry_present (kentry L s (unat pd div 4096))" using assms by (simp add: mm_inv_def pd_ok_def)
qed

lemma blocks_ok_insert:
  assumes "blocks_ok B" and "fst bn \<noteq> 0" and "16 \<le> snd bn" and "unat (fst bn) + snd bn * 4096 \<le> 0x40000000"
    and "\<And>cm. cm \<in> B \<Longrightarrow> block bn \<inter> block cm = {}"
  shows "blocks_ok (insert bn B)" and "bn \<notin> B"
proof -
  show "blocks_ok (insert bn B)" using assms unfolding blocks_ok_def by blast
  have "unat (fst bn) \<in> block bn" using assms(3) by (simp add: block_def)
  then show "bn \<notin> B" using assms(5) by blast
qed

lemma owned_block_apart:
  assumes "owns L s bn" and "free_run L s n q" and "n * 4096 + q * 4096 \<le> 0x40000000"
  shows "block (of_nat q * 4096, n) \<inter> block bn = {}"
proof -
  let ?p = "unat (fst bn) div 4096"
  have pres: "\<And>r. r \<in> {?p ..< ?p + snd bn} \<Longrightarrow> entry_present (kentry L s r)"
  proof -
    fix r assume r: "r \<in> {?p ..< ?p + snd bn}"
    have "\<forall>k < snd bn. entry_present (kentry L s (?p + k))" using assms(1) by (auto simp: owns_def Let_def)
    then show "entry_present (kentry L s r)" using r by (metis atLeastLessThan_iff le_Suc_ex add_less_cancel_left)
  qed
  have al: "unat (fst bn) = ?p * 4096" using assms(1) by (auto simp: owns_def Let_def)
  have u: "unat (of_nat q * 4096 :: u32) = q * 4096" using num_pages_multiple(2) [of q] assms(3) by simp
  have "x div 4096 \<in> {?p ..< ?p + snd bn} \<and> x div 4096 \<in> {q ..< q + n}"
    if "x \<in> block (of_nat q * 4096, n)" "x \<in> block bn" for x
  proof -
    have "q * 4096 \<le> x" "x < (q + n) * 4096" "?p * 4096 \<le> x" "x < (?p + snd bn) * 4096"
      using that u al by (simp_all add: block_def add_mult_distrib)
    then show ?thesis by (auto simp: div_less_iff_less_mult less_eq_div_iff_mult_less_eq)
  qed
  then show ?thesis using pres assms(2) unfolding free_run_def by blast
qed

lemma owns_allocated:
  assumes inv: "mm_inv L (kernelPageDirectory L) s" and al: "allocated L n q f s s'" and own: "owns L s bn"
  shows "owns L s' bn"
proof -
  let ?pd = "kernelPageDirectory L"
  have same: "kentry L s' r = kentry L s r" if "r < 262144" "entry_present (kentry L s r)" for r
    using that al by (auto simp: allocated_def first_run_def free_run_def)
  have "owns L s' bn = owns L s bn"
  proof (rule owns_cong)
    fix r assume r: "r \<in> insert (unat ?pd div 4096) {unat (fst bn) div 4096 ..< unat (fst bn) div 4096 + snd bn}"
    show "kentry L s' r = kentry L s r"
    proof (cases "r = unat ?pd div 4096")
      case False
      then obtain k where k: "r = unat (fst bn) div 4096 + k" "k < snd bn"
        using r by (metis insertE atLeastLessThan_iff le_Suc_ex add_less_cancel_left)
      then show ?thesis using own by (intro same) (auto simp: owns_def Let_def)
    qed (use same mm_inv_directory_page [OF inv] in simp)
  qed (use al in \<open>simp add: allocated_def\<close>)
  then show ?thesis using own by simp
qed

lemma page_source_alloc:
  assumes ok: "pages_ok L Z s B" and n: "16 \<le> n" "n * 4096 \<le> 0x40000000"
    and T: "unat (TotalMemory (memManData s) div PAGE_SIZE) + n \<le> 1048568"
  shows "\<exists>a s'. memoryAllocate (kernelPageDirectory L) (of_nat n * 4096) False s = Some (a, s') \<and>
    TotalMemory (memManData s') = TotalMemory (memManData s) \<and>
    (a = 0 \<and> pages_ok L Z s' B \<or> a \<noteq> 0 \<and> (a, n) \<notin> B \<and> pages_ok L Z s' (insert (a, n) B))"
proof -
  let ?pd = "kernelPageDirectory L" and ?sz = "of_nat n * 4096 :: u32"
  have inv: "mm_inv L ?pd s" and B: "blocks_ok B" and own: "\<And>bn. bn \<in> B \<Longrightarrow> owns L s bn"
    using ok by (auto simp: pages_ok_def)
  have np: "num_pages ?sz = of_nat n" "unat ?sz = n * 4096" by (rule num_pages_multiple [OF n(2)])+
  have un: "unat (of_nat n :: u32) = n" using n(2) by (intro unat_of_nat32) simp
  have sz: "0 < ?sz" "?sz \<le> 0x40000000" using np(2) n by (simp_all add: word_less_nat_alt word_le_nat_alt)
  have T': "unat (TotalMemory (memManData s) div PAGE_SIZE) + unat (num_pages ?sz) \<le> 1048568" using T np(1) un by simp
  have still: "pages_ok L Z (s\<lparr>interrupts := b\<rparr>) B" for b
    using ok regs_irrelevant [of "s\<lparr>interrupts := b\<rparr>" s] by (simp add: pages_ok_def mm_inv_def owns_def Let_def)
  have Z: "p < 262144" "entry_present (kentry L s p)" if "p \<in> Z" for p using ok that by (auto simp: pages_ok_def)
  from memoryAllocate_kernel [OF inv sz T'] show ?thesis
  proof (elim disjE exE conjE)
    fix q f s'
    assume s': "memoryAllocate ?pd ?sz False s = Some (of_nat q * 4096, s')"
      "allocated L (unat (num_pages ?sz)) q f s s'" "mm_inv L ?pd s'"
    have al: "allocated L n q f s s'" using s'(2) np(1) un by simp
    have run: "256 \<le> q" "free_run L s n q" "q + n \<le> 262144" using al by (auto simp: allocated_def first_run_def free_run_def)
    have uq: "unat (of_nat q * 4096 :: u32) = q * 4096" using num_pages_multiple(2) [of q] run(3) n(1) by simp
    have nz: "of_nat q * 4096 \<noteq> (0 :: u32)" using uq run(1) by (metis mult_is_0 not_numeral_le_zero unat_0 zero_neq_numeral)
    have same: "kentry L s' r = kentry L s r" if "r < 262144" "entry_present (kentry L s r)" for r
      using that al run(2) by (auto simp: allocated_def free_run_def)
    note pdp = mm_inv_directory_page [OF inv]
    have keep: "owns L s' bn" if "bn \<in> B" for bn by (rule owns_allocated [OF inv al own [OF that]])
    have new: "owns L s' (of_nat q * 4096, n)"
    proof -
      have taken: "entry_present (kentry L s r)" if "r \<in> insert (unat ?pd div 4096) (reserved_pages L)" for r
        using that inv by (auto simp: mm_inv_def kspace_def pd_ok_def)
      then have "{q ..< q + n} \<inter> insert (unat ?pd div 4096) (reserved_pages L) = {}"
        using run(2) unfolding free_run_def by blast
      moreover have "{f ..< f + n} \<inter> insert 0 (insert (unat (cr3_reg s') div 4096)
          (insert (unat (kentry L s' (unat ?pd div 4096)) div 4096) (table_pages L))) = {}"
        using inv al same [OF pdp] unfolding mm_inv_def allocated_def by auto
      ultimately show ?thesis using al run(3) uq unfolding owns_def Let_def allocated_def
        by (auto intro!: exI [of _ f])
    qed
    have bk: "blocks_ok (insert (of_nat q * 4096, n) B)" "(of_nat q * 4096, n) \<notin> B"
      using blocks_ok_insert [OF B, of "(of_nat q * 4096, n)"] owned_block_apart [OF own run(2)] nz n uq run(3) by auto
    have "p < 262144 \<and> entry_present (kentry L s' p)" if "p \<in> Z" for p using Z [OF that] same [of p] by simp
    moreover have "block_pages (of_nat q * 4096, n) \<inter> Z = {}" using Z(2) run(2) uq by (auto simp: block_pages_def free_run_def)
    ultimately have "pages_ok L Z s' (insert (of_nat q * 4096, n) B)" using keep new s'(3) bk(1) ok by (simp add: pages_ok_def)
    then show ?thesis using s'(1) nz bk(2) al by (auto simp: allocated_def)
  qed (use still in auto)
qed

lemma page_source_free:
  assumes ok: "pages_ok L Z s B" and b: "(a, n) \<in> B"
  shows "\<exists>s'. memoryFree (kernelPageDirectory L) a (of_nat n * 4096) s = Some s' \<and>
    TotalMemory (memManData s') = TotalMemory (memManData s) \<and> pages_ok L Z s' (B - {(a, n)})"
proof -
  let ?pd = "kernelPageDirectory L" and ?q = "unat a div 4096"
  have inv: "mm_inv L ?pd s" and B: "blocks_ok B" and own: "\<And>bn. bn \<in> B \<Longrightarrow> owns L s bn"
    using ok by (auto simp: pages_ok_def)
  obtain f where o: "unat a mod 4096 = 0" "?q + n \<le> 262144" "{?q ..< ?q + n} \<inter> insert (unat ?pd div 4096) (reserved_pages L) = {}"
      "f + n \<le> 1048568" "\<forall>k < n. entry_present (kentry L s (?q + k)) \<and> entry_frame (kentry L s (?q + k)) = of_nat (f + k)"
      "{f ..< f + n} \<inter> insert 0 (insert (unat (cr3_reg s) div 4096)
         (insert (unat (kentry L s (unat ?pd div 4096)) div 4096) (table_pages L))) = {}"
    using own [OF b] unfolding owns_def Let_def by auto
  obtain s' where s': "memoryFree ?pd (of_nat ?q * 4096) (of_nat n * 4096) s = Some s'" "freed L ?q f n s s'" "mm_inv L ?pd s'"
    using memoryFree_kernel [OF inv o(2,4,5,3,6)] by blast
  have qa: "unat a = ?q * 4096" using o(1) by auto
  then have "of_nat (?q * 4096) = a" by (metis of_nat_unat ucast_id)
  then have a: "of_nat ?q * 4096 = a" by simp
  have "owns L s' cm" if cm: "cm \<in> B" "cm \<noteq> (a, n)" for cm
  proof -
    let ?p = "unat (fst cm) div 4096"
    have d: "block (a, n) \<inter> block cm = {}" using B b cm unfolding blocks_ok_def by blast
    have "kentry L s' r = kentry L s r" if r: "r \<in> insert (unat ?pd div 4096) {?p ..< ?p + snd cm}" for r
    proof -
      have al: "unat (fst cm) = ?p * 4096" "?p + snd cm \<le> 262144" using own [OF cm(1)] by (auto simp: owns_def Let_def)
      have "r \<notin> {?q ..< ?q + n}"
      proof (cases "r = unat ?pd div 4096")
        case False
        then have "r * 4096 \<in> block cm" using r al(1) by (auto simp: block_def)
        then have "r * 4096 \<notin> block (a, n)" using d by auto
        then show ?thesis using qa by (auto simp: block_def)
      qed (use o(3) in auto)
      moreover have "r < 262144" using r al(2) mm_inv_directory_page(1) [OF inv] by auto
      ultimately show ?thesis using s'(2) by (auto simp: freed_def)
    qed
    then have "owns L s' cm = owns L s cm" using s'(2) by (intro owns_cong) (auto simp: freed_def)
    then show ?thesis using own [OF cm(1)] by simp
  qed
  moreover have "blocks_ok (B - {(a, n)})" using B by (simp add: blocks_ok_def)
  moreover have "kentry L s' p = kentry L s p" if "p \<in> Z" for p
  proof -
    have "block_pages (a, n) \<inter> Z = {}" "p < 262144" using ok b that by (auto simp: pages_ok_def)
    then have "p \<notin> {?q ..< ?q + n}" "p < 262144" using that by (auto simp: block_pages_def)
    then show ?thesis using s'(2) by (auto simp: freed_def)
  qed
  ultimately show ?thesis using s' a ok by (auto simp: pages_ok_def freed_def)
qed

section \<open>kfree\<close>

lemma tiling_tags_cong: "tags h' = tags h \<Longrightarrow> tiling h' C blk B = tiling h C blk B"
  by (simp add: tiling_def chunk_ok_def span_def)

lemma melt_left_ok:
  assumes ok: "heap_ok {x} h C blk B" and x: "x \<in> C" "classes h x = - 1"
  shows "\<exists>t h' C'. melt_left_loop x h = Some (t, h') \<and> t \<in> C' \<and> classes h' t = - 1 \<and> heap_ok {t} h' C' blk B \<and>
    (live h' C')(t := None) = (live h C)(x := None) \<and> same_rest h h' \<and> (lefts h' t \<noteq> 0 \<longrightarrow> classes h' (lefts h' t) = - 1)"
proof (cases "lefts h x \<noteq> 0 \<and> classes h (lefts h x) \<noteq> - 1")
  case True
  obtain h1 h' where s: "melt_left x h = (lefts h x, h1)" "remove_tag (lefts h x) h1 = Some h'" "lefts h x \<in> C - {x}"
      "classes h' (lefts h x) = - 1" "heap_ok {lefts h x} h' (C - {x}) blk B"
      "(live h' (C - {x}))(lefts h x := None) = (live h C)(x := None)" "same_rest h h'"
      "lefts h' (lefts h x) \<noteq> 0 \<longrightarrow> classes h' (lefts h' (lefts h x)) = - 1"
    using melt_left_step [OF ok x refl conjunct1 [OF True] conjunct2 [OF True]] by (elim exE conjE) (rule that)
  have "in_bins (classes h (lefts h x))" using heap_ok_neighbours(3) [OF ok, of "lefts h x"] s(3) True by auto
  then have "melt_left_loop x h = melt_left_loop (lefts h x) h'"
    using True s(1,2) by (subst melt_left_loop.simps) (simp add: in_bins_def)
  also have "\<dots> = Some (lefts h x, h')"
    using s(8) by (subst melt_left_loop.simps) auto
  finally have run: "melt_left_loop x h = Some (lefts h x, h')" .
  show ?thesis by (intro exI conjI) (fact run, fact+)
next
  case False
  then have "melt_left_loop x h = Some (x, h)" by (subst melt_left_loop.simps) auto
  then show ?thesis using False ok x by (intro exI [of _ x] exI [of _ h] exI [of _ C]) (auto simp: same_rest_def)
qed

lemma melt_right_ok:
  assumes ok: "heap_ok {x} h C blk B" and x: "x \<in> C" "classes h x = - 1"
    and left: "lefts h x \<noteq> 0 \<longrightarrow> classes h (lefts h x) = - 1"
  shows "\<exists>h' C'. melt_right_loop x h = Some (x, h') \<and> x \<in> C' \<and> classes h' x = - 1 \<and> heap_ok {x} h' C' blk B \<and>
    (live h' C')(x := None) = (live h C)(x := None) \<and> same_rest h h' \<and>
    (lefts h' x \<noteq> 0 \<longrightarrow> classes h' (lefts h' x) = - 1) \<and> (rights h' x \<noteq> 0 \<longrightarrow> classes h' (rights h' x) = - 1)"
proof (cases "rights h x \<noteq> 0 \<and> classes h (rights h x) \<noteq> - 1")
  case True
  obtain h' where s: "absorb_right x h = Some (x, h')" "x \<in> C - {rights h x}" "classes h' x = - 1"
      "heap_ok {x} h' (C - {rights h x}) blk B" "(live h' (C - {rights h x}))(x := None) = (live h C)(x := None)" "same_rest h h'"
      "rights h' x \<noteq> 0 \<longrightarrow> classes h' (rights h' x) = - 1" "lefts h' x = lefts h x" "\<forall>a. a \<noteq> rights h x \<longrightarrow> classes h' a = classes h a"
    using absorb_right_step [OF ok x refl conjunct1 [OF True] conjunct2 [OF True]] by (elim exE conjE) (rule that)
  have nb: "rights h x \<in> C" "unat x < unat (rights h x)" using heap_ok_neighbours(1) [OF ok x(1)] True by auto
  have "in_bins (classes h (rights h x))" using heap_ok_neighbours(3) [OF ok nb(1)] True by auto
  then have "melt_right_loop x h = melt_right_loop x h'"
    using True s(1) by (subst melt_right_loop.simps) (simp add: in_bins_def)
  also have "\<dots> = Some (x, h')" using s(7) by (subst melt_right_loop.simps) auto
  finally have run: "melt_right_loop x h = Some (x, h')" .
  have "lefts h x \<noteq> 0 \<Longrightarrow> lefts h x \<noteq> rights h x"
    using heap_ok_neighbours(2) [OF ok x(1)] nb(2) by auto
  then have l: "lefts h' x \<noteq> 0 \<longrightarrow> classes h' (lefts h' x) = - 1" using left s(8,9) by auto
  show ?thesis by (intro exI conjI) (fact run, fact s(2), fact+)
next
  case False
  then have "melt_right_loop x h = Some (x, h)" by (subst melt_right_loop.simps) auto
  then show ?thesis using False ok x left by (intro exI [of _ h] exI [of _ C]) (auto simp: same_rest_def)
qed

lemma insert_heap_ok:
  assumes ok: "heap_ok {t} h C blk B" and t: "t \<in> C" "classes h t = - 1"
    and nb: "lefts h t \<noteq> 0 \<longrightarrow> classes h (lefts h t) = - 1" "rights h t \<noteq> 0 \<longrightarrow> classes h (rights h t) = - 1"
    and i: "in_bins i" "i = bin_of sz"
    and count: "if lefts h t = 0 \<and> rights h t = 0
      then l_completePages h i \<noteq> 5 \<and> h1 = h\<lparr>l_completePages := (l_completePages h)(i := l_completePages h i + 1)\<rparr>
      else h1 = h"
  shows "\<exists>h'. insert_tag t i h1 = Some h' \<and> heap_ok {} h' C blk B \<and> live h' C = (live h C)(t := None) \<and> same_rest h h'"
proof -
  have h1: "tags h1 = tags h" "l_freePages h1 = l_freePages h" "same_rest h h1"
    using count by (auto simp: same_rest_def split: if_splits)
  have fl: "free_lists h C" by (rule heap_okD(2) [OF ok])
  then have "nexts h t = 0" "prevs h t = 0" using t unfolding free_lists_def by (auto simp: in_bins_def)
  moreover have "free_lists h1 (C - {t})" using free_lists_drop_used [OF fl t(2)] h1(1,2) by (simp add: free_lists_def)
  ultimately obtain h' where h': "insert_tag t i h1 = Some h'" "same_chunks h1 h'" "free_lists h' C" "classes h' = (classes h1)(t := i)"
    using insert_tag_free_lists [of h1 C t i i] t i h1(1) tiling_bounds(3) [OF heap_okD(1) [OF ok] t(1)]
    by (auto simp: in_bins_def)
  have cls: "classes h' a = (if a = t then i else classes h a)" for a using fun_cong [OF h'(4), of a] h1(1) by simp
  have S: "\<And>a. sizes h' a = sizes h a" "\<And>a. rights h' a = rights h a" "\<And>a. lefts h' a = lefts h a"
      "\<And>a. tag_size (tags h' a) = tag_size (tags h a)" "l_completePages h' = l_completePages h1" "same_rest h h'"
    using h'(2) h1(1,3) by (auto simp: same_chunks_def same_rest_def)
  have T: "tiling h C blk B" by (rule heap_okD(1) [OF ok])
  have "heap_ok {} h' C blk B"
  proof (rule heap_okI)
    have "tiling h1 C blk B" using T tiling_tags_cong [OF h1(1)] by simp
    then show "tiling h' C blk B" using tiling_same_chunks [OF h'(2)] by simp
    show "free_lists h' C" by (rule h'(3))
    show "unat (tag_size (tags h' w)) + 32 \<le> unat (sizes h' w)" if "w \<in> C" "classes h' w = - 1" for w
      using heap_okD(3) [OF ok, of w] that i(1) by (auto simp: S cls in_bins_def split: if_splits)
    show "classes h' w = - 1 \<or> classes h' (rights h' w) = - 1" if "w \<in> C" "rights h' w \<noteq> 0" for w
      using heap_okD(4) [OF ok, of w] heap_ok_neighbours(1) [OF ok, of w] tiling_bounds(3) [OF T that(1)] that nb by (auto simp: S cls)
    show "l_completePages h' j = int (card (complete_chunks h' C j)) \<and> card (complete_chunks h' C j) \<le> 5" if j: "in_bins j" for j
    proof -
      have fin: "finite (complete_chunks h C j)" using T by (simp add: complete_chunks_def tiling_def)
      have out: "t \<notin> complete_chunks h C j" using t(2) j by (auto simp: complete_chunks_def in_bins_def)
      have "complete_chunks h' C j = (if j = i \<and> lefts h t = 0 \<and> rights h t = 0
          then insert t (complete_chunks h C j) else complete_chunks h C j)"
        using t j by (auto simp: complete_chunks_def S cls in_bins_def)
      then show ?thesis using heap_okD(5,6) [OF ok j] count fin out S(5) by (auto split: if_splits)
    qed
  qed
  moreover have "live h' C = (live h C)(t := None)"
    using i(1) by (auto simp: live_def cls S fun_eq_iff in_bins_def)
  ultimately show ?thesis using h'(1) S(6) by blast
qed

lemma drop_heap_ok:
  assumes ok: "heap_ok {t} h C blk B" and t: "t \<in> C" "classes h t = - 1" "lefts h t = 0" "rights h t = 0"
    and h': "tags h' = tags h" "l_freePages h' = l_freePages h" "l_completePages h' = l_completePages h"
  shows "blk t \<in> B \<and> fst (blk t) = t \<and> unat (sizes h t) = snd (blk t) * 4096 \<and>
    heap_ok {} h' (C - {t}) blk (B - {blk t}) \<and> live h' (C - {t}) = (live h C)(t := None)"
proof -
  note sh = tiling_shrink [OF heap_okD(1) [OF ok] t(1,3,4)]
  have "heap_ok {} h' (C - {t}) blk (B - {blk t})"
  proof (rule heap_okI)
    show "tiling h' (C - {t}) blk (B - {blk t})" using sh tiling_tags_cong [OF h'(1)] by simp
    show "free_lists h' (C - {t})" using free_lists_drop_used [OF heap_okD(2) [OF ok] t(2)] h' by (simp add: free_lists_def)
    show "l_completePages h' j = int (card (complete_chunks h' (C - {t}) j)) \<and> card (complete_chunks h' (C - {t}) j) \<le> 5"
      if j: "in_bins j" for j
    proof -
      have "complete_chunks h' (C - {t}) j = complete_chunks h C j"
        using t(2) j h'(1) by (auto simp: complete_chunks_def in_bins_def)
      then show ?thesis using heap_okD(5,6) [OF ok j] h'(3) by simp
    qed
  qed (use heap_okD(3,4) [OF ok] h'(1) in auto)
  moreover have "live h' (C - {t}) = (live h C)(t := None)" using h'(1) by (auto simp: live_def fun_eq_iff)
  ultimately show ?thesis using sh by blast
qed

text \<open>
  What holds between calls. The heap is either not set up, or its chunks, in blocks it got from the
  memory manager, satisfy the invariant; \<open>lv\<close> gives the chunks in use with the size that was
  asked for. The memory the physical allocator searches leaves room for the largest block.
\<close>

definition heap_inv :: "layout \<Rightarrow> nat set \<Rightarrow> kheap \<Rightarrow> (addr \<rightharpoonup> u32) \<Rightarrow> bool" where
  "heap_inv L Z h lv \<longleftrightarrow>
     unat (TotalMemory (memManData (hmachine h)) div PAGE_SIZE) \<le> 786424 \<and>
     (\<exists>C blk B. pages_ok L Z (hmachine h) B \<and> lv = live h C \<and>
        (if l_initialized h then heap_ok {} h C blk B else C = {} \<and> B = {}))"

lemma heap_ok_fields_cong:
  assumes "tags h' = tags h" and "l_freePages h' = l_freePages h" and "l_completePages h' = l_completePages h"
  shows "heap_ok X h' C blk B = heap_ok X h C blk B" and "live h' C = live h C"
  using assms tiling_tags_cong [OF assms(1)]
  by (simp_all add: heap_ok_def free_lists_def complete_chunks_def live_def fun_eq_iff)

lemma lock_fields [simp]:
  "tags (liballoc_lock h) = tags h" "l_freePages (liballoc_lock h) = l_freePages h"
  "l_completePages (liballoc_lock h) = l_completePages h" "l_initialized (liballoc_lock h) = l_initialized h"
  "hmachine (liballoc_lock h) = hmachine h" "tags (liballoc_unlock h) = tags h" "l_freePages (liballoc_unlock h) = l_freePages h"
  "l_completePages (liballoc_unlock h) = l_completePages h" "l_initialized (liballoc_unlock h) = l_initialized h"
  "hmachine (liballoc_unlock h) = hmachine h" "schedulerEnabled (hsched (liballoc_unlock h))"
  by (simp_all add: liballoc_lock_def liballoc_unlock_def sched_enable_def)

lemma heap_inv_lock: "heap_inv L Z (liballoc_lock h) lv = heap_inv L Z h lv" "heap_inv L Z (liballoc_unlock h) lv = heap_inv L Z h lv"
  using heap_ok_fields_cong [of "liballoc_lock h" h] heap_ok_fields_cong [of "liballoc_unlock h" h]
  by (simp_all add: heap_inv_def)

lemma free_block_pages_of_nat:
  assumes "16 \<le> n" and "n * 4096 \<le> 0x40000000" and "unat rs = n * 4096"
  shows "free_block_pages rs = of_nat n"
proof -
  have "unat (rs mod 4096) = 0" "unat (rs div 4096) = n" using assms(3) by (simp_all add: unat_mod unat_div)
  then have "rs mod 4096 = 0" "rs div 4096 = of_nat n"
    using assms(2) by (simp add: unat_eq_zero, metis of_nat_unat ucast_id)
  moreover have "\<not> (of_nat n :: u32) < 16"
    using assms(1,2) unat_of_nat32 [of n] by (simp add: word_less_nat_alt)
  ultimately show ?thesis by (simp add: free_block_pages_def)
qed

text \<open>The end of \<open>kfree\<close>: the merged chunk goes back to the memory manager or into a free list.\<close>

lemma kfree_release:
  assumes m: "heap_ok {t} h C blk B" "t \<in> C" "classes h t = - 1" and whole: "lefts h t = 0" "rights h t = 0"
    and P: "pages_ok L Z (hmachine h) B" "unat (TotalMemory (memManData (hmachine h)) div PAGE_SIZE) \<le> 786424" "l_initialized h"
  shows "\<exists>h'. liballoc_free L t (free_block_pages (sizes h t)) h = Some h' \<and> l_initialized h' \<and> heap_inv L Z h' ((live h C)(t := None))"
proof -
  note d = drop_heap_ok [OF m, of "h\<lparr>hmachine := s\<rparr>" for s]
  have b: "blk t \<in> B" "fst (blk t) = t" "unat (sizes h t) = snd (blk t) * 4096" using d whole by auto
  have bt: "(t, snd (blk t)) = blk t" using b(2) by (metis prod.collapse)
  then have blk: "(t, snd (blk t)) \<in> B" using b(1) by simp
  then have sz: "16 \<le> snd (blk t)" "snd (blk t) * 4096 \<le> 0x40000000"
    using P(1) unfolding pages_ok_def blocks_ok_def by auto
  obtain s where s: "memoryFree (kernelPageDirectory L) t (of_nat (snd (blk t)) * 4096) (hmachine h) = Some s"
      "TotalMemory (memManData s) = TotalMemory (memManData (hmachine h))" "pages_ok L Z s (B - {(t, snd (blk t))})"
    using page_source_free [OF _ blk, of L Z "hmachine h"] P(1) by auto
  have "heap_inv L Z (h\<lparr>hmachine := s\<rparr>) ((live h C)(t := None))"
    unfolding heap_inv_def using P s(2,3) whole d [of s] unfolding bt
    by (intro conjI exI [of _ "C - {t}"] exI [of _ blk] exI [of _ "B - {blk t}"]) auto
  then show ?thesis
    using s(1) free_block_pages_of_nat [OF sz b(3)] P(3) by (simp add: liballoc_free_def)
qed

lemma kfree_keep:
  assumes m: "heap_ok {t} h C blk B" "t \<in> C" "classes h t = - 1" "lefts h t \<noteq> 0 \<longrightarrow> classes h (lefts h t) = - 1"
      "rights h t \<noteq> 0 \<longrightarrow> classes h (rights h t) = - 1"
    and i: "i = bin_of (sizes h t - sizeof_tag)" "lefts h t = 0 \<and> rights h t = 0 \<Longrightarrow> l_completePages h i \<noteq> 5"
    and P: "pages_ok L Z (hmachine h) B" "unat (TotalMemory (memManData (hmachine h)) div PAGE_SIZE) \<le> 786424" "l_initialized h"
    and h1: "h1 = (if lefts h t = 0 \<and> rights h t = 0
      then h\<lparr>l_completePages := (l_completePages h)(i := l_completePages h i + 1)\<rparr> else h)"
  shows "\<exists>h'. insert_tag t i h1 = Some h' \<and> l_initialized h' \<and> heap_inv L Z h' ((live h C)(t := None))"
proof -
  have "if lefts h t = 0 \<and> rights h t = 0
    then l_completePages h i \<noteq> 5 \<and> h1 = h\<lparr>l_completePages := (l_completePages h)(i := l_completePages h i + 1)\<rparr>
    else h1 = h"
    using i(2) by (simp add: h1)
  from insert_heap_ok [OF m _ i(1) this]
  obtain h' where h': "insert_tag t i h1 = Some h'" "heap_ok {} h' C blk B" "live h' C = (live h C)(t := None)" "same_rest h h'"
    using bin_of_in_bins i(1) by blast
  have "heap_inv L Z h' ((live h C)(t := None))"
    unfolding heap_inv_def using P h'(2-4)
    by (intro conjI exI [of _ C] exI [of _ blk] exI [of _ B]) (auto simp: same_rest_def)
  then show ?thesis using h'(1,4) P(3) by (simp add: same_rest_def)
qed

lemma kfree_live:
  assumes inv: "heap_inv L Z h0 lv" and x: "lv x = Some k"
  shows "\<exists>h'. kfree L (x + sizeof_tag) h0 = Some h' \<and> heap_inv L Z h' (lv(x := None)) \<and>
    schedulerEnabled (hsched h') \<and> l_initialized h'"
proof -
  define h where "h = liballoc_lock h0"
  have inv1: "heap_inv L Z h lv" using inv heap_inv_lock by (simp add: h_def)
  then obtain C blk B where T: "unat (TotalMemory (memManData (hmachine h)) div PAGE_SIZE) \<le> 786424"
      and P: "pages_ok L Z (hmachine h) B" and lv: "lv = live h C"
      and ok': "if l_initialized h then heap_ok {} h C blk B else C = {} \<and> B = {}"
    unfolding heap_inv_def by auto
  have xC: "x \<in> C" "classes h x = - 1" using x lv by (auto simp: live_def split: if_splits)
  then have init: "l_initialized h" and ok0: "heap_ok {} h C blk B" using ok' by (auto split: if_splits)
  have ok: "heap_ok {x} h C blk B" using ok0 by (auto simp: heap_ok_def)
  have tb: "unat x + unat (sizes h x) \<le> 0x40000000" "32 \<le> unat (sizes h x)"
    using tiling_bounds [OF heap_okD(1) [OF ok] xC(1)] by auto
  then have "unat (x + sizeof_tag) = unat x + 32" by (simp add: unat_word_ariths)
  then have p0: "x + sizeof_tag \<noteq> 0" by auto
  have mg: "magic (tags h x) = LIBALLOC_MAGIC" using heap_okD(1) [OF ok] xC(1) by (auto simp: tiling_def chunk_ok_def)
  obtain t h2 C2 where m2: "melt_left_loop x h = Some (t, h2)" "t \<in> C2" "classes h2 t = - 1" "heap_ok {t} h2 C2 blk B"
      "(live h2 C2)(t := None) = (live h C)(x := None)" "same_rest h h2" "lefts h2 t \<noteq> 0 \<longrightarrow> classes h2 (lefts h2 t) = - 1"
    using melt_left_ok [OF ok xC] by (elim exE conjE) (rule that)
  obtain h3 C3 where m3: "melt_right_loop t h2 = Some (t, h3)" "t \<in> C3" "classes h3 t = - 1" "heap_ok {t} h3 C3 blk B"
      "(live h3 C3)(t := None) = (live h2 C2)(t := None)" "same_rest h2 h3"
      "lefts h3 t \<noteq> 0 \<longrightarrow> classes h3 (lefts h3 t) = - 1" "rights h3 t \<noteq> 0 \<longrightarrow> classes h3 (rights h3 t) = - 1"
    using melt_right_ok [OF m2(4,2,3,7)] by (elim exE conjE) (rule that)
  have rest: "pages_ok L Z (hmachine h3) B" "unat (TotalMemory (memManData (hmachine h3)) div PAGE_SIZE) \<le> 786424" "l_initialized h3"
    using m2(6) m3(6) init P T by (auto simp: same_rest_def)
  have lv3: "(live h3 C3)(t := None) = lv(x := None)" using m3(5) m2(5) lv by simp
  define i where "i = bin_of (sizes h3 t - sizeof_tag)"
  have run: "kfree L (x + sizeof_tag) h0 = map_option liballoc_unlock
    (if lefts h3 t = 0 \<and> rights h3 t = 0 \<and> l_completePages h3 i = MAXCOMPLETE
     then liballoc_free L t (free_block_pages (sizes h3 t)) h3
     else insert_tag t i (if lefts h3 t = 0 \<and> rights h3 t = 0
       then h3\<lparr>l_completePages := (l_completePages h3)(i := l_completePages h3 i + 1)\<rparr> else h3))"
    using p0 mg m2(1) m3(1) by (simp add: kfree_def h_def [symmetric] Let_def i_def bin_of_def)
  show ?thesis
    using run kfree_release [OF m3(4,2,3) _ _ rest] kfree_keep [OF m3(4,2,3,7,8) i_def _ rest refl] unfolding lv3
    by (cases "lefts h3 t = 0 \<and> rights h3 t = 0 \<and> l_completePages h3 i = MAXCOMPLETE") (auto simp: heap_inv_lock)
qed

section \<open>kmalloc\<close>

lemma upd_tag_apply: "tags (upd_tag x f h) a = (if a = x then f (tags h x) else tags h a)"
  by (simp add: upd_tag_def)

text \<open>The effect of cutting a chunk, before the new one is put into its list.\<close>

lemma split_tag_effect:
  assumes "n = x + sizeof_tag + tag_size (tags h x)" and "n \<noteq> x" and "rights h x \<noteq> n" and "rights h x \<noteq> x"
  shows "\<exists>h1. split_tag x h = map_option (Pair n) (insert_tag n (- 1) h1) \<and>
    (\<forall>a. sizes h1 a = (if a = x then sizeof_tag + tag_size (tags h x)
           else if a = n then sizes h x - (sizeof_tag + tag_size (tags h x)) else sizes h a) \<and>
       rights h1 a = (if a = x then n else if a = n then rights h x else rights h a) \<and>
       lefts h1 a = (if a = n then x else if a = rights h x \<and> a \<noteq> 0 then n else lefts h a) \<and>
       magic (tags h1 a) = (if a = n then LIBALLOC_MAGIC else magic (tags h a)) \<and>
       nexts h1 a = (if a = n then 0 else nexts h a) \<and> prevs h1 a = (if a = n then 0 else prevs h a) \<and>
       tag_size (tags h1 a) = tag_size (tags h a) \<and> classes h1 a = classes h a) \<and>
    l_freePages h1 = l_freePages h \<and> l_completePages h1 = l_completePages h \<and> same_rest h h1"
proof -
  define rem where "rem = sizes h x - sizeof_tag - tag_size (tags h x)"
  define h1 where "h1 = upd_tag n (\<lambda>t. t\<lparr>magic := LIBALLOC_MAGIC, real_size := rem, tag_next := 0, tag_prev := 0,
      split_left := x, split_right := rights h x\<rparr>) h"
  define h2 where "h2 = (if rights h1 n \<noteq> 0 then upd_tag (rights h1 n) (\<lambda>t. t\<lparr>split_left := n\<rparr>) h1 else h1)"
  define h3 where "h3 = upd_tag x (\<lambda>t. t\<lparr>split_right := n\<rparr>) h2"
  define h4 where "h4 = upd_tag x (\<lambda>t. t\<lparr>real_size := real_size t - sizes h3 n\<rparr>) h3"
  have "split_tag x h = map_option (Pair n) (insert_tag n (- 1) h4)"
    unfolding split_tag_def Let_def h4_def h3_def h2_def h1_def rem_def assms(1) ..
  moreover have 1: "sizes h1 a = (if a = n then rem else sizes h a)" "rights h1 a = (if a = n then rights h x else rights h a)"
      "lefts h1 a = (if a = n then x else lefts h a)" "magic (tags h1 a) = (if a = n then LIBALLOC_MAGIC else magic (tags h a))"
      "nexts h1 a = (if a = n then 0 else nexts h a)" "prevs h1 a = (if a = n then 0 else prevs h a)"
      "tag_size (tags h1 a) = tag_size (tags h a)" "classes h1 a = classes h a" for a
    by (simp_all add: h1_def upd_tag_apply)
  have r0: "l_freePages h4 = l_freePages h" "l_completePages h4 = l_completePages h" "same_rest h h4"
    by (simp_all add: h4_def h3_def h2_def h1_def same_rest_def)
  have 2: "sizes h2 a = sizes h1 a" "rights h2 a = rights h1 a" "magic (tags h2 a) = magic (tags h1 a)" "nexts h2 a = nexts h1 a"
      "prevs h2 a = prevs h1 a" "tag_size (tags h2 a) = tag_size (tags h1 a)" "classes h2 a = classes h1 a"
      "lefts h2 a = (if a = n then x else if a = rights h x \<and> a \<noteq> 0 then n else lefts h a)" for a
    using assms(3) by (auto simp: h2_def 1)
  have 3: "sizes h3 n = rem" "sizes h x - rem = sizeof_tag + tag_size (tags h x)" "rem = sizes h x - (sizeof_tag + tag_size (tags h x))"
    using assms(2) by (simp_all add: h3_def 2 1 rem_def)
  show ?thesis
  proof (intro exI conjI allI)
    show "split_tag x h = map_option (Pair n) (insert_tag n (- 1) h4)" by fact
    show "sizes h4 a = (if a = x then sizeof_tag + tag_size (tags h x)
        else if a = n then sizes h x - (sizeof_tag + tag_size (tags h x)) else sizes h a)" for a
      unfolding h4_def 3(1) using assms(2) 3(2,3) by (simp add: h3_def 2 1)
  qed (use assms(2) r0 in \<open>simp_all add: h4_def h3_def 2 1\<close>)
qed

text \<open>The tags after \<open>split_tag\<close> cut the chunk \<open>x\<close> at \<open>k\<close>, before the rest \<open>n\<close> goes into a free list.\<close>

definition split_at :: "addr \<Rightarrow> addr \<Rightarrow> u32 \<Rightarrow> kheap \<Rightarrow> kheap \<Rightarrow> bool" where
  "split_at x n k h h1 \<longleftrightarrow>
     (\<forall>a. sizes h1 a = (if a = x then k else if a = n then sizes h x - k else sizes h a) \<and>
       rights h1 a = (if a = x then n else if a = n then rights h x else rights h a) \<and>
       lefts h1 a = (if a = n then x else if a = rights h x \<and> a \<noteq> 0 then n else lefts h a) \<and>
       magic (tags h1 a) = (if a = n then LIBALLOC_MAGIC else magic (tags h a)) \<and>
       nexts h1 a = (if a = n then 0 else nexts h a) \<and> prevs h1 a = (if a = n then 0 else prevs h a) \<and>
       tag_size (tags h1 a) = tag_size (tags h a) \<and> classes h1 a = classes h a) \<and>
     l_freePages h1 = l_freePages h \<and> l_completePages h1 = l_completePages h \<and> same_rest h h1"

lemma split_atD:
  assumes "split_at x n k h h1"
  shows "sizes h1 a = (if a = x then k else if a = n then sizes h x - k else sizes h a)"
    "rights h1 a = (if a = x then n else if a = n then rights h x else rights h a)"
    "lefts h1 a = (if a = n then x else if a = rights h x \<and> a \<noteq> 0 then n else lefts h a)"
    "magic (tags h1 a) = (if a = n then LIBALLOC_MAGIC else magic (tags h a))"
    "nexts h1 a = (if a = n then 0 else nexts h a)" "prevs h1 a = (if a = n then 0 else prevs h a)"
    "tag_size (tags h1 a) = tag_size (tags h a)" "classes h1 a = classes h a"
    "l_freePages h1 = l_freePages h" "l_completePages h1 = l_completePages h" "same_rest h h1"
  using assms by (simp_all add: split_at_def)

lemma split_tag_at:
  assumes T: "tiling h C blk B" and x: "x \<in> C" and room: "unat (tag_size (tags h x)) + 64 \<le> unat (sizes h x)"
    and k: "k = sizeof_tag + tag_size (tags h x)"
  shows "unat k = 32 + unat (tag_size (tags h x))" "rights h x \<noteq> x + k" "x + k \<noteq> x"
    "\<exists>h1. split_tag x h = map_option (Pair (x + k)) (insert_tag (x + k) (- 1) h1) \<and> split_at x (x + k) k h h1"
proof -
  show uk: "unat k = 32 + unat (tag_size (tags h x))"
    using room tiling_bounds(1) [OF T x] by (simp add: k unat_word_ariths)
  have un: "unat (x + k) = unat x + unat k" using tiling_bounds(1) [OF T x] uk room by (simp add: unat_word_ariths)
  show nx: "x + k \<noteq> x" using un uk by auto
  have z: "rights h x \<noteq> 0 \<Longrightarrow> unat (rights h x) = unat x + unat (sizes h x)"
    using T x by (auto simp: tiling_def chunk_ok_def)
  show zn: "rights h x \<noteq> x + k"
    using z un uk room tiling_bounds(3) [OF T x] by (cases "rights h x = 0") (auto simp: word_unat_eq_iff)
  have "rights h x \<noteq> x" using z room tiling_bounds(3) [OF T x] by (cases "rights h x = 0") (auto simp: word_unat_eq_iff)
  with zn show "\<exists>h1. split_tag x h = map_option (Pair (x + k)) (insert_tag (x + k) (- 1) h1) \<and> split_at x (x + k) k h h1"
    using split_tag_effect [of "x + k" x h] nx unfolding split_at_def k by (simp add: add.assoc)
qed

lemma split_at_free_lists:
  assumes "split_at x n k h h1" "n \<notin> C" "free_lists h C"
  shows "free_lists h1 C"
proof -
  note E = split_atD [OF assms(1)]
  have "dll (nexts h1) (prevs h1) 0 a xs = dll (nexts h) (prevs h) 0 a xs" if "set xs \<subseteq> C" for a xs
    using that assms(2) by (intro dll_cong) (auto simp: E)
  then have "(\<exists>xs. dll (nexts h) (prevs h) 0 (l_freePages h i) xs \<and> distinct xs \<and> set xs = {x \<in> C. classes h x = i}) \<Longrightarrow>
      (\<exists>xs. dll (nexts h1) (prevs h1) 0 (l_freePages h1 i) xs \<and> distinct xs \<and> set xs = {x \<in> C. classes h1 x = i})" for i
    unfolding E(8,9) by (metis (no_types, lifting) mem_Collect_eq subsetI)
  then show ?thesis using assms(2,3) unfolding free_lists_def by (auto simp: E)
qed

lemma split_at_heap_ok:
  assumes ok: "heap_ok {} h C blk B" and x: "x \<in> C" "classes h x = - 1"
    and right: "rights h x \<noteq> 0 \<longrightarrow> classes h (rights h x) = - 1"
    and at: "split_at x n k h h1" and k: "unat k = 32 + unat (tag_size (tags h x))" and n: "n \<noteq> x" "rights h x \<noteq> n" "n \<notin> C" "n \<noteq> 0"
    and h': "tiling h1 (insert n C) (blk(n := blk x)) B" "same_chunks h1 h'" "free_lists h' (insert n C)" "classes h' = (classes h1)(n := i)"
      "in_bins i"
  shows "heap_ok {} h' (insert n C) (blk(n := blk x)) B" "live h' (insert n C) = live h C"
proof -
  note E = split_atD [OF at]
  have cls: "classes h' a = (if a = n then i else classes h a)" for a using fun_cong [OF h'(4), of a] E(8) by simp
  have S: "\<And>a. sizes h' a = sizes h1 a" "\<And>a. rights h' a = rights h1 a" "\<And>a. lefts h' a = lefts h1 a"
      "\<And>a. tag_size (tags h' a) = tag_size (tags h1 a)" "l_completePages h' = l_completePages h"
    using h'(2) E(10) by (auto simp: same_chunks_def)
  show "heap_ok {} h' (insert n C) (blk(n := blk x)) B"
  proof (rule heap_okI)
    show "tiling h' (insert n C) (blk(n := blk x)) B" using h'(1) tiling_same_chunks [OF h'(2)] by simp
    show "free_lists h' (insert n C)" by (rule h'(3))
    show "unat (tag_size (tags h' w)) + 32 \<le> unat (sizes h' w)" if "w \<in> insert n C" "classes h' w = - 1" for w
      using heap_okD(3) [OF ok, of w] that h'(5) k by (auto simp: S E cls in_bins_def split: if_splits)
    show "classes h' w = - 1 \<or> classes h' (rights h' w) = - 1" if w: "w \<in> insert n C" "rights h' w \<noteq> 0" for w
    proof (cases "w = x \<or> w = n")
      case True
      then show ?thesis using n w x(2) right by (auto simp: S E cls)
    next
      case False
      then have "rights h w \<noteq> n" using heap_ok_neighbours(1) [OF ok, of w] w n by (auto simp: S E)
      then show ?thesis using heap_okD(4) [OF ok, of w] False w by (auto simp: S E cls)
    qed
    show "l_completePages h' j = int (card (complete_chunks h' (insert n C) j)) \<and> card (complete_chunks h' (insert n C) j) \<le> 5"
      if j: "in_bins j" for j
    proof -
      have x0: "x \<noteq> 0" by (rule tiling_bounds(3) [OF heap_okD(1) [OF ok] x(1)])
      have "rights h x = 0 \<or> lefts h (rights h x) = x" using heap_ok_neighbours(1) [OF ok x(1)] by auto
      then have "complete_chunks h' (insert n C) j = complete_chunks h C j"
        using x x0 n j by (auto simp: complete_chunks_def S E cls in_bins_def split: if_splits)
      then show ?thesis using heap_okD(5,6) [OF ok j] S(5) by simp
    qed
  qed
  show "live h' (insert n C) = live h C"
    using h'(5) n(3) by (auto simp: live_def cls S E fun_eq_iff in_bins_def)
qed

lemma split_heap_ok:
  assumes ok: "heap_ok {} h C blk B" and x: "x \<in> C" "classes h x = - 1"
    and room: "unat (tag_size (tags h x)) + 64 \<le> unat (sizes h x)"
    and right: "rights h x \<noteq> 0 \<longrightarrow> classes h (rights h x) = - 1"
  shows "\<exists>n h' C' blk'. split_tag x h = Some (n, h') \<and> heap_ok {} h' C' blk' B \<and> live h' C' = live h C \<and> same_rest h h'"
proof -
  define k n where "k = sizeof_tag + tag_size (tags h x)" and "n = x + k"
  have T: "tiling h C blk B" by (rule heap_okD(1) [OF ok])
  note at = split_tag_at [OF T x(1) room k_def, folded n_def]
  obtain h1 where h1: "split_tag x h = map_option (Pair n) (insert_tag n (- 1) h1)" "split_at x n k h h1" using at(4) by blast
  note E = split_atD [OF h1(2)]
  have t1: "n \<notin> C" "n \<noteq> 0" "tiling h1 (insert n C) (blk(n := blk x)) B"
    using tiling_split [OF T x(1) _ _ n_def E(1-4)] at(1) room by auto
  have fl: "free_lists h1 (insert n C - {n})"
    using split_at_free_lists [OF h1(2) t1(1) heap_okD(2) [OF ok]] t1(1) by simp
  define i where "i = bin_of (sizes h1 n - sizeof_tag)"
  have i: "in_bins i" "i = (if (- 1 :: int) < 0 then bin_of (sizes h1 n - sizeof_tag) else - 1)"
    by (simp_all add: i_def bin_of_in_bins)
  obtain h' where h': "insert_tag n (- 1) h1 = Some h'" "same_chunks h1 h'" "free_lists h' (insert n C)" "classes h' = (classes h1)(n := i)"
    using insert_tag_free_lists [OF fl _ t1(2) _ _ i] E(5,6) by auto
  have "same_rest h h'" using h'(2) E(11) by (auto simp: same_chunks_def same_rest_def)
  then show ?thesis
    using split_at_heap_ok [OF ok x right h1(2) at(1,3,2) t1 h'(2-4) i(1)] h1(1) h'(1) by auto
qed

lemma sint_negative:
  assumes "2 ^ 31 \<le> unat (w :: u32)"
  shows "sint w < 0"
proof -
  have "unat w div 2 ^ 31 = 1" using assms unsigned_less [of w, where ?'a = nat] by (intro div_nat_eqI) simp_all
  then have "bit (unat w) 31" by (simp add: bit_iff_odd)
  then have "bit w (LENGTH(32) - Suc 0)" by (simp add: bit_unsigned_iff)
  then show ?thesis by (simp only: bit_last_iff)
qed

lemma carve_ok:
  assumes ok: "heap_ok {x} h C blk B" and x: "x \<in> C" "classes h x = - 1" and room: "unat sz + 32 \<le> unat (sizes h x)"
    and right: "rights h x \<noteq> 0 \<longrightarrow> classes h (rights h x) = - 1"
  shows "\<exists>h' C' blk'. kmalloc_carve sz x h = Some (x + sizeof_tag, liballoc_unlock h') \<and> heap_ok {} h' C' blk' B \<and>
    live h' C' = (live h C)(x \<mapsto> sz) \<and> same_rest h h'"
proof -
  define h1 where "h1 = upd_tag x (\<lambda>t. t\<lparr>tag_size := sz\<rparr>) h"
  define rem where "rem = sizes h1 x - sz - sizeof_tag * 2"
  have F: "\<And>a. sizes h1 a = sizes h a" "\<And>a. rights h1 a = rights h a" "\<And>a. lefts h1 a = lefts h a"
      "\<And>a. magic (tags h1 a) = magic (tags h a)" "\<And>a. classes h1 a = classes h a" "\<And>a. nexts h1 a = nexts h a"
      "\<And>a. prevs h1 a = prevs h a" "\<And>a. tag_size (tags h1 a) = (if a = x then sz else tag_size (tags h a))"
      "l_completePages h1 = l_completePages h" "l_freePages h1 = l_freePages h" "same_rest h h1"
    by (simp_all add: h1_def same_rest_def)
  have "tiling h1 C blk B" using heap_okD(1) [OF ok] by (simp add: tiling_def chunk_ok_def span_def F)
  moreover have "free_lists h1 C" using heap_okD(2) [OF ok] by (simp add: free_lists_def F)
  ultimately have ok1: "heap_ok {} h1 C blk B"
  proof (rule heap_okI)
    show "unat (tag_size (tags h1 w)) + 32 \<le> unat (sizes h1 w)" if "w \<in> C" "classes h1 w = - 1" for w
      using heap_okD(3) [OF ok, of w] that room by (auto simp: F)
    show "classes h1 w = - 1 \<or> classes h1 (rights h1 w) = - 1" if "w \<in> C" "rights h1 w \<noteq> 0" for w
      using heap_okD(4) [OF ok, of w] that by (simp add: F)
    show "l_completePages h1 i = int (card (complete_chunks h1 C i)) \<and> card (complete_chunks h1 C i) \<le> 5" if "in_bins i" for i
      using heap_okD(5,6) [OF ok that] by (simp add: complete_chunks_def F)
  qed
  have lv: "live h1 C = (live h C)(x \<mapsto> sz)" using x by (auto simp: live_def F fun_eq_iff)
  show ?thesis
  proof (cases "0 < sint rem \<and> 0 \<le> getexp rem")
    case True
    have "unat sz + 64 \<le> unat (sizes h x)"
    proof (rule ccontr)
      assume "\<not> ?thesis"
      then have "unat (sizes h x - sz) = unat (sizes h x) - unat sz" "unat (sizes h x) - unat sz < 64"
        using room by (simp_all add: unat_sub_if')
      moreover have "rem = sizes h x - sz - 64" by (simp add: rem_def F)
      ultimately have "2 ^ 31 \<le> unat rem" by (simp add: unat_sub_if')
      then have "sint rem < 0" by (rule sint_negative)
      then show False using True by simp
    qed
    then obtain n h' C' blk' where s: "split_tag x h1 = Some (n, h')" "heap_ok {} h' C' blk' B" "live h' C' = live h1 C" "same_rest h1 h'"
      using split_heap_ok [OF ok1 x(1)] x(2) right by (auto simp: F)
    have "kmalloc_carve sz x h = Some (x + sizeof_tag, liballoc_unlock h')"
      unfolding kmalloc_carve_def Let_def h1_def [symmetric] rem_def [symmetric] using True s(1) by simp
    then show ?thesis using s lv F(11) by (auto simp: same_rest_def)
  next
    case False
    then have "kmalloc_carve sz x h = Some (x + sizeof_tag, liballoc_unlock h1)"
      unfolding kmalloc_carve_def Let_def h1_def [symmetric] rem_def [symmetric] by auto
    then show ?thesis using ok1 lv F(11) by blast
  qed
qed

lemma heap_inv_init:
  assumes "heap_inv L Z h lv"
  shows "heap_inv L Z (kmalloc_init h) lv" and "l_initialized (kmalloc_init h)"
proof -
  show "l_initialized (kmalloc_init h)" by (simp add: kmalloc_init_def)
  show "heap_inv L Z (kmalloc_init h) lv"
  proof (cases "l_initialized h")
    case False
    then have T: "unat (TotalMemory (memManData (hmachine h)) div PAGE_SIZE) \<le> 786424" "pages_ok L Z (hmachine h) {}" "lv = live h {}"
      using assms by (auto simp: heap_inv_def)
    let ?h = "kmalloc_init h"
    have "dll (nexts ?h) (prevs ?h) 0 (l_freePages ?h i) []" for i using False by (simp add: kmalloc_init_def)
    then have "free_lists ?h {}" unfolding free_lists_def by (metis (no_types, lifting) distinct.simps(1) empty_Collect_eq empty_iff list.set(1))
    moreover have "tiling ?h {} blk {}" for blk by (simp add: tiling_def blocks_ok_def)
    ultimately have "heap_ok {} ?h {} blk {}" for blk
      using False by (intro heap_okI) (auto simp: complete_chunks_def kmalloc_init_def)
    moreover have "live ?h {} = live h {}" by (simp add: live_def)
    ultimately show ?thesis using T False unfolding heap_inv_def
      by (intro conjI exI [of _ "{}"]) (auto simp: kmalloc_init_def)
  qed (use assms in \<open>simp add: kmalloc_init_def\<close>)
qed

lemma round_up_pages:
  fixes u :: nat
  assumes "u \<le> 262144 * 4096"
  shows "u \<le> (if u mod 4096 \<noteq> 0 then u div 4096 + 1 else u div 4096) * 4096"
    and "(if u mod 4096 \<noteq> 0 then u div 4096 + 1 else u div 4096) \<le> 262144"
proof -
  define d r where "d = u div 4096" and "r = u mod 4096"
  have "u = d * 4096 + r" "r < 4096" by (simp_all add: d_def r_def)
  then show "u \<le> (if u mod 4096 \<noteq> 0 then u div 4096 + 1 else u div 4096) * 4096"
    and "(if u mod 4096 \<noteq> 0 then u div 4096 + 1 else u div 4096) \<le> 262144"
    using assms unfolding d_def [symmetric] r_def [symmetric] by auto
qed

lemma new_block_pages_bounds:
  assumes "unat sz \<le> 0x3FFFFFE0"
  shows "\<exists>n. new_block_pages sz = of_nat n \<and> 16 \<le> n \<and> n * 4096 \<le> 0x40000000 \<and> unat sz + 32 \<le> n * 4096"
proof -
  let ?u = "unat sz + 32"
  have u: "unat (sz + sizeof_tag) = ?u" using assms by (simp add: unat_word_ariths)
  define m where "m = (if ?u mod 4096 \<noteq> 0 then ?u div 4096 + 1 else ?u div 4096)"
  have m1: "?u \<le> m * 4096" and m2: "m \<le> 262144" using round_up_pages [of ?u] assms unfolding m_def by simp_all
  define p0 where "p0 = (sz + sizeof_tag) div l_pageSize"
  have p0: "unat p0 = ?u div 4096" using u by (simp add: p0_def unat_div)
  have md: "(sz + sizeof_tag) mod l_pageSize \<noteq> 0 \<longleftrightarrow> ?u mod 4096 \<noteq> 0"
    using u by (simp add: unat_eq_zero [symmetric] unat_mod)
  define p1 where "p1 = (if (sz + sizeof_tag) mod l_pageSize \<noteq> 0 then p0 + 1 else p0)"
  have "unat (p0 + 1) = ?u div 4096 + 1" using p0 assms by (simp add: unat_word_ariths)
  then have p1: "unat p1 = m" using p0 unfolding p1_def m_def md by simp
  have "new_block_pages sz = (if p1 < l_pageCount then l_pageCount else p1)"
    by (simp only: new_block_pages_def Let_def p1_def p0_def)
  moreover have "p1 < l_pageCount \<longleftrightarrow> m < 16" using p1 by (simp add: word_less_nat_alt)
  moreover have "p1 = of_nat m" using p1 by (metis of_nat_unat ucast_id)
  ultimately have "new_block_pages sz = of_nat (max m 16)" by (auto simp: max_def)
  then show ?thesis using m1 m2 by (intro exI [of _ "max m 16"]) auto
qed

lemma new_block_ok:
  assumes ok: "heap_ok {} h C blk B" and P: "pages_ok L Z s (insert (x, n) B)" "(x, n) \<notin> B" and x: "x \<noteq> 0"
    and h': "h' = upd_tag x (\<lambda>_. \<lparr>magic = LIBALLOC_MAGIC, tag_size = sz, real_size = of_nat (n * 4096),
                tag_index = - 1, split_left = 0, split_right = 0, tag_next = 0, tag_prev = 0\<rparr>) (h\<lparr>hmachine := s\<rparr>)"
  shows "x \<notin> C \<and> heap_ok {x} h' (insert x C) (blk(x := (x, n))) (insert (x, n) B) \<and> sizes h' x = of_nat (n * 4096) \<and>
    rights h' x = 0 \<and> classes h' x = - 1 \<and> (live h' (insert x C))(x := None) = live h C"
proof -
  have E: "\<And>a. sizes h' a = (if a = x then of_nat (n * 4096) else sizes h a)"
      "\<And>a. rights h' a = (if a = x then 0 else rights h a)" "\<And>a. lefts h' a = (if a = x then 0 else lefts h a)"
      "\<And>a. magic (tags h' a) = (if a = x then LIBALLOC_MAGIC else magic (tags h a))"
      "\<And>a. classes h' a = (if a = x then - 1 else classes h a)" "\<And>a. nexts h' a = (if a = x then 0 else nexts h a)"
      "\<And>a. prevs h' a = (if a = x then 0 else prevs h a)" "\<And>a. tag_size (tags h' a) = (if a = x then sz else tag_size (tags h a))"
      "l_freePages h' = l_freePages h" "l_completePages h' = l_completePages h"
    by (simp_all add: h' upd_tag_apply)
  have T: "tiling h C blk B" by (rule heap_okD(1) [OF ok])
  have B: "blocks_ok (insert (x, n) B)" using P(1) by (simp add: pages_ok_def)
  have t1: "x \<notin> C" "tiling h' (insert x C) (blk(x := (x, n))) (insert (x, n) B)"
    using tiling_grow [OF T B P(2) x E(1-4)] by auto
  have "free_lists h' (insert x C)"
  proof -
    have "\<exists>xs. dll (nexts h') (prevs h') 0 (l_freePages h' i) xs \<and> distinct xs \<and> set xs = {y \<in> insert x C. classes h' y = i}"
      if i: "in_bins i" for i
    proof -
      obtain xs where xs: "dll (nexts h) (prevs h) 0 (l_freePages h i) xs" "distinct xs" "set xs = {y \<in> C. classes h y = i}"
        using heap_okD(2) [OF ok] i unfolding free_lists_def by blast
      moreover have "dll (nexts h') (prevs h') 0 (l_freePages h' i) xs = dll (nexts h) (prevs h) 0 (l_freePages h i) xs"
        unfolding E(9) using xs(3) t1(1) by (intro dll_cong) (auto simp: E)
      moreover have "{y \<in> insert x C. classes h' y = i} = {y \<in> C. classes h y = i}"
        using i t1(1) by (auto simp: E in_bins_def)
      ultimately show ?thesis by auto
    qed
    then show ?thesis using heap_okD(2) [OF ok] t1(1) unfolding free_lists_def by (auto simp: E)
  qed
  moreover have "complete_chunks h' (insert x C) i = complete_chunks h C i" if "in_bins i" for i
    using that t1(1) by (auto simp: complete_chunks_def E in_bins_def)
  moreover have "rights h w \<noteq> x" if "w \<in> C" for w
    using heap_ok_neighbours(1) [OF ok that] t1(1) x by (cases "rights h w = 0") auto
  ultimately have "heap_ok {x} h' (insert x C) (blk(x := (x, n))) (insert (x, n) B)"
    using t1 heap_okD(3-6) [OF ok] by (intro heap_okI) (auto simp: E split: if_splits)
  moreover have "(live h' (insert x C))(x := None) = live h C" using t1(1) by (auto simp: live_def E fun_eq_iff)
  ultimately show ?thesis using t1(1) E by simp
qed

lemma take_heap_ok:
  assumes ok: "heap_ok {} h C blk B" and f: "f \<in> C" "classes h f = i" "in_bins i"
  shows "\<exists>h2 h3. remove_tag f h = Some h2 \<and>
    h3 = (if lefts h2 f = 0 \<and> rights h2 f = 0
          then h2\<lparr>l_completePages := (l_completePages h2)(i := l_completePages h2 i - 1)\<rparr> else h2) \<and>
    heap_ok {f} h3 C blk B \<and> classes h3 f = - 1 \<and> sizes h3 f = sizes h f \<and> same_rest h h3 \<and>
    (rights h3 f \<noteq> 0 \<longrightarrow> classes h3 (rights h3 f) = - 1) \<and> live h C f = None \<and> (live h3 C)(f := None) = live h C"
proof -
  have T: "tiling h C blk B" by (rule heap_okD(1) [OF ok])
  obtain h2 where h2: "remove_tag f h = Some h2" "same_chunks h h2" "free_lists h2 C" "classes h2 = (classes h)(f := - 1)"
    using remove_tag_free_lists [OF heap_okD(2) [OF ok] f(1)] f(2,3) by auto
  define h3 where "h3 = (if lefts h2 f = 0 \<and> rights h2 f = 0
          then h2\<lparr>l_completePages := (l_completePages h2)(i := l_completePages h2 i - 1)\<rparr> else h2)"
  have t3: "tags h3 = tags h2" "l_freePages h3 = l_freePages h2" by (simp_all add: h3_def)
  have cls: "classes h3 a = (if a = f then - 1 else classes h a)" for a using fun_cong [OF h2(4), of a] t3(1) by simp
  have S: "\<And>a. sizes h3 a = sizes h a" "\<And>a. rights h3 a = rights h a" "\<And>a. lefts h3 a = lefts h a"
      "\<And>a. tag_size (tags h3 a) = tag_size (tags h a)" "same_rest h h3"
      "l_completePages h3 = (if lefts h f = 0 \<and> rights h f = 0 then (l_completePages h)(i := l_completePages h i - 1) else l_completePages h)"
    using h2(2) t3(1) by (simp_all add: same_chunks_def same_rest_def h3_def)
  have fneg: "classes h f \<noteq> - 1" using f(2,3) by (auto simp: in_bins_def)
  have ok3: "heap_ok {f} h3 C blk B"
  proof (rule heap_okI)
    show "tiling h3 C blk B" using T tiling_same_chunks [OF h2(2)] tiling_tags_cong [OF t3(1)] by simp
    show "free_lists h3 C" using h2(3) t3 by (simp add: free_lists_def)
    show "unat (tag_size (tags h3 w)) + 32 \<le> unat (sizes h3 w)" if "w \<in> C" "w \<notin> {f}" "classes h3 w = - 1" for w
      using heap_okD(3) [OF ok, of w] that by (auto simp: S cls)
    show "classes h3 w = - 1 \<or> classes h3 (rights h3 w) = - 1" if "w \<in> C" "rights h3 w \<noteq> 0" for w
      using heap_okD(4) [OF ok, of w] that by (auto simp: S cls)
    show "l_completePages h3 j = int (card (complete_chunks h3 C j)) \<and> card (complete_chunks h3 C j) \<le> 5" if j: "in_bins j" for j
    proof -
      have fin: "finite (complete_chunks h C j)" using T by (simp add: complete_chunks_def tiling_def)
      have "complete_chunks h3 C j = complete_chunks h C j - {f}"
        using j by (auto simp: complete_chunks_def S cls in_bins_def)
      moreover have mem: "f \<in> complete_chunks h C j \<longleftrightarrow> j = i \<and> lefts h f = 0 \<and> rights h f = 0"
        using f(1,2) by (auto simp: complete_chunks_def)
      moreover have "l_completePages h3 j = l_completePages h j - (if f \<in> complete_chunks h C j then 1 else 0)"
        using S(6) mem by simp
      moreover have "card (complete_chunks h C j - {f}) = card (complete_chunks h C j) - (if f \<in> complete_chunks h C j then 1 else 0)"
        by (simp add: card_Diff_singleton_if)
      moreover have "f \<in> complete_chunks h C j \<Longrightarrow> 0 < card (complete_chunks h C j)" using fin by (auto simp: card_gt_0_iff)
      ultimately show ?thesis using heap_okD(5,6) [OF ok j] by (cases "f \<in> complete_chunks h C j") simp_all
    qed
  qed
  have right: "rights h3 f \<noteq> 0 \<longrightarrow> classes h3 (rights h3 f) = - 1"
    using heap_okD(4) [OF ok f(1)] fneg by (auto simp: S cls)
  have lv: "live h C f = None" "(live h3 C)(f := None) = live h C" "classes h3 f = - 1"
    using fneg by (auto simp: live_def S cls fun_eq_iff)
  show ?thesis
    by (intro exI conjI) (fact h2(1), fact h3_def, fact ok3, fact lv(3), fact S(1), fact S(5), fact right, fact lv(1), fact lv(2))
qed

lemma kmalloc_carve_live:
  assumes c: "heap_ok {x} h C blk B" "x \<in> C" "classes h x = - 1" "unat sz + 32 \<le> unat (sizes h x)"
      "rights h x \<noteq> 0 \<longrightarrow> classes h (rights h x) = - 1" and lv: "(live h C)(x := None) = lv"
    and P: "pages_ok L Z (hmachine h) B" "unat (TotalMemory (memManData (hmachine h)) div PAGE_SIZE) \<le> 786424" "l_initialized h"
  shows "\<exists>h'. kmalloc_carve sz x h = Some (x + sizeof_tag, h') \<and> x + sizeof_tag \<noteq> 0 \<and>
    schedulerEnabled (hsched h') \<and> heap_inv L Z h' (lv(x \<mapsto> sz))"
proof -
  obtain h' C' blk' where h': "kmalloc_carve sz x h = Some (x + sizeof_tag, liballoc_unlock h')" "heap_ok {} h' C' blk' B"
      "live h' C' = (live h C)(x \<mapsto> sz)" "same_rest h h'"
    using carve_ok [OF c] by blast
  have "(live h C)(x \<mapsto> sz) = lv(x \<mapsto> sz)" using lv by (metis fun_upd_upd)
  then have "heap_inv L Z h' (lv(x \<mapsto> sz))"
    unfolding heap_inv_def using h'(2-4) P
    by (intro conjI exI [of _ C'] exI [of _ blk'] exI [of _ B]) (simp_all add: same_rest_def)
  moreover have "unat x + unat (sizes h x) \<le> 0x40000000" by (rule tiling_bounds(1) [OF heap_okD(1) [OF c(1)] c(2)])
  then have "unat (x + sizeof_tag) = unat x + 32" using c(4) by (simp add: unat_word_ariths)
  then have "x + sizeof_tag \<noteq> 0" by auto
  ultimately show ?thesis using h'(1) by (auto simp: heap_inv_lock)
qed

text \<open>\<open>kmalloc\<close> after the search of the free list found nothing: a new block of pages.\<close>

lemma new_tag_live:
  assumes ok: "heap_ok {} h C blk B" and P: "pages_ok L Z (hmachine h) B"
    and T: "unat (TotalMemory (memManData (hmachine h)) div PAGE_SIZE) \<le> 786424" and init: "l_initialized h"
    and sz: "unat sz \<le> 0x3FFFFFE0"
  shows "\<exists>a h2. allocate_new_tag L sz h = Some (a, h2) \<and>
    (if a = 0 then l_initialized h2 \<and> heap_inv L Z h2 (live h C) \<and>
        (\<exists>s. memoryAllocate (kernelPageDirectory L) (new_block_pages sz * PAGE_SIZE) False (hmachine h) = Some (0, s))
      else live h C a = None \<and>
    (\<exists>h'. kmalloc_carve sz a h2 = Some (a + sizeof_tag, h') \<and> a + sizeof_tag \<noteq> 0 \<and>
      schedulerEnabled (hsched h') \<and> heap_inv L Z h' ((live h C)(a \<mapsto> sz))))"
proof -
  obtain n where n: "new_block_pages sz = of_nat n" "16 \<le> n" "n * 4096 \<le> 0x40000000" "unat sz + 32 \<le> n * 4096"
    using new_block_pages_bounds [OF sz] by blast
  have Tn: "unat (TotalMemory (memManData (hmachine h)) div PAGE_SIZE) + n \<le> 1048568" using T n(3) by simp
  obtain a s where a: "memoryAllocate (kernelPageDirectory L) (of_nat n * 4096) False (hmachine h) = Some (a, s)"
      "TotalMemory (memManData s) = TotalMemory (memManData (hmachine h))"
      "a = 0 \<and> pages_ok L Z s B \<or> a \<noteq> 0 \<and> (a, n) \<notin> B \<and> pages_ok L Z s (insert (a, n) B)"
    using page_source_alloc [OF P n(2,3) Tn] by blast
  define h2 where "h2 = upd_tag a (\<lambda>_. \<lparr>magic = LIBALLOC_MAGIC, tag_size = sz, real_size = of_nat (n * 4096),
              tag_index = - 1, split_left = 0, split_right = 0, tag_next = 0, tag_prev = 0\<rparr>) (h\<lparr>hmachine := s\<rparr>)"
  have run: "allocate_new_tag L sz h = Some (a, if a = 0 then h\<lparr>hmachine := s\<rparr> else h2)"
    using a(1) by (simp add: allocate_new_tag_def liballoc_alloc_def n(1) h2_def)
  show ?thesis
  proof (cases "a = 0")
    case True
    have "heap_inv L Z (h\<lparr>hmachine := s\<rparr>) (live h C)"
      unfolding heap_inv_def using T a(2,3) True ok init heap_ok_fields_cong [of "h\<lparr>hmachine := s\<rparr>" h]
      by (intro conjI exI [of _ C] exI [of _ blk] exI [of _ B]) simp_all
    then show ?thesis using run True init a(1) n(1) by simp
  next
    case False
    then have Pa: "pages_ok L Z s (insert (a, n) B)" "(a, n) \<notin> B" using a(3) by auto
    note nb = new_block_ok [OF ok Pa False h2_def]
    have un: "unat (of_nat (n * 4096) :: u32) = n * 4096" using n(3) by (intro unat_of_nat32) simp
    have room: "unat sz + 32 \<le> unat (sizes h2 a)" using nb n(4) un by simp
    have rest: "hmachine h2 = s" "l_initialized h2" using init by (simp_all add: h2_def)
    have "live h C a = None" using nb by (simp add: live_def)
    then show ?thesis
      using kmalloc_carve_live [OF _ _ _ room, of "insert a C" "blk(a := (a, n))" "insert (a, n) B" "live h C" L]
        run False nb rest Pa(1) a(2) T by auto
  qed
qed

lemma heap_inv_used: "heap_inv L Z h (lv(x \<mapsto> n)) \<Longrightarrow> l_initialized h"
  unfolding heap_inv_def by (auto dest!: fun_cong [of _ _ x] simp: live_def split: if_splits)

lemma kmalloc_live:
  assumes inv: "heap_inv L Z h0 lv" and sz: "unat sz \<le> 0x3FFFFFE0"
  shows "\<exists>p h'. kmalloc L sz h0 = Some (p, h') \<and> schedulerEnabled (hsched h') \<and> l_initialized h' \<and>
    (p = 0 \<and> heap_inv L Z h' lv \<and>
        (\<exists>s. memoryAllocate (kernelPageDirectory L) (new_block_pages sz * PAGE_SIZE) False (hmachine h0) = Some (0, s)) \<or>
     (\<exists>x. p = x + sizeof_tag \<and> p \<noteq> 0 \<and> lv x = None \<and> heap_inv L Z h' (lv(x \<mapsto> sz))))"
proof -
  define h where "h = kmalloc_init (liballoc_lock h0)"
  have init: "heap_inv L Z h lv" "l_initialized h" using heap_inv_init [of L Z "liballoc_lock h0"] inv heap_inv_lock by (simp_all add: h_def)
  obtain C blk B where T: "unat (TotalMemory (memManData (hmachine h)) div PAGE_SIZE) \<le> 786424"
      and P: "pages_ok L Z (hmachine h) B" and lv: "lv = live h C" and ok: "heap_ok {} h C blk B"
    using init unfolding heap_inv_def by auto
  define i where "i = bin_of sz"
  have i: "in_bins i" by (simp add: i_def bin_of_in_bins)
  obtain xs where xs: "dll (nexts h) (prevs h) 0 (l_freePages h i) xs" "set xs = {y \<in> C. classes h y = i}"
    using heap_okD(2) [OF ok] i unfolding free_lists_def by blast
  let ?fits = "\<lambda>x. sz + sizeof_tag \<le> real_size (tags h x) - sizeof_tag"
  note search = find_tag_dll [OF xs(1), of sz]
  note kmalloc_h = kmalloc_def Let_def h_def [symmetric] bin_of_def [symmetric] i_def [symmetric]
  show ?thesis
  proof (cases "find ?fits xs")
    case (Some f)
    then have "f \<in> set xs" "?fits f" by (auto simp: find_Some_iff)
    then have f: "f \<in> C" "classes h f = i" "?fits f" using xs(2) by auto
    have f0: "f \<noteq> 0" by (rule tiling_bounds(3) [OF heap_okD(1) [OF ok] f(1)])
    obtain h2 h3 where h3: "remove_tag f h = Some h2"
        "h3 = (if lefts h2 f = 0 \<and> rights h2 f = 0
          then h2\<lparr>l_completePages := (l_completePages h2)(i := l_completePages h2 i - 1)\<rparr> else h2)"
        "heap_ok {f} h3 C blk B" "classes h3 f = - 1" "sizes h3 f = sizes h f" "same_rest h h3"
        "rights h3 f \<noteq> 0 \<longrightarrow> classes h3 (rights h3 f) = - 1" "live h C f = None" "(live h3 C)(f := None) = live h C"
      using take_heap_ok [OF ok f(1,2) i] by (elim exE conjE) (rule that)
    have "kmalloc L sz h0 = kmalloc_carve sz f h3"
      unfolding kmalloc_h using search Some f0 h3(1) by (simp add: h3(2))
    moreover have "unat sz + 64 \<le> unat (sizes h f)"
      using f(3) sz tiling_bounds(2) [OF heap_okD(1) [OF ok] f(1)] by (simp add: word_le_nat_alt unat_word_ariths unat_sub_if')
    ultimately show ?thesis
      using kmalloc_carve_live [OF h3(3) f(1) h3(4) _ h3(7,9), of sz L Z] h3(5,6,8) lv P T init(2)
      by (auto simp: same_rest_def intro: heap_inv_used)
  next
    case None
    obtain a h2 where a: "allocate_new_tag L sz h = Some (a, h2)"
        "if a = 0 then l_initialized h2 \<and> heap_inv L Z h2 lv \<and>
           (\<exists>s. memoryAllocate (kernelPageDirectory L) (new_block_pages sz * PAGE_SIZE) False (hmachine h) = Some (0, s))
         else lv a = None \<and>
         (\<exists>h'. kmalloc_carve sz a h2 = Some (a + sizeof_tag, h') \<and> a + sizeof_tag \<noteq> 0 \<and>
           schedulerEnabled (hsched h') \<and> heap_inv L Z h' (lv(a \<mapsto> sz)))"
      using new_tag_live [OF ok P T init(2) sz] lv by blast
    have "kmalloc L sz h0 = (if a = 0 then Some (0, liballoc_unlock h2) else kmalloc_carve sz a h2)"
      unfolding kmalloc_h using search None a(1) by simp
    moreover have "hmachine h = hmachine h0" by (simp add: h_def kmalloc_init_def)
    ultimately show ?thesis using a(2) by (cases "a = 0") (auto simp: heap_inv_lock intro: heap_inv_used)
  qed
qed

section \<open>The contract of an allocator\<close>

text \<open>
  A client keeps what it was given and may hand any of it back, in any order. \<open>client\<close> runs a list
  of requests; \<open>Put k\<close> gives back the \<open>k\<close>-th of the blocks it holds. A null pointer is not kept.
\<close>

datatype request = Get u32 | Put nat

fun client ::
  "(u32 \<Rightarrow> 's \<Rightarrow> (addr \<times> 's) option) \<Rightarrow> (addr \<Rightarrow> 's \<Rightarrow> 's option) \<Rightarrow> request list \<Rightarrow> (addr \<times> u32) list \<Rightarrow> 's \<Rightarrow>
   ((addr \<times> u32) list \<times> 's) option" where
  "client get put [] held s = Some (held, s)"
| "client get put (Get n # rs) held s =
     do { (p, s') \<leftarrow> get n s; client get put rs (if p = 0 then held else (p, n) # held) s' }"
| "client get put (Put k # rs) held s =
     (if k < length held then do { s' \<leftarrow> put (fst (held ! k)) s; client get put rs (take k held @ drop (Suc k) held) s' }
      else client get put rs held s)"

definition payload :: "addr \<times> u32 \<Rightarrow> nat set" where
  "payload pn = {unat (fst pn) ..< unat (fst pn) + unat (snd pn)}"

locale allocator =
  fixes get :: "u32 \<Rightarrow> 's \<Rightarrow> (addr \<times> 's) option" and put :: "addr \<Rightarrow> 's \<Rightarrow> 's option"
    and inv :: "'s \<Rightarrow> (addr \<rightharpoonup> u32) \<Rightarrow> bool" and fits :: "u32 \<Rightarrow> bool"
  assumes get_ok: "inv s lv \<Longrightarrow> fits n \<Longrightarrow>
      \<exists>p s'. get n s = Some (p, s') \<and> (p = 0 \<and> inv s' lv \<or> p \<noteq> 0 \<and> lv p = None \<and> inv s' (lv(p \<mapsto> n)))"
    and put_ok: "inv s lv \<Longrightarrow> lv p = Some n \<Longrightarrow> \<exists>s'. put p s = Some s' \<and> inv s' (lv(p := None))"
    and apart: "inv s lv \<Longrightarrow> lv p = Some n \<Longrightarrow> lv q = Some m \<Longrightarrow> p \<noteq> q \<Longrightarrow> payload (p, n) \<inter> payload (q, m) = {}"
begin

lemma held_remove:
  assumes "distinct (map fst held)" and "k < length held"
  shows "map_of held (fst (held ! k)) = Some (snd (held ! k))"
    and "map_of (take k held @ drop (Suc k) held) = (map_of held)(fst (held ! k) := None)"
    and "distinct (map fst (take k held @ drop (Suc k) held))"
proof -
  obtain us x vs where h: "held = us @ x # vs" "length us = k" "held ! k = x"
    using assms(2) id_take_nth_drop [of k held] by (metis length_take min.absorb4)
  have d: "distinct (map fst us)" "distinct (map fst vs)" "fst x \<notin> fst ` set us" "fst x \<notin> fst ` set vs"
      "fst ` set us \<inter> fst ` set vs = {}"
    using assms(1) by (auto simp: h(1))
  have "map_of us (fst x) = None" "map_of vs (fst x) = None" using d(3,4) by (simp_all add: map_of_eq_None_iff)
  then show "map_of held (fst (held ! k)) = Some (snd (held ! k))"
    and "map_of (take k held @ drop (Suc k) held) = (map_of held)(fst (held ! k) := None)"
    using h by (cases x; auto simp: map_add_def fun_eq_iff split: option.split)+
  show "distinct (map fst (take k held @ drop (Suc k) held))" using d h by auto
qed

lemma client_ok:
  assumes "inv s (map_of held)" and "distinct (map fst held)" and "\<forall>n. Get n \<in> set rs \<longrightarrow> fits n"
  shows "\<exists>held' s'. client get put rs held s = Some (held', s') \<and> distinct (map fst held') \<and> inv s' (map_of held')"
  using assms
proof (induction rs arbitrary: held s)
  case (Cons r rs)
  show ?case
  proof (cases r)
    case (Get n)
    obtain p s' where p: "get n s = Some (p, s')"
        "p = 0 \<and> inv s' (map_of held) \<or> p \<noteq> 0 \<and> map_of held p = None \<and> inv s' ((map_of held)(p \<mapsto> n))"
      using get_ok [OF Cons.prems(1), of n] Cons.prems(3) Get by auto
    let ?held = "if p = 0 then held else (p, n) # held"
    have "inv s' (map_of ?held)" "distinct (map fst ?held)" using p(2) Cons.prems(2) by (auto simp: map_of_eq_None_iff)
    then show ?thesis using Cons.IH [of s' ?held] Cons.prems(3) Get p(1) by auto
  next
    case (Put k)
    show ?thesis
    proof (cases "k < length held")
      case True
      note hr = held_remove [OF Cons.prems(2) True]
      obtain s' where s': "put (fst (held ! k)) s = Some s'" "inv s' ((map_of held)(fst (held ! k) := None))"
        using put_ok [OF Cons.prems(1) hr(1)] by blast
      have "\<forall>n. Get n \<in> set rs \<longrightarrow> fits n" using Cons.prems(3) by simp
      from Cons.IH [OF _ hr(3) this, of s', unfolded hr(2), OF s'(2)] show ?thesis using s'(1) Put True by simp
    qed (use Cons Put in auto)
  qed
qed simp

lemma client_apart:
  assumes "inv s (map_of held)" and "distinct (map fst held)" and "\<forall>n. Get n \<in> set rs \<longrightarrow> fits n"
  shows "\<exists>held' s'. client get put rs held s = Some (held', s') \<and>
    (\<forall>i < length held'. \<forall>j < length held'. i \<noteq> j \<longrightarrow> payload (held' ! i) \<inter> payload (held' ! j) = {})"
proof -
  obtain held' s' where h': "client get put rs held s = Some (held', s')" "distinct (map fst held')" "inv s' (map_of held')"
    using client_ok [OF assms] by blast
  have "payload (held' ! i) \<inter> payload (held' ! j) = {}" if ij: "i < length held'" "j < length held'" "i \<noteq> j" for i j
  proof -
    have "fst (held' ! i) \<noteq> fst (held' ! j)" using h'(2) ij by (simp add: distinct_conv_nth)
    then show ?thesis using apart [OF h'(3) held_remove(1) [OF h'(2) ij(1)] held_remove(1) [OF h'(2) ij(2)]] by simp
  qed
  then show ?thesis using h'(1) by blast
qed

end

text \<open>
  The kernel heap keeps the contract: the client's blocks lie behind the tags of the chunks in use. The
  pages \<open>Z\<close> are off limits; mostly none are named.
\<close>

definition heap_live_off :: "layout \<Rightarrow> nat set \<Rightarrow> kheap \<Rightarrow> (addr \<rightharpoonup> u32) \<Rightarrow> bool" where
  "heap_live_off L Z h lv \<longleftrightarrow> heap_inv L Z h (\<lambda>x. lv (x + sizeof_tag))"

definition heap_live :: "layout \<Rightarrow> kheap \<Rightarrow> (addr \<rightharpoonup> u32) \<Rightarrow> bool" where
  "heap_live L = heap_live_off L {}"

lemmas heap_live_defs = heap_live_def heap_live_off_def

lemma heap_payload:
  assumes "heap_inv L Z h lv" and "lv x = Some n"
  shows "\<exists>C blk B. heap_ok {} h C blk B \<and> x \<in> C \<and> payload (x + sizeof_tag, n) \<subseteq> span h x \<and>
    lv = live h C \<and> pages_ok L Z (hmachine h) B"
proof -
  obtain C blk B where c: "pages_ok L Z (hmachine h) B" "lv = live h C" "if l_initialized h then heap_ok {} h C blk B else C = {} \<and> B = {}"
    using assms(1) unfolding heap_inv_def by blast
  have x: "x \<in> C" "classes h x = - 1" "tag_size (tags h x) = n" using assms(2) c(2) by (auto simp: live_def split: if_splits)
  then have ok: "heap_ok {} h C blk B" using c(3) by (auto split: if_splits)
  note tb = tiling_bounds [OF heap_okD(1) [OF ok] x(1)]
  have "unat (x + sizeof_tag) = unat x + 32" using tb(1,2) by (simp add: unat_word_ariths)
  moreover have "unat n + 32 \<le> unat (sizes h x)" using heap_okD(3) [OF ok x(1) _ x(2)] x(3) by simp
  ultimately have "payload (x + sizeof_tag, n) \<subseteq> span h x" by (auto simp: payload_def span_def)
  then show ?thesis using ok x(1) c(1,2) by blast
qed

lemma heap_apart:
  assumes "heap_inv L Z h lv" and "lv x = Some n" and "lv y = Some m" and "x \<noteq> y"
  shows "payload (x + sizeof_tag, n) \<inter> payload (y + sizeof_tag, m) = {}"
proof -
  obtain C blk B where c: "heap_ok {} h C blk B" "x \<in> C" "payload (x + sizeof_tag, n) \<subseteq> span h x" "lv = live h C"
    using heap_payload [OF assms(1,2)] by blast
  have y: "y \<in> C" "classes h y = - 1" "tag_size (tags h y) = m" using assms(3) c(4) by (auto simp: live_def split: if_splits)
  note tb = tiling_bounds [OF heap_okD(1) [OF c(1)] y(1)]
  have "unat (y + sizeof_tag) = unat y + 32" using tb(1,2) by (simp add: unat_word_ariths)
  moreover have "unat m + 32 \<le> unat (sizes h y)" using heap_okD(3) [OF c(1) y(1) _ y(2)] y(3) by simp
  ultimately have "payload (y + sizeof_tag, m) \<subseteq> span h y" by (auto simp: payload_def span_def)
  moreover have "span h x \<inter> span h y = {}" using heap_okD(1) [OF c(1)] c(2) y(1) assms(4) by (simp add: tiling_def)
  ultimately show ?thesis using c(3) by blast
qed

interpretation bounded_heap: allocator "kmalloc L" "kfree L" "heap_live_off L Z" "\<lambda>n. unat n \<le> 0x3FFFFFE0"
proof
  fix s lv and n :: u32
  assume a: "heap_live_off L Z s lv" "unat n \<le> 0x3FFFFFE0"
  have key: "(\<lambda>x. (lv(p \<mapsto> n)) (x + sizeof_tag)) = (\<lambda>x. lv (x + sizeof_tag))(p - sizeof_tag \<mapsto> n)" for p
    by (auto simp: fun_eq_iff)
  from kmalloc_live [OF a(1) [unfolded heap_live_off_def] a(2)]
  show "\<exists>p s'. kmalloc L n s = Some (p, s') \<and>
      (p = 0 \<and> heap_live_off L Z s' lv \<or> p \<noteq> 0 \<and> lv p = None \<and> heap_live_off L Z s' (lv(p \<mapsto> n)))"
    unfolding heap_live_off_def key by fastforce
next
  fix s lv p and n :: u32
  assume a: "heap_live_off L Z s lv" "lv p = Some n"
  have key: "(\<lambda>x. (lv(p := None)) (x + sizeof_tag)) = (\<lambda>x. lv (x + sizeof_tag))(p - sizeof_tag := None)"
    by (auto simp: fun_eq_iff)
  from kfree_live [OF a(1) [unfolded heap_live_off_def], of "p - sizeof_tag" n] a(2)
  show "\<exists>s'. kfree L p s = Some s' \<and> heap_live_off L Z s' (lv(p := None))"
    unfolding heap_live_off_def key by auto
next
  fix s lv p q and n m :: u32
  assume "heap_live_off L Z s lv" "lv p = Some n" "lv q = Some m" "p \<noteq> q"
  then show "payload (p, n) \<inter> payload (q, m) = {}"
    using heap_apart [of L Z s "\<lambda>x. lv (x + sizeof_tag)" "p - sizeof_tag" n "q - sizeof_tag" m] by (simp add: heap_live_off_def)
qed

interpretation kernel_heap: allocator "kmalloc L" "kfree L" "heap_live L" "\<lambda>n. unat n \<le> 0x3FFFFFE0"
  unfolding heap_live_def by (rule bounded_heap.allocator_axioms)

text \<open>Every byte of a block is mapped.\<close>

lemma owned_byte_mapped:
  assumes "pages_ok L Z s B" and "bn \<in> B" and "unat a \<in> block bn"
  shows "xlate s a \<noteq> None"
proof -
  let ?q = "unat (fst bn) div 4096"
  have inv: "mm_inv L (kernelPageDirectory L) s" and own: "owns L s bn" using assms by (auto simp: pages_ok_def)
  have q: "unat (fst bn) = ?q * 4096" "?q + snd bn \<le> 262144" "\<forall>k < snd bn. entry_present (kentry L s (?q + k))"
    using own by (auto simp: owns_def Let_def)
  have "?q * 4096 \<le> unat a" "unat a < (?q + snd bn) * 4096" using assms(3) q(1) by (auto simp: block_def add_mult_distrib)
  then have p: "?q \<le> unat a div 4096" "unat a div 4096 < ?q + snd bn"
    by (simp_all add: div_less_iff_less_mult less_eq_div_iff_mult_less_eq)
  then have "entry_present (kentry L s (unat a div 4096))" using q(3) by (metis le_Suc_ex add_less_cancel_left)
  moreover have "unat a < 0x40000000" using p q(2) by simp
  ultimately show ?thesis using xlate_kernel [of L s a] inv by (simp add: mm_inv_def)
qed

lemma heap_live_empty:
  assumes "mm_inv L (kernelPageDirectory L) (hmachine h)" and "\<not> l_initialized h"
    and "unat (TotalMemory (memManData (hmachine h)) div PAGE_SIZE) \<le> 786424"
  shows "heap_live L h (map_of [])"
proof -
  have "pages_ok L {} (hmachine h) {}" using assms(1) by (simp add: pages_ok_def blocks_ok_def)
  then show ?thesis using assms(2,3) unfolding heap_live_defs heap_inv_def
    by (intro conjI exI [of _ "{}"]) (simp_all add: live_def)
qed

lemma heap_live_mapped:
  assumes "heap_live L h lv" and "lv p = Some n" and "unat a \<in> payload (p, n)"
  shows "xlate (hmachine h) a \<noteq> None"
proof -
  have "heap_inv L {} h (\<lambda>x. lv (x + sizeof_tag))" using assms(1) by (simp add: heap_live_defs)
  from heap_payload [OF this, of "p - sizeof_tag" n] assms(2)
  obtain C blk B where c: "heap_ok {} h C blk B" "p - sizeof_tag \<in> C" "payload (p, n) \<subseteq> span h (p - sizeof_tag)"
      "pages_ok L {} (hmachine h) B" by auto
  have "span h (p - sizeof_tag) \<subseteq> block (blk (p - sizeof_tag))" "blk (p - sizeof_tag) \<in> B"
    using heap_okD(1) [OF c(1)] c(2) by (auto simp: tiling_def chunk_ok_def)
  then show ?thesis using owned_byte_mapped [OF c(4)] c(3) assms(3) by blast
qed

section \<open>Properties\<close>

text \<open>
  Property C8: whatever sequence of \<open>kmalloc\<close> and \<open>kfree\<close> calls a client makes, starting from a heap
  that was never used, every call returns, the blocks it holds never overlap, and every byte of
  them is mapped. The client may hand back any block it holds, in any order; a request is at most
  what the kernel's gigabyte can hold.
\<close>

theorem kmalloc_blocks_apart:
  assumes "mm_inv L (kernelPageDirectory L) (hmachine h)" and "\<not> l_initialized h"
    and "unat (TotalMemory (memManData (hmachine h)) div PAGE_SIZE) \<le> 786424"
    and "\<forall>n. Get n \<in> set rs \<longrightarrow> unat n \<le> 0x3FFFFFE0"
  shows "\<exists>held h'. client (kmalloc L) (kfree L) rs [] h = Some (held, h') \<and>
    (\<forall>i < length held. \<forall>j < length held. i \<noteq> j \<longrightarrow> payload (held ! i) \<inter> payload (held ! j) = {}) \<and>
    (\<forall>i < length held. \<forall>a. unat a \<in> payload (held ! i) \<longrightarrow> xlate (hmachine h') a \<noteq> None)"
proof -
  note empty = heap_live_empty [OF assms(1-3)]
  obtain held h' where h': "client (kmalloc L) (kfree L) rs [] h = Some (held, h')" "distinct (map fst held)" "heap_live L h' (map_of held)"
    using kernel_heap.client_ok [OF empty _ assms(4)] by auto
  have "xlate (hmachine h') a \<noteq> None" if "i < length held" "unat a \<in> payload (held ! i)" for i a
    using heap_live_mapped [OF h'(3) kernel_heap.held_remove(1) [OF h'(2) that(1)]] that(2) by simp
  then show ?thesis using kernel_heap.client_apart [OF empty _ assms(4)] h'(1) by auto
qed

text \<open>
  Property C13: \<open>kmalloc\<close> and \<open>kfree\<close> keep the heap well formed. With \<open>lv\<close> the blocks in use, a request
  gives either a null pointer and the same blocks, or one new block of the size asked for; giving
  back a block in use takes away just that block. The lock is released in every case.
\<close>

theorem kmalloc_kfree_well_formed:
  assumes "heap_live L h lv" and "unat n \<le> 0x3FFFFFE0" and "lv q = Some m"
  shows "(\<exists>p h'. kmalloc L n h = Some (p, h') \<and> schedulerEnabled (hsched h') \<and>
      (if p = 0 then heap_live L h' lv else lv p = None \<and> heap_live L h' (lv(p \<mapsto> n)))) \<and>
    (\<exists>h'. kfree L q h = Some h' \<and> schedulerEnabled (hsched h') \<and> heap_live L h' (lv(q := None)))"
proof -
  have inv: "heap_inv L {} h (\<lambda>x. lv (x + sizeof_tag))" using assms(1) by (simp add: heap_live_defs)
  obtain p h' where p: "kmalloc L n h = Some (p, h')" "schedulerEnabled (hsched h')"
    using kmalloc_live [OF inv assms(2)] by blast
  have "if p = 0 then heap_live L h' lv else lv p = None \<and> heap_live L h' (lv(p \<mapsto> n))"
    using kernel_heap.get_ok [OF assms(1,2)] p(1) by auto
  moreover obtain h'' where f: "kfree L q h = Some h''" "schedulerEnabled (hsched h'')"
    using kfree_live [OF inv, of "q - sizeof_tag" m] assms(3) by auto
  moreover have "heap_live L h'' (lv(q := None))" using kernel_heap.put_ok [OF assms(1,3)] f(1) by auto
  ultimately show ?thesis using p by blast
qed

text \<open>
  A heap with no chunk in use is whole: each list holds whole blocks of pages only, at most
  \<open>MAXCOMPLETE\<close> of them, and the counter of its class says how many.
\<close>

definition whole_heap :: "kheap \<Rightarrow> bool" where
  "whole_heap h \<longleftrightarrow> (\<forall>i. in_bins i \<longrightarrow>
     (\<exists>xs. dll (nexts h) (prevs h) 0 (l_freePages h i) xs \<and> l_completePages h i = int (length xs) \<and> length xs \<le> 5 \<and>
       (\<forall>x \<in> set xs. lefts h x = 0 \<and> rights h x = 0 \<and> (\<exists>n \<ge> 16. unat (sizes h x) = n * 4096))))"

lemma unused_heap_whole:
  assumes "heap_live L h Map.empty" and "l_initialized h"
  shows "whole_heap h"
  unfolding whole_heap_def
proof (intro allI impI)
  fix i assume i: "in_bins i"
  obtain C blk B where c: "heap_ok {} h C blk B" "live h C = Map.empty"
    using assms unfolding heap_live_defs heap_inv_def by auto
  have free: "classes h x \<noteq> - 1" if "x \<in> C" for x using fun_cong [OF c(2), of x] that by (auto simp: live_def)
  have right: "rights h x = 0" if "x \<in> C" for x
    using heap_okD(4) [OF c(1) that] heap_ok_neighbours(1) [OF c(1) that] free [OF that] free [of "rights h x"]
    by (cases "rights h x = 0") auto
  have left: "lefts h x = 0" if "x \<in> C" for x
    using heap_ok_neighbours(2) [OF c(1) that] right [of "lefts h x"] tiling_bounds(3) [OF heap_okD(1) [OF c(1)] that]
    by (cases "lefts h x = 0") auto
  have pages: "\<exists>n \<ge> 16. unat (sizes h x) = n * 4096" if "x \<in> C" for x
    using heap_okD(1) [OF c(1)] that left [OF that] right [OF that] unfolding tiling_def blocks_ok_def chunk_ok_def
    by (intro exI [of _ "snd (blk x)"]) (force simp: image_subset_iff)
  obtain xs where xs: "dll (nexts h) (prevs h) 0 (l_freePages h i) xs" "distinct xs" "set xs = {x \<in> C. classes h x = i}"
    using heap_okD(2) [OF c(1)] i unfolding free_lists_def by blast
  have "complete_chunks h C i = set xs" using left right xs(3) by (auto simp: complete_chunks_def)
  then have "l_completePages h i = int (length xs)" "length xs \<le> 5"
    using heap_okD(5,6) [OF c(1) i] distinct_card [OF xs(2)] by simp_all
  then show "\<exists>xs. dll (nexts h) (prevs h) 0 (l_freePages h i) xs \<and> l_completePages h i = int (length xs) \<and> length xs \<le> 5 \<and>
       (\<forall>x \<in> set xs. lefts h x = 0 \<and> rights h x = 0 \<and> (\<exists>n \<ge> 16. unat (sizes h x) = n * 4096))"
    using xs(1,3) left right pages by blast
qed

lemma kernel_client_initialized:
  assumes "heap_live L h (map_of held)" and "distinct (map fst held)" and "\<forall>n. Get n \<in> set rs \<longrightarrow> unat n \<le> 0x3FFFFFE0"
    and "l_initialized h \<or> (\<exists>n. Get n \<in> set rs)" and "client (kmalloc L) (kfree L) rs held h = Some (held', h')"
  shows "l_initialized h'"
  using assms
proof (induction rs arbitrary: held h)
  case (Cons r rs)
  have fits: "\<forall>n. Get n \<in> set rs \<longrightarrow> unat n \<le> 0x3FFFFFE0" using Cons.prems(3) by simp
  show ?case
  proof (cases r)
    case (Get n)
    then have n: "unat n \<le> 0x3FFFFFE0" using Cons.prems(3) by simp
    obtain p h1 where p: "kmalloc L n h = Some (p, h1)" "l_initialized h1"
      using kmalloc_live [OF Cons.prems(1) [unfolded heap_live_defs] n] by blast
    let ?held = "if p = 0 then held else (p, n) # held"
    have "heap_live L h1 (map_of ?held)" "distinct (map fst ?held)"
      using kernel_heap.get_ok [OF Cons.prems(1) n] p(1) Cons.prems(2) by (auto simp: map_of_eq_None_iff)
    then show ?thesis using Cons.IH [OF _ _ fits] Cons.prems(5) Get p by simp
  next
    case (Put k)
    show ?thesis
    proof (cases "k < length held")
      case True
      note hr = kernel_heap.held_remove [OF Cons.prems(2) True]
      have h1: "\<exists>h1. kfree L (fst (held ! k)) h = Some h1 \<and> l_initialized h1"
        using kfree_live [OF Cons.prems(1) [unfolded heap_live_defs], of "fst (held ! k) - sizeof_tag"] hr(1) by auto
      then obtain h1 where h1: "kfree L (fst (held ! k)) h = Some h1" "l_initialized h1" by blast
      have "heap_live L h1 (map_of (take k held @ drop (Suc k) held))"
        using kernel_heap.put_ok [OF Cons.prems(1) hr(1)] h1(1) hr(2) by auto
      from Cons.IH [OF this hr(3) fits] show ?thesis using Cons.prems(5) Put True h1 by simp
    next
      case False
      then show ?thesis using Cons.IH [OF Cons.prems(1,2) fits] Cons.prems(4,5) Put by simp
    qed
  qed
qed auto

text \<open>The order in which a client gives back everything it holds: at each turn one of the blocks left.\<close>

fun put_order :: "nat list \<Rightarrow> nat \<Rightarrow> bool" where
  "put_order [] n = (n = 0)"
| "put_order (k # ks) n = (k < n \<and> put_order ks (n - 1))"

lemma client_puts_all:
  "put_order ks (length held) \<Longrightarrow> client get put (map Put ks) held s = Some (held', s') \<Longrightarrow> held' = []"
proof (induction ks arbitrary: held s)
  case (Cons k ks)
  then have "put_order ks (length (take k held @ drop (Suc k) held))" by (simp add: min_absorb2)
  from Cons.IH [OF this] Cons.prems show ?case by (auto simp: bind_eq_Some_conv)
qed simp

text \<open>
  Property C21: memory that was given back is whole again. After any sequence of \<open>kmalloc\<close> and \<open>kfree\<close>
  calls on a heap that was never used, with at least one request among them, the client can give
  back all the blocks it still holds, in any order: every \<open>kfree\<close> returns, and then each free list
  holds whole blocks of at least 16 pages only, with no neighbours left to merge, at most five
  of a class, and \<open>l_completePages\<close> says how many.
\<close>

theorem freed_heap_is_whole:
  assumes "mm_inv L (kernelPageDirectory L) (hmachine h)" and "\<not> l_initialized h"
    and "unat (TotalMemory (memManData (hmachine h)) div PAGE_SIZE) \<le> 786424"
    and "\<forall>n. Get n \<in> set rs \<longrightarrow> unat n \<le> 0x3FFFFFE0" and "\<exists>n. Get n \<in> set rs"
  shows "\<exists>held h1. client (kmalloc L) (kfree L) rs [] h = Some (held, h1) \<and>
    (\<forall>ks. put_order ks (length held) \<longrightarrow>
      (\<exists>h2. client (kmalloc L) (kfree L) (map Put ks) held h1 = Some ([], h2) \<and> whole_heap h2))"
proof -
  note empty = heap_live_empty [OF assms(1-3)]
  obtain held h1 where h1: "client (kmalloc L) (kfree L) rs [] h = Some (held, h1)" "distinct (map fst held)" "heap_live L h1 (map_of held)"
    using kernel_heap.client_ok [OF empty _ assms(4)] by auto
  have init: "l_initialized h1"
    using kernel_client_initialized [OF empty _ assms(4) _ h1(1)] assms(5) by simp
  have "\<exists>h2. client (kmalloc L) (kfree L) (map Put ks) held h1 = Some ([], h2) \<and> whole_heap h2"
    if "put_order ks (length held)" for ks
  proof -
    have fits: "\<forall>n. Get n \<in> set (map Put ks) \<longrightarrow> unat n \<le> 0x3FFFFFE0" by auto
    obtain held' h2 where h2: "client (kmalloc L) (kfree L) (map Put ks) held h1 = Some (held', h2)" "heap_live L h2 (map_of held')"
      using kernel_heap.client_ok [OF h1(3,2) fits] by blast
    have "held' = []" by (rule client_puts_all [OF that h2(1)])
    then show ?thesis
      using h2 unused_heap_whole [of L h2] kernel_client_initialized [OF h1(3,2) fits _ h2(1)] init by simp
  qed
  then show ?thesis using h1(1) by blast
qed

text \<open>
  \<open>getexp\<close> keeps its documented contract: for a size of at least \<open>2 ^ MINEXP\<close> it is the
  \<open>n\<close> with \<open>2 ^ n \<le> size < 2 ^ (n + 1)\<close>, below \<open>MAXEXP\<close>; for a smaller one it is -1.
\<close>

theorem getexp_contract:
  "(sz < 256 \<longrightarrow> getexp sz = - 1) \<and>
   (256 \<le> sz \<longrightarrow> getexp sz \<in> {MINEXP ..< MAXEXP} \<and> 2 ^ nat (getexp sz) \<le> unat sz \<and> unat sz < 2 ^ (nat (getexp sz) + 1))"
proof -
  have "sz < 256 \<Longrightarrow> getexp sz = - 1" by (simp add: getexp_def)
  moreover have "256 \<le> sz \<Longrightarrow> \<not> sz < 256" by simp
  ultimately show ?thesis using getexp_range [of sz] by auto
qed

definition boot_heap :: kheap where
  "boot_heap = \<lparr>tags = (\<lambda>_. \<lparr>magic = 0, tag_size = 0, real_size = 0, tag_index = 0, split_left = 0, split_right = 0,
       tag_next = 0, tag_prev = 0\<rparr>), l_freePages = (\<lambda>_. 0), l_completePages = (\<lambda>_. 0), l_initialized = False,
     hmachine = boot_machine, hsched = booted\<rparr>"

lemma boot_heap_facts:
  "mm_inv boot_layout (kernelPageDirectory boot_layout) (hmachine boot_heap)" "\<not> l_initialized boot_heap"
  "unat (TotalMemory (memManData (hmachine boot_heap)) div PAGE_SIZE) \<le> 786424"
  using boot_inv by (simp_all add: boot_heap_def boot_layout_def boot_machine_def)

lemma boot_heap_pages:
  "\<exists>a s. memoryAllocate (kernelPageDirectory boot_layout) 0x10000 False (hmachine boot_heap) = Some (a, s) \<and> a \<noteq> 0"
proof -
  have "num_pages 0x10000 = 16" by (simp add: num_pages_def)
  moreover have "boot_machine\<lparr>interrupts := True\<rparr> = boot_machine" by (simp add: boot_machine_def)
  ultimately show ?thesis using boot_succeeds [of "0x10000" True] by (auto simp: boot_heap_def boot_layout_def)
qed

lemma carve_result: "kmalloc_carve sz x h = Some (p, h') \<Longrightarrow> p = x + sizeof_tag"
  by (auto simp: kmalloc_carve_def Let_def bind_eq_Some_conv)

text \<open>The first request, of 100 bytes, on a heap that was never used.\<close>

lemma boot_heap_serves:
  "\<exists>p h'. kmalloc boot_layout 100 boot_heap = Some (p, h') \<and> p \<noteq> 0 \<and> heap_live boot_layout h' [p \<mapsto> 100]"
proof -
  have live: "heap_live boot_layout boot_heap (map_of [])" by (rule heap_live_empty [OF boot_heap_facts])
  obtain a s where a: "memoryAllocate (kernelPageDirectory boot_layout) 0x10000 False (hmachine boot_heap) = Some (a, s)" "a \<noteq> 0"
    using boot_heap_pages by blast
  let ?h = "kmalloc_init (liballoc_lock boot_heap)"
  have "find_tag ?h 100 0 = Some 0" by (subst find_tag.simps) simp
  moreover have "new_block_pages 100 = 16" by (simp add: new_block_pages_def)
  ultimately have run: "\<exists>h2. kmalloc boot_layout 100 boot_heap = kmalloc_carve 100 a h2"
    using a boot_heap_facts(2) by (simp add: kmalloc_def Let_def kmalloc_init_def allocate_new_tag_def liballoc_alloc_def)
      (rule exI, rule refl)
  obtain p h' where p: "kmalloc boot_layout 100 boot_heap = Some (p, h')"
      "p = 0 \<and> heap_live boot_layout h' (map_of []) \<or> p \<noteq> 0 \<and> heap_live boot_layout h' ((map_of [])(p \<mapsto> 100))"
    using kernel_heap.get_ok [OF live, of 100] by auto
  have pa: "p = a + 32" using run p(1) carve_result by metis
  have "p \<noteq> 0"
  proof
    assume "p = 0"
    then have "a = - 32" using pa by (simp add: eq_neg_iff_add_eq_0)
    moreover have "\<exists>q. a = of_nat q * 4096"
      using boot_succeeds [of "0x10000" True] a(1) by (auto simp: num_pages_def boot_heap_def boot_layout_def boot_machine_def)
    ultimately obtain q where q: "of_nat q * 4096 = (- 32 :: u32)" by metis
    have "take_bit 12 (push_bit 12 (of_nat q :: u32)) = 0" by (simp add: take_bit_push_bit)
    moreover have "push_bit 12 (of_nat q :: u32) = of_nat q * 4096" by (simp add: push_bit_eq_mult)
    ultimately have "take_bit 12 (- 32 :: u32) = 0" using q by (simp only:)
    then show False by simp
  qed
  then show ?thesis using p by auto
qed

theorem kmalloc_blocks_apart_witness:
  "\<exists>held h'. client (kmalloc boot_layout) (kfree boot_layout) [Get 100, Get 5000, Put 1, Get 70000] [] boot_heap = Some (held, h') \<and>
    (\<forall>i < length held. \<forall>j < length held. i \<noteq> j \<longrightarrow> payload (held ! i) \<inter> payload (held ! j) = {}) \<and>
    (\<forall>i < length held. \<forall>a. unat a \<in> payload (held ! i) \<longrightarrow> xlate (hmachine h') a \<noteq> None)"
  by (rule kmalloc_blocks_apart [OF boot_heap_facts]) auto

theorem kmalloc_kfree_well_formed_witness:
  "\<exists>q h. kmalloc boot_layout 100 boot_heap = Some (q, h) \<and> q \<noteq> 0 \<and>
    (\<exists>p h'. kmalloc boot_layout 200 h = Some (p, h') \<and> schedulerEnabled (hsched h') \<and>
      (if p = 0 then heap_live boot_layout h' [q \<mapsto> 100] else [q \<mapsto> (100 :: u32)] p = None \<and> heap_live boot_layout h' [q \<mapsto> 100, p \<mapsto> 200])) \<and>
    (\<exists>h'. kfree boot_layout q h = Some h' \<and> schedulerEnabled (hsched h') \<and> heap_live boot_layout h' ([q \<mapsto> 100](q := None)))"
proof -
  obtain q h where q: "kmalloc boot_layout 100 boot_heap = Some (q, h)" "q \<noteq> 0" "heap_live boot_layout h [q \<mapsto> 100]"
    using boot_heap_serves by blast
  have "unat (200 :: u32) \<le> 0x3FFFFFE0" "[q \<mapsto> 100] q = Some (100 :: u32)" by simp_all
  from kmalloc_kfree_well_formed [OF q(3) this] q(1,2) show ?thesis by blast
qed


theorem freed_heap_is_whole_witness:
  "\<exists>held h1. client (kmalloc boot_layout) (kfree boot_layout) [Get 100, Get 5000, Put 1, Get 70000] [] boot_heap = Some (held, h1) \<and>
    (\<exists>h2. client (kmalloc boot_layout) (kfree boot_layout) (map Put (replicate (length held) 0)) held h1 = Some ([], h2) \<and>
      whole_heap h2)"
proof -
  have order: "put_order (replicate n 0) n" for n by (induction n) simp_all
  have "\<forall>n. Get n \<in> set [Get 100, Get 5000, Put 1, Get 70000] \<longrightarrow> unat n \<le> 0x3FFFFFE0"
    "\<exists>n. Get n \<in> set [Get 100, Get 5000, Put 1, Get 70000]" by auto
  from freed_heap_is_whole [OF boot_heap_facts this] order show ?thesis by blast
qed

text \<open>
  Property C32: a request of \<open>0xFFFFFFE0\<close> bytes, 32 below the address space, is not refused. Its size
  with the tag wraps to 0, so the smallest block is enough for it; the remainder that is split off
  starts at the chunk itself, and the block that is returned hangs in a free list at the same time,
  with no size left.
\<close>

theorem kmalloc_size_wraps:
  assumes "\<not> l_initialized h" and "a \<noteq> 0"
    and "memoryAllocate (kernelPageDirectory L) 0x10000 False (hmachine h) = Some (a, s)"
  shows "\<exists>h'. kmalloc L 0xFFFFFFE0 h = Some (a + 32, h') \<and> l_freePages h' 31 = a \<and> sizes h' a = 0"
proof -
  have g: "getexp 0xFFFFFFE0 = 31" "getexp 0xFFE0 = 15"
    by (simp_all add: getexp_def getexp_loop.simps)
  have neg: "(- 32 :: u32) = 0xFFFFFFE0" "(- 4294901792 :: u32) = 0xFFE0" by simp_all
  let ?h = "kmalloc_init (liballoc_lock h)"
  have "find_tag ?h 0xFFFFFFE0 0 = Some 0" by (subst find_tag.simps) simp
  moreover have "new_block_pages 0xFFFFFFE0 = 16" by (simp add: new_block_pages_def)
  ultimately have run: "kmalloc L 0xFFFFFFE0 h = kmalloc_carve 0xFFFFFFE0 a
      (upd_tag a (\<lambda>_. \<lparr>magic = LIBALLOC_MAGIC, tag_size = 0xFFFFFFE0, real_size = 0x10000,
         tag_index = - 1, split_left = 0, split_right = 0, tag_next = 0, tag_prev = 0\<rparr>) (?h\<lparr>hmachine := s\<rparr>))"
    using assms g(1) by (simp add: kmalloc_def Let_def kmalloc_init_def allocate_new_tag_def liballoc_alloc_def)
  show ?thesis
    unfolding run using assms(1,2) g
    by (simp add: kmalloc_carve_def split_tag_def insert_tag_def Let_def in_bins_def kmalloc_init_def upd_tag_apply neg)
qed

theorem kmalloc_size_wraps_witness:
  "\<exists>a h'. kmalloc boot_layout 0xFFFFFFE0 boot_heap = Some (a + 32, h') \<and> l_freePages h' 31 = a \<and> sizes h' a = 0"
  using boot_heap_pages kmalloc_size_wraps [OF boot_heap_facts(2)] by blast

theorem getexp_contract_witness:
  "getexp 300 \<in> {MINEXP ..< MAXEXP} \<and> 2 ^ nat (getexp 300) \<le> unat (300 :: u32) \<and> unat (300 :: u32) < 2 ^ (nat (getexp 300) + 1)"
  using getexp_contract [of 300] by simp

end
