(* ===== verification/Newlib_String.thy ===== *)
theory Newlib_String
  imports Prelude "HOL-Library.While_Combinator" "HOL-Library.Monad_Syntax"
begin

text \<open>
  The string routines of the C library that programs for the kernel are linked with
  (\<open>newlib/libc/string\<close>), for a 32-bit little-endian \<open>long\<close>. Each file holds two versions of its
  routine, chosen by the preprocessor: a plain loop over bytes, here with the suffix \<open>_small\<close>, and one
  that works a word at a time. A C loop is \<^const>\<open>while_option\<close> on the variables it changes, a
  \<open>return\<close> or \<open>break\<close> inside it ends the loop and is told apart afterwards; \<open>None\<close> is a loop
  that does not end. Pointers are addresses, 0 is the null pointer.
\<close>

section \<open>Definitions\<close>

subsection \<open>The macros\<close>

definition UNALIGNED :: "addr \<Rightarrow> bool" where
  "UNALIGNED x \<longleftrightarrow> x AND 3 \<noteq> 0"

definition UNALIGNED2 :: "addr \<Rightarrow> addr \<Rightarrow> bool" where
  "UNALIGNED2 x y \<longleftrightarrow> (x AND 3) OR (y AND 3) \<noteq> 0"

abbreviation (input) LBLOCKSIZE :: u32 where "LBLOCKSIZE \<equiv> 4"
abbreviation (input) BIGBLOCKSIZE :: u32 where "BIGBLOCKSIZE \<equiv> 16"

definition DETECTNULL :: "u32 \<Rightarrow> u32" where
  "DETECTNULL x = (x - 0x01010101) AND NOT x AND 0x80808080"

definition DETECTCHAR :: "u32 \<Rightarrow> u32 \<Rightarrow> u32" where
  "DETECTCHAR x msk = DETECTNULL (x XOR msk)"

text \<open>The word filled with one byte: \<open>d << 8 | d\<close>, then \<open>mask << 16 | mask\<close>.\<close>

definition fill_mask :: "u8 \<Rightarrow> u32" where
  "fill_mask d =
     (let msk = push_bit 8 (ucast d) OR ucast d in push_bit 16 msk OR msk)"

text \<open>Copying one byte and one word, with and without a count.\<close>

definition copy1 :: "memory \<times> addr \<times> addr \<Rightarrow> memory \<times> addr \<times> addr" where
  "copy1 = (\<lambda>(m, d, s). (m(d := m s), d + 1, s + 1))"

definition copy_long :: "memory \<times> addr \<times> addr \<Rightarrow> memory \<times> addr \<times> addr" where
  "copy_long = (\<lambda>(m, d, s). (store32 m d (load32 m s), d + 4, s + 4))"

definition copy1n :: "memory \<times> addr \<times> addr \<times> u32 \<Rightarrow> memory \<times> addr \<times> addr \<times> u32" where
  "copy1n = (\<lambda>(m, d, s, n). (m(d := m s), d + 1, s + 1, n - 1))"

definition copy_longn :: "memory \<times> addr \<times> addr \<times> u32 \<Rightarrow> memory \<times> addr \<times> addr \<times> u32" where
  "copy_longn = (\<lambda>(m, d, s, n). (store32 m d (load32 m s), d + 4, s + 4, n - 4))"

definition copy_bytes :: "memory \<times> addr \<times> addr \<times> u32 \<Rightarrow> (memory \<times> addr \<times> addr \<times> u32) option" where
  "copy_bytes = while_option (\<lambda>(m, d, s, n). n \<noteq> 0) copy1n"

text \<open>Words while 16 bytes are left (four of them in a turn), then while 4 bytes are left.\<close>

definition copy_blocks :: "memory \<times> addr \<times> addr \<times> u32 \<Rightarrow> (memory \<times> addr \<times> addr \<times> u32) option" where
  "copy_blocks st =
     do {
       st1 \<leftarrow> while_option (\<lambda>(m, d, s, n). BIGBLOCKSIZE \<le> n) (copy_longn \<circ> copy_longn \<circ> copy_longn \<circ> copy_longn) st;
       while_option (\<lambda>(m, d, s, n). LBLOCKSIZE \<le> n) copy_longn st1
     }"

subsection \<open>memcpy, mempcpy, memmove, memset\<close>

definition memcpy_small :: "memory \<Rightarrow> addr \<Rightarrow> addr \<Rightarrow> u32 \<Rightarrow> (addr \<times> memory) option" where
  "memcpy_small m dst0 src0 len0 =
     do { (m1, _, _, _) \<leftarrow> copy_bytes (m, dst0, src0, len0); Some (dst0, m1) }"

definition memcpy_newlib :: "memory \<Rightarrow> addr \<Rightarrow> addr \<Rightarrow> u32 \<Rightarrow> (addr \<times> memory) option" where
  "memcpy_newlib m dst0 src0 len0 =
     do {
       st \<leftarrow> (if \<not> len0 < BIGBLOCKSIZE \<and> \<not> UNALIGNED2 src0 dst0
             then copy_blocks (m, dst0, src0, len0) else Some (m, dst0, src0, len0));
       (m1, _, _, _) \<leftarrow> copy_bytes st;
       Some (dst0, m1)
     }"

definition mempcpy_small :: "memory \<Rightarrow> addr \<Rightarrow> addr \<Rightarrow> u32 \<Rightarrow> (addr \<times> memory) option" where
  "mempcpy_small m dst0 src0 len0 =
     do { (m1, dst, _, _) \<leftarrow> copy_bytes (m, dst0, src0, len0); Some (dst, m1) }"

definition mempcpy :: "memory \<Rightarrow> addr \<Rightarrow> addr \<Rightarrow> u32 \<Rightarrow> (addr \<times> memory) option" where
  "mempcpy m dst0 src0 len0 =
     do {
       st \<leftarrow> (if \<not> len0 < BIGBLOCKSIZE \<and> \<not> UNALIGNED2 src0 dst0
             then copy_blocks (m, dst0, src0, len0) else Some (m, dst0, src0, len0));
       (m1, dst, _, _) \<leftarrow> copy_bytes st;
       Some (dst, m1)
     }"

definition copy_backwards :: "memory \<times> addr \<times> addr \<times> u32 \<Rightarrow> (memory \<times> addr \<times> addr \<times> u32) option" where
  "copy_backwards =
     while_option (\<lambda>(m, d, s, n). n \<noteq> 0) (\<lambda>(m, d, s, n). (m(d - 1 := m (s - 1)), d - 1, s - 1, n - 1))"

definition memmove_small :: "memory \<Rightarrow> addr \<Rightarrow> addr \<Rightarrow> u32 \<Rightarrow> (addr \<times> memory) option" where
  "memmove_small m dst src len =
     do {
       (m1, _, _, _) \<leftarrow>
         (if src < dst \<and> dst < src + len then copy_backwards (m, dst + len, src + len, len)
          else copy_bytes (m, dst, src, len));
       Some (dst, m1)
     }"

definition memmove_newlib :: "memory \<Rightarrow> addr \<Rightarrow> addr \<Rightarrow> u32 \<Rightarrow> (addr \<times> memory) option" where
  "memmove_newlib m dst src len =
     do {
       (m1, _, _, _) \<leftarrow>
         (if src < dst \<and> dst < src + len then copy_backwards (m, dst + len, src + len, len)
          else do {
            st \<leftarrow> (if \<not> len < BIGBLOCKSIZE \<and> \<not> UNALIGNED2 src dst
                  then copy_blocks (m, dst, src, len) else Some (m, dst, src, len));
            copy_bytes st
          });
       Some (dst, m1)
     }"

definition set1 :: "u8 \<Rightarrow> memory \<times> addr \<times> u32 \<Rightarrow> memory \<times> addr \<times> u32" where
  "set1 c = (\<lambda>(m, s, n). (m(s := c), s + 1, n - 1))"

definition set_long :: "u32 \<Rightarrow> memory \<times> addr \<times> u32 \<Rightarrow> memory \<times> addr \<times> u32" where
  "set_long buffer = (\<lambda>(m, s, n). (store32 m s buffer, s + 4, n - 4))"

definition set_bytes :: "u8 \<Rightarrow> memory \<times> addr \<times> u32 \<Rightarrow> (memory \<times> addr \<times> u32) option" where
  "set_bytes c = while_option (\<lambda>(m, s, n). n \<noteq> 0) (set1 c)"

definition set_blocks :: "u32 \<Rightarrow> memory \<times> addr \<times> u32 \<Rightarrow> (memory \<times> addr \<times> u32) option" where
  "set_blocks buffer st =
     do {
       st1 \<leftarrow> while_option (\<lambda>(m, s, n). LBLOCKSIZE * 4 \<le> n)
               (set_long buffer \<circ> set_long buffer \<circ> set_long buffer \<circ> set_long buffer) st;
       while_option (\<lambda>(m, s, n). LBLOCKSIZE \<le> n) (set_long buffer) st1
     }"

definition memset_small :: "memory \<Rightarrow> addr \<Rightarrow> u32 \<Rightarrow> u32 \<Rightarrow> (addr \<times> memory) option" where
  "memset_small m p c n = do { (m1, _, _) \<leftarrow> set_bytes (ucast c) (m, p, n); Some (p, m1) }"

definition memset_newlib :: "memory \<Rightarrow> addr \<Rightarrow> u32 \<Rightarrow> u32 \<Rightarrow> (addr \<times> memory) option" where
  "memset_newlib m p c n =
     (let ch = ucast c :: u8; d = c AND 0xff
      in do {
        (m1, s, n1) \<leftarrow> while_option (\<lambda>(m, s, n). UNALIGNED s \<and> n \<noteq> 0) (set1 ch) (m, p, n);
        if UNALIGNED s then Some (p, m1)
        else do {
          let b1 = push_bit 8 d OR d;
          let buffer = b1 OR push_bit 16 b1;
          st \<leftarrow> (if \<not> n1 < LBLOCKSIZE then set_blocks buffer (m1, s, n1) else Some (m1, s, n1));
          (m2, _, _) \<leftarrow> set_bytes ch st;
          Some (p, m2)
        }
      })"

subsection \<open>memchr, memrchr, rawmemchr, memcmp, memccpy\<close>

definition find_byte :: "memory \<Rightarrow> u8 \<Rightarrow> addr \<times> u32 \<Rightarrow> (addr \<times> u32) option" where
  "find_byte m d = while_option (\<lambda>(s, n). n \<noteq> 0 \<and> m s \<noteq> d) (\<lambda>(s, n). (s + 1, n - 1))"

definition memchr_small :: "memory \<Rightarrow> addr \<Rightarrow> u32 \<Rightarrow> u32 \<Rightarrow> addr option" where
  "memchr_small m src c len =
     do { (s, n) \<leftarrow> find_byte m (ucast c) (src, len); Some (if n = 0 then 0 else s) }"

definition memchr :: "memory \<Rightarrow> addr \<Rightarrow> u32 \<Rightarrow> u32 \<Rightarrow> addr option" where
  "memchr m src c len =
     (let d = ucast c :: u8
      in do {
        (s1, n1) \<leftarrow> while_option (\<lambda>(s, n). UNALIGNED s \<and> n \<noteq> 0 \<and> m s \<noteq> d) (\<lambda>(s, n). (s + 1, n - 1)) (src, len);
        if UNALIGNED s1 then Some (if n1 = 0 then 0 else s1)
        else do {
          st \<leftarrow> (if \<not> n1 < LBLOCKSIZE
                then while_option (\<lambda>(a, n). LBLOCKSIZE \<le> n \<and> DETECTCHAR (load32 m a) (fill_mask d) = 0)
                       (\<lambda>(a, n). (a + 4, n - 4)) (s1, n1)
                else Some (s1, n1));
          (s2, n2) \<leftarrow> find_byte m d st;
          Some (if n2 = 0 then 0 else s2)
        }
      })"

definition find_byte_back :: "memory \<Rightarrow> u8 \<Rightarrow> addr \<times> u32 \<Rightarrow> (addr \<times> u32) option" where
  "find_byte_back m d = while_option (\<lambda>(s, n). n \<noteq> 0 \<and> m s \<noteq> d) (\<lambda>(s, n). (s - 1, n - 1))"

definition memrchr_small :: "memory \<Rightarrow> addr \<Rightarrow> u32 \<Rightarrow> u32 \<Rightarrow> addr option" where
  "memrchr_small m src c len =
     do { (s, n) \<leftarrow> find_byte_back m (ucast c) (src + len - 1, len); Some (if n = 0 then 0 else s) }"

definition memrchr :: "memory \<Rightarrow> addr \<Rightarrow> u32 \<Rightarrow> u32 \<Rightarrow> addr option" where
  "memrchr m src c len =
     (let d = ucast c :: u8
      in do {
        (s1, n1) \<leftarrow> while_option (\<lambda>(s, n). UNALIGNED (s + 1) \<and> n \<noteq> 0 \<and> m s \<noteq> d) (\<lambda>(s, n). (s - 1, n - 1))
                   (src + len - 1, len);
        if UNALIGNED (s1 + 1) then Some (if n1 = 0 then 0 else s1)
        else do {
          st \<leftarrow> (if \<not> n1 < LBLOCKSIZE
                then do {
                  (a, n) \<leftarrow> while_option (\<lambda>(a, n). LBLOCKSIZE \<le> n \<and> DETECTCHAR (load32 m a) (fill_mask d) = 0)
                             (\<lambda>(a, n). (a - 4, n - 4)) (s1 - LBLOCKSIZE + 1, n1);
                  Some (a + LBLOCKSIZE - 1, n)
                }
                else Some (s1, n1));
          (s2, n2) \<leftarrow> find_byte_back m d st;
          Some (if n2 = 0 then 0 else s2)
        }
      })"

definition rawmemchr_small :: "memory \<Rightarrow> addr \<Rightarrow> u32 \<Rightarrow> addr option" where
  "rawmemchr_small m src c = while_option (\<lambda>s. m s \<noteq> ucast c) (\<lambda>s. s + 1) src"

definition rawmemchr :: "memory \<Rightarrow> addr \<Rightarrow> u32 \<Rightarrow> addr option" where
  "rawmemchr m src c =
     (let d = ucast c :: u8
      in do {
        s1 \<leftarrow> while_option (\<lambda>s. UNALIGNED s \<and> m s \<noteq> d) (\<lambda>s. s + 1) src;
        if UNALIGNED s1 then Some s1
        else do {
          s2 \<leftarrow> while_option (\<lambda>a. DETECTCHAR (load32 m a) (fill_mask d) = 0) (\<lambda>a. a + 4) s1;
          while_option (\<lambda>s. m s \<noteq> d) (\<lambda>s. s + 1) s2
        }
      })"

definition diff_bytes :: "memory \<Rightarrow> addr \<times> addr \<times> u32 \<Rightarrow> (addr \<times> addr \<times> u32) option" where
  "diff_bytes m = while_option (\<lambda>(s1, s2, n). n \<noteq> 0 \<and> m s1 = m s2) (\<lambda>(s1, s2, n). (s1 + 1, s2 + 1, n - 1))"

definition memcmp_small :: "memory \<Rightarrow> addr \<Rightarrow> addr \<Rightarrow> u32 \<Rightarrow> int option" where
  "memcmp_small m m1 m2 n =
     do { (s1, s2, n1) \<leftarrow> diff_bytes m (m1, m2, n); Some (if n1 = 0 then 0 else uint (m s1) - uint (m s2)) }"

definition memcmp_newlib :: "memory \<Rightarrow> addr \<Rightarrow> addr \<Rightarrow> u32 \<Rightarrow> int option" where
  "memcmp_newlib m m1 m2 n =
     do {
       st \<leftarrow> (if \<not> n < LBLOCKSIZE \<and> \<not> UNALIGNED2 m1 m2
             then while_option (\<lambda>(a1, a2, n). LBLOCKSIZE \<le> n \<and> load32 m a1 = load32 m a2)
                    (\<lambda>(a1, a2, n). (a1 + 4, a2 + 4, n - 4)) (m1, m2, n)
             else Some (m1, m2, n));
       (s1, s2, n1) \<leftarrow> diff_bytes m st;
       Some (if n1 = 0 then 0 else uint (m s1) - uint (m s2))
     }"

text \<open>
  \<open>memccpy\<close>: the bytes before the end character are copied, then, if there is count left, the end
  character itself. \<open>endchar\<close> is a signed \<open>char\<close>, and is sign-extended where it is added to the mask.
\<close>

definition copy_until :: "u8 \<Rightarrow> memory \<times> addr \<times> addr \<times> u32 \<Rightarrow> (addr \<times> memory) option" where
  "copy_until endchar st =
     do {
       (m, d, s, n) \<leftarrow> while_option (\<lambda>(m, d, s, n). n \<noteq> 0 \<and> m s \<noteq> endchar) copy1n st;
       Some (if n = 0 then (0, m) else (d + 1, m(d := m s)))
     }"

definition memccpy_small :: "memory \<Rightarrow> addr \<Rightarrow> addr \<Rightarrow> u32 \<Rightarrow> u32 \<Rightarrow> (addr \<times> memory) option" where
  "memccpy_small m dst src endchar0 len0 = copy_until (ucast (endchar0 AND 0xff)) (m, dst, src, len0)"

definition memccpy_mask :: "u8 \<Rightarrow> u32" where
  "memccpy_mask endchar = ((\<lambda>msk. push_bit 8 msk + scast endchar) ^^ 4) 0"

definition memccpy :: "memory \<Rightarrow> addr \<Rightarrow> addr \<Rightarrow> u32 \<Rightarrow> u32 \<Rightarrow> (addr \<times> memory) option" where
  "memccpy m dst src endchar0 len0 =
     (let endchar = ucast (endchar0 AND 0xff) :: u8
      in do {
        st \<leftarrow> (if \<not> len0 < LBLOCKSIZE \<and> \<not> UNALIGNED2 src dst
              then while_option (\<lambda>(m, d, s, n). LBLOCKSIZE \<le> n \<and> DETECTNULL (load32 m s XOR memccpy_mask endchar) = 0)
                     copy_longn (m, dst, src, len0)
              else Some (m, dst, src, len0));
        copy_until endchar st
      })"

subsection \<open>strlen, strchr, strcpy, stpcpy, strcat\<close>

definition find_nul :: "memory \<Rightarrow> addr \<Rightarrow> addr option" where
  "find_nul m = while_option (\<lambda>s. m s \<noteq> 0) (\<lambda>s. s + 1)"

definition find_nul_long :: "memory \<Rightarrow> addr \<Rightarrow> addr option" where
  "find_nul_long m = while_option (\<lambda>a. DETECTNULL (load32 m a) = 0) (\<lambda>a. a + 4)"

definition strlen_small :: "memory \<Rightarrow> addr \<Rightarrow> u32 option" where
  "strlen_small m str = do { s \<leftarrow> find_nul m str; Some (s - str) }"

definition strlen_newlib :: "memory \<Rightarrow> addr \<Rightarrow> u32 option" where
  "strlen_newlib m str =
     do {
       s1 \<leftarrow> while_option (\<lambda>s. UNALIGNED s \<and> m s \<noteq> 0) (\<lambda>s. s + 1) str;
       if UNALIGNED s1 then Some (s1 - str)
       else do {
         s2 \<leftarrow> find_nul_long m s1;
         s3 \<leftarrow> find_nul m s2;
         Some (s3 - str)
       }
     }"

definition find_char :: "memory \<Rightarrow> u8 \<Rightarrow> addr \<Rightarrow> addr option" where
  "find_char m c s0 =
     do {
       s \<leftarrow> while_option (\<lambda>s. m s \<noteq> 0 \<and> m s \<noteq> c) (\<lambda>s. s + 1) s0;
       Some (if m s = c then s else 0)
     }"

definition strchr_small :: "memory \<Rightarrow> addr \<Rightarrow> u32 \<Rightarrow> addr option" where
  "strchr_small m s1 i = find_char m (ucast i) s1"

definition strchr :: "memory \<Rightarrow> addr \<Rightarrow> u32 \<Rightarrow> addr option" where
  "strchr m s0 i =
     (let c = ucast i :: u8
      in if c = 0 then
           do {
             s1 \<leftarrow> while_option (\<lambda>s. UNALIGNED s \<and> m s \<noteq> 0) (\<lambda>s. s + 1) s0;
             if UNALIGNED s1 then Some s1
             else do { s2 \<leftarrow> find_nul_long m s1; find_nul m s2 }
           }
         else
           do {
             s1 \<leftarrow> while_option (\<lambda>s. UNALIGNED s \<and> m s \<noteq> 0 \<and> m s \<noteq> c) (\<lambda>s. s + 1) s0;
             if UNALIGNED s1 then Some (if m s1 = 0 then 0 else s1)
             else let m1 = push_bit 8 (ucast c) OR ucast c; msk = push_bit 16 m1 OR m1
                  in do {
                    s2 \<leftarrow> while_option (\<lambda>a. DETECTNULL (load32 m a) = 0 \<and> DETECTCHAR (load32 m a) msk = 0) (\<lambda>a. a + 4) s1;
                    find_char m c s2
                  }
           })"

text \<open>\<open>while ((*dst++ = *src++));\<close> copies up to and with the terminating zero.\<close>

definition copy_str :: "memory \<times> addr \<times> addr \<Rightarrow> (memory \<times> addr \<times> addr) option" where
  "copy_str st = do { st1 \<leftarrow> while_option (\<lambda>(m, d, s). m s \<noteq> 0) copy1 st; Some (copy1 st1) }"

definition copy_str_long :: "memory \<times> addr \<times> addr \<Rightarrow> (memory \<times> addr \<times> addr) option" where
  "copy_str_long = while_option (\<lambda>(m, d, s). DETECTNULL (load32 m s) = 0) copy_long"

definition strcpy_small :: "memory \<Rightarrow> addr \<Rightarrow> addr \<Rightarrow> (addr \<times> memory) option" where
  "strcpy_small m dst src = do { (m1, _, _) \<leftarrow> copy_str (m, dst, src); Some (dst, m1) }"

definition strcpy_newlib :: "memory \<Rightarrow> addr \<Rightarrow> addr \<Rightarrow> (addr \<times> memory) option" where
  "strcpy_newlib m dst src =
     do {
       st \<leftarrow> (if \<not> UNALIGNED2 src dst then copy_str_long (m, dst, src) else Some (m, dst, src));
       (m1, _, _) \<leftarrow> copy_str st;
       Some (dst, m1)
     }"

definition stpcpy_small :: "memory \<Rightarrow> addr \<Rightarrow> addr \<Rightarrow> (addr \<times> memory) option" where
  "stpcpy_small m dst src = do { (m1, d, _) \<leftarrow> copy_str (m, dst, src); Some (d - 1, m1) }"

definition stpcpy :: "memory \<Rightarrow> addr \<Rightarrow> addr \<Rightarrow> (addr \<times> memory) option" where
  "stpcpy m dst src =
     do {
       st \<leftarrow> (if \<not> UNALIGNED2 src dst then copy_str_long (m, dst, src) else Some (m, dst, src));
       (m1, d, _) \<leftarrow> copy_str st;
       Some (d - 1, m1)
     }"

definition strcat_small :: "memory \<Rightarrow> addr \<Rightarrow> addr \<Rightarrow> (addr \<times> memory) option" where
  "strcat_small m s1 s2 =
     do { e \<leftarrow> find_nul m s1; (m1, _, _) \<leftarrow> copy_str (m, e, s2); Some (s1, m1) }"

definition strcat :: "memory \<Rightarrow> addr \<Rightarrow> addr \<Rightarrow> (addr \<times> memory) option" where
  "strcat m s1 s2 =
     do {
       e1 \<leftarrow> (if \<not> UNALIGNED s1 then find_nul_long m s1 else Some s1);
       e \<leftarrow> find_nul m e1;
       (_, m1) \<leftarrow> strcpy_newlib m e s2;
       Some (s1, m1)
     }"

subsection \<open>strncpy, stpncpy, strncat\<close>

text \<open>At most \<open>n\<close> bytes up to and with a zero; the flag tells whether the zero was copied.\<close>

definition copy_strn :: "memory \<times> addr \<times> addr \<times> u32 \<Rightarrow> (bool \<times> memory \<times> addr \<times> addr \<times> u32) option" where
  "copy_strn st =
     do {
       (m, d, s, n) \<leftarrow> while_option (\<lambda>(m, d, s, n). 0 < n \<and> m s \<noteq> 0) copy1n st;
       Some (if 0 < n then (True, copy1n (m, d, s, n)) else (False, m, d, s, n))
     }"

definition copy_strn_long :: "memory \<times> addr \<times> addr \<times> u32 \<Rightarrow> (memory \<times> addr \<times> addr \<times> u32) option" where
  "copy_strn_long = while_option (\<lambda>(m, d, s, n). LBLOCKSIZE \<le> n \<and> DETECTNULL (load32 m s) = 0) copy_longn"

definition strncpy_small :: "memory \<Rightarrow> addr \<Rightarrow> addr \<Rightarrow> u32 \<Rightarrow> (addr \<times> memory) option" where
  "strncpy_small m dst src count =
     do {
       (_, m1, d, s, n) \<leftarrow> copy_strn (m, dst, src, count);
       (m2, _, _) \<leftarrow> set_bytes 0 (m1, d, n);
       Some (dst, m2)
     }"

definition strncpy :: "memory \<Rightarrow> addr \<Rightarrow> addr \<Rightarrow> u32 \<Rightarrow> (addr \<times> memory) option" where
  "strncpy m dst src count =
     do {
       st \<leftarrow> (if \<not> UNALIGNED2 src dst \<and> \<not> count < LBLOCKSIZE
             then copy_strn_long (m, dst, src, count) else Some (m, dst, src, count));
       (_, m1, d, s, n) \<leftarrow> copy_strn st;
       (m2, _, _) \<leftarrow> set_bytes 0 (m1, d, n);
       Some (dst, m2)
     }"

definition stpncpy_small :: "memory \<Rightarrow> addr \<Rightarrow> addr \<Rightarrow> u32 \<Rightarrow> (addr \<times> memory) option" where
  "stpncpy_small m dst src count =
     do {
       (z, m1, d, s, n) \<leftarrow> copy_strn (m, dst, src, count);
       (m2, d2, _) \<leftarrow> set_bytes 0 (m1, d, n);
       let ret = (if z then d - 1 else 0);
       Some (if ret \<noteq> 0 then ret else d2, m2)
     }"

definition stpncpy :: "memory \<Rightarrow> addr \<Rightarrow> addr \<Rightarrow> u32 \<Rightarrow> (addr \<times> memory) option" where
  "stpncpy m dst src count =
     do {
       st \<leftarrow> (if \<not> UNALIGNED2 src dst \<and> \<not> count < LBLOCKSIZE
             then copy_strn_long (m, dst, src, count) else Some (m, dst, src, count));
       (z, m1, d, s, n) \<leftarrow> copy_strn st;
       (m2, d2, _) \<leftarrow> set_bytes 0 (m1, d, n);
       let ret = (if z then d - 1 else 0);
       Some (if ret \<noteq> 0 then ret else d2, m2)
     }"

text \<open>
  The loop of \<open>strncat\<close>: \<open>while (n-- != 0 && (*s1++ = *s2++)) if (n == 0) *s1 = 0;\<close>
\<close>

definition cat_step :: "memory \<times> addr \<times> addr \<times> u32 \<Rightarrow> memory \<times> addr \<times> addr \<times> u32" where
  "cat_step = (\<lambda>(m, d, s, n).
     let m1 = m(d := m s) in (if n - 1 = 0 then m1(d + 1 := 0) else m1, d + 1, s + 1, n - 1))"

definition cat_bytes :: "memory \<times> addr \<times> addr \<times> u32 \<Rightarrow> memory option" where
  "cat_bytes st =
     do {
       (m, d, s, n) \<leftarrow> while_option (\<lambda>(m, d, s, n). n \<noteq> 0 \<and> m s \<noteq> 0) cat_step st;
       Some (if n = 0 then m else m(d := m s))
     }"

definition strncat_small :: "memory \<Rightarrow> addr \<Rightarrow> addr \<Rightarrow> u32 \<Rightarrow> (addr \<times> memory) option" where
  "strncat_small m s1 s2 n = do { e \<leftarrow> find_nul m s1; m1 \<leftarrow> cat_bytes (m, e, s2, n); Some (s1, m1) }"

definition strncat :: "memory \<Rightarrow> addr \<Rightarrow> addr \<Rightarrow> u32 \<Rightarrow> (addr \<times> memory) option" where
  "strncat m s1 s2 n =
     do {
       e1 \<leftarrow> (if \<not> UNALIGNED s1 then find_nul_long m s1 else Some s1);
       e \<leftarrow> find_nul m e1;
       m1 \<leftarrow> cat_bytes (m, e, s2, n);
       Some (s1, m1)
     }"

subsection \<open>strcmp, strncmp\<close>

definition str_diff :: "memory \<Rightarrow> addr \<times> addr \<Rightarrow> int option" where
  "str_diff m st =
     do {
       (s1, s2) \<leftarrow> while_option (\<lambda>(s1, s2). m s1 \<noteq> 0 \<and> m s1 = m s2) (\<lambda>(s1, s2). (s1 + 1, s2 + 1)) st;
       Some (uint (m s1) - uint (m s2))
     }"

definition strcmp_small :: "memory \<Rightarrow> addr \<Rightarrow> addr \<Rightarrow> int option" where
  "strcmp_small m s1 s2 = str_diff m (s1, s2)"

definition strcmp :: "memory \<Rightarrow> addr \<Rightarrow> addr \<Rightarrow> int option" where
  "strcmp m s1 s2 =
     (if \<not> UNALIGNED2 s1 s2 then
        do {
          (a1, a2) \<leftarrow> while_option (\<lambda>(a1, a2). load32 m a1 = load32 m a2 \<and> DETECTNULL (load32 m a1) = 0)
                       (\<lambda>(a1, a2). (a1 + 4, a2 + 4)) (s1, s2);
          if load32 m a1 = load32 m a2 then Some 0 else str_diff m (a1, a2)
        }
      else str_diff m (s1, s2))"

definition strn_scan :: "memory \<Rightarrow> addr \<times> addr \<times> u32 \<Rightarrow> (addr \<times> addr \<times> u32) option" where
  "strn_scan m =
     while_option (\<lambda>(s1, s2, n). n \<noteq> 0 \<and> m s1 = m s2 \<and> n - 1 \<noteq> 0 \<and> m s1 \<noteq> 0)
       (\<lambda>(s1, s2, n). (s1 + 1, s2 + 1, n - 1))"

definition strncmp_small :: "memory \<Rightarrow> addr \<Rightarrow> addr \<Rightarrow> u32 \<Rightarrow> int option" where
  "strncmp_small m s1 s2 n =
     (if n = 0 then Some 0
      else do { (p1, p2, k) \<leftarrow> strn_scan m (s1, s2, n); Some (uint (m p1) - uint (m p2)) })"

definition strncmp :: "memory \<Rightarrow> addr \<Rightarrow> addr \<Rightarrow> u32 \<Rightarrow> int option" where
  "strncmp m s1 s2 n =
     (if n = 0 then Some 0
      else do {
        (a1, a2, n1) \<leftarrow>
          (if \<not> UNALIGNED2 s1 s2 then
             while_option (\<lambda>(a1, a2, n). LBLOCKSIZE \<le> n \<and> load32 m a1 = load32 m a2 \<and> n - 4 \<noteq> 0 \<and> DETECTNULL (load32 m a1) = 0)
               (\<lambda>(a1, a2, n). (a1 + 4, a2 + 4, n - 4)) (s1, s2, n)
           else Some (s1, s2, n));
        if \<not> UNALIGNED2 s1 s2 \<and> LBLOCKSIZE \<le> n1 \<and> load32 m a1 = load32 m a2 then Some 0
        else do {
          (p1, p2, k) \<leftarrow> strn_scan m (a1, a2, n1);
          Some (if k \<noteq> 0 \<and> m p1 = m p2 then 0 else uint (m p1) - uint (m p2))
        }
      })"

end
