(* ===== verification/Newlib_Words.thy ===== *)
theory Newlib_Words
  imports Newlib_String Libk_String
begin

text \<open>
  The word-at-a-time string routines agree with the plain ones.
\<close>

section \<open>Loops\<close>

lemma while_option_steps:
  "(\<And>j. j < n \<Longrightarrow> b ((c ^^ j) s)) \<Longrightarrow> while_option b c s = while_option b c ((c ^^ n) s)"
proof (induction n)
  case (Suc n)
  have "while_option b c ((c ^^ n) s) = while_option b c (c ((c ^^ n) s))"
    using Suc.prems [of n] by (subst while_option_unfold) simp
  then show ?case using Suc by simp
qed simp

lemma while_option_forever: "while_option b c s = None \<longleftrightarrow> (\<forall>k. b ((c ^^ k) s))"
  by (auto simp: while_option_def)

text \<open>
  A loop whose every turn does \<open>n\<close> turns of another loop can run before it: what is left to do is the
  same. This is how a routine that works on words agrees with the one that works on bytes.
\<close>

lemma while_skip:
  assumes I: "I s0" and n: "0 < n"
    and step: "\<And>s. I s \<Longrightarrow> bw s \<Longrightarrow> I (cw s) \<and> cw s = (c ^^ n) s \<and> (\<forall>j < n. b ((c ^^ j) s))"
  shows "Option.bind (while_option bw cw s0) (while_option b c) = while_option b c s0"
proof (cases "while_option bw cw s0")
  case (Some t)
  have "I t \<and> while_option b c t = while_option b c s0"
  proof (rule while_option_rule [OF _ Some])
    fix s assume s: "I s \<and> while_option b c s = while_option b c s0" "bw s"
    from step [of s] s have st: "I (cw s)" "cw s = (c ^^ n) s" "\<And>j. j < n \<Longrightarrow> b ((c ^^ j) s)" by auto
    with while_option_steps [of n b c s] s(1) show "I (cw s) \<and> while_option b c (cw s) = while_option b c s0" by simp
  qed (simp add: I)
  with Some show ?thesis by simp
next
  case None
  then have bw: "bw ((cw ^^ k) s0)" for k by (simp add: while_option_forever)
  have it: "I ((cw ^^ q) s0) \<and> (cw ^^ q) s0 = (c ^^ (n * q)) s0" for q
  proof (induction q)
    case (Suc q)
    then show ?case using step [of "(cw ^^ q) s0"] bw [of q] by (auto simp: funpow_add)
  qed (simp add: I)
  have "b ((c ^^ k) s0)" for k
  proof -
    let ?s = "(cw ^^ (k div n)) s0"
    have "\<forall>j < n. b ((c ^^ j) ?s)" using step [of ?s] it [of "k div n"] bw [of "k div n"] by blast
    then have "b ((c ^^ (k mod n)) ?s)" using n by simp
    moreover have "(c ^^ (k mod n)) ?s = (c ^^ k) s0"
      using funpow_add [of "k mod n" "n * (k div n)" c] it [of "k div n"] by simp
    ultimately show ?thesis by simp
  qed
  then have "while_option b c s0 = None" by (simp add: while_option_forever)
  then show ?thesis using None by simp
qed

lemma while_prefix:
  "Option.bind (while_option (\<lambda>s. p s \<and> b s) c s0) (while_option b c) = while_option b c s0"
  by (rule while_skip [where I = "\<lambda>_. True" and n = 1]) auto

section \<open>The zero byte test\<close>

lemma top_bit:
  fixes Y :: nat
  assumes "r < 256" "l < 2 ^ k" "Y = h * 2 ^ (k + 8) + r * 2 ^ k + l"
  shows "odd (Y div 2 ^ (k + 7)) \<longleftrightarrow> 128 \<le> r"
proof -
  have "Y div 2 ^ (k + 7) = (Y div 2 ^ k) div 128" by (simp add: power_add div_mult2_eq)
  also have "Y div 2 ^ k = h * 256 + r"
  proof -
    have "Y = (h * 256 + r) * 2 ^ k + l" using assms(3) by (simp add: power_add algebra_simps)
    then show ?thesis using assms(2) by simp
  qed
  also have "(h * 256 + r) div 128 = 2 * h + r div 128"
    using div_mult_self1 [of 128 r "2 * h"] by (simp add: algebra_simps)
  finally have "odd (Y div 2 ^ (k + 7)) \<longleftrightarrow> odd (r div 128)" by simp
  also have "r div 128 = (if 128 \<le> r then 1 else 0)"
    using assms(1) div_nat_eqI [of 1 128 r] by auto
  finally show ?thesis by simp
qed

definition byte_of :: "u32 \<Rightarrow> nat \<Rightarrow> nat" where
  "byte_of x i = unat x div 256 ^ i mod 256"

lemma word_bytes:
  "unat x = byte_of x 0 + 256 * byte_of x 1 + 65536 * byte_of x 2 + 16777216 * byte_of x 3"
  "byte_of x i < 256"
proof -
  have "unat x < 2 ^ 32" using unsigned_less [of x, where ?'a = nat] by simp
  define n q1 q2 q3 where q: "n = unat x" "q1 = n div 256" "q2 = q1 div 256" "q3 = q2 div 256"
  have d: "n div 65536 = q2" "n div 16777216 = q3"
    using div_mult2_eq [of n 256 256] div_mult2_eq [of n 65536 256] by (simp_all add: q)
  have "n = n mod 256 + 256 * q1" "q1 = q1 mod 256 + 256 * q2" "q2 = q2 mod 256 + 256 * q3"
    unfolding q by simp_all
  moreover have "q3 mod 256 = q3" using \<open>unat x < 2 ^ 32\<close> by (simp add: d(2) [symmetric] q(1) less_mult_imp_div_less)
  ultimately show "unat x = byte_of x 0 + 256 * byte_of x 1 + 65536 * byte_of x 2 + 16777216 * byte_of x 3"
    unfolding byte_of_def by (simp add: power_numeral_reduce d flip: q)
  show "byte_of x i < 256" by (simp add: byte_of_def)
qed

lemma bit_unat: "bit (x :: u32) n \<longleftrightarrow> odd (unat x div 2 ^ n)"
  using bit_iff_odd [of "unat x" n] by (simp add: bit_unsigned_iff)


lemma bit_0x80808080: "bit (0x80808080 :: u32) n \<longleftrightarrow> n \<in> {7, 15, 23, 31}"
proof -
  have e: "(0x80808080 :: u32) = push_bit 7 1 OR push_bit 15 1 OR push_bit 23 1 OR push_bit 31 1" by simp
  show ?thesis unfolding e by (simp only: bit_or_iff bit_push_bit_iff bit_1_iff possible_bit_word) auto
qed

lemma DETECTNULL_bits:
  "DETECTNULL x = 0 \<longleftrightarrow> (\<forall>n \<in> {7, 15, 23, 31}. bit x n \<or> \<not> bit (x - 0x01010101) n)"
proof -
  have "bit (DETECTNULL x) n \<longleftrightarrow> n \<in> {7, 15, 23, 31} \<and> bit (x - 0x01010101) n \<and> \<not> bit x n" for n
    unfolding DETECTNULL_def bit_and_iff bit_not_iff bit_0x80808080 by auto
  then have "(\<forall>n. \<not> bit (DETECTNULL x) n) \<longleftrightarrow> (\<forall>n \<in> {7, 15, 23, 31}. bit x n \<or> \<not> bit (x - 0x01010101) n)" by blast
  moreover have "DETECTNULL x = 0 \<longleftrightarrow> (\<forall>n. \<not> bit (DETECTNULL x) n)"
    using bit_word_eqI [of "DETECTNULL x" 0] by fastforce
  ultimately show ?thesis by (simp only:)
qed

lemma bit_minus_ones:
  assumes "n < 32"
  shows "bit ((x :: u32) - 0x01010101) n \<longleftrightarrow> odd ((unat x + 0xFEFEFEFF) div 2 ^ n)"
proof -
  have "x - 0x01010101 = of_nat (unat x + 0xFEFEFEFF)" by simp
  then have "bit (x - 0x01010101) n \<longleftrightarrow> bit (of_nat (unat x + 0xFEFEFEFF) :: u32) n" by (simp only:)
  also have "\<dots> \<longleftrightarrow> bit (unat x + 0xFEFEFEFF) n" using assms by (simp only: bit_of_nat_iff) simp
  finally show ?thesis by (simp only: bit_iff_odd)
qed


text \<open>The test bits, when the subtraction has borrowed nothing below byte \<open>i\<close>.\<close>

lemma bit_ones_top:
  fixes x :: u32
  assumes "unat x + 0xFEFEFEFF = h * 2 ^ (k + 8) + r * 2 ^ k + l" "r < 256" "l < 2 ^ k" "n = k + 7" "n < 32"
  shows "bit (x - 0x01010101) n \<longleftrightarrow> 128 \<le> r"
  using bit_minus_ones [OF assms(5), of x] top_bit [OF assms(2,3,1)] assms(4) by simp

lemma bit_top:
  assumes "unat x = h * 2 ^ (k + 8) + r * 2 ^ k + l" "r < 256" "l < 2 ^ k" "n = k + 7"
  shows "bit (x :: u32) n \<longleftrightarrow> 128 \<le> r"
  using bit_unat [of x n] top_bit [OF assms(2,3,1)] assms(4) by simp

lemma DETECTNULL_iff: "DETECTNULL x = 0 \<longleftrightarrow> (\<forall>i < 4. byte_of x i \<noteq> 0)"
proof -
  define b0 b1 b2 b3 where b: "b0 = byte_of x 0" "b1 = byte_of x 1" "b2 = byte_of x 2" "b3 = byte_of x 3"
  have X: "unat x = b0 + 256 * b1 + 65536 * b2 + 16777216 * b3" unfolding b by (rule word_bytes(1))
  have lt: "b0 < 256" "b1 < 256" "b2 < 256" "b3 < 256" unfolding b by (rule word_bytes(2))+
  have bx: "bit x 7 \<longleftrightarrow> 128 \<le> b0" "bit x 15 \<longleftrightarrow> 128 \<le> b1" "bit x 23 \<longleftrightarrow> 128 \<le> b2" "bit x 31 \<longleftrightarrow> 128 \<le> b3"
  proof -
    show "bit x 7 \<longleftrightarrow> 128 \<le> b0" using lt
      by (intro bit_top [of x "b1 + 256 * b2 + 65536 * b3" 0 b0 0]) (simp_all add: X)
    show "bit x 15 \<longleftrightarrow> 128 \<le> b1" using lt by (intro bit_top [of x "b2 + 256 * b3" 8 b1 b0]) (simp_all add: X)
    show "bit x 23 \<longleftrightarrow> 128 \<le> b2" using lt by (intro bit_top [of x b3 16 b2 "b0 + 256 * b1"]) (simp_all add: X)
    show "bit x 31 \<longleftrightarrow> 128 \<le> b3"
      using lt by (intro bit_top [of x 0 24 b3 "b0 + 256 * b1 + 65536 * b2"]) (simp_all add: X)
  qed
  let ?y = "x - 0x01010101"
  have all: "(\<forall>i < 4. byte_of x i \<noteq> 0) \<longleftrightarrow> b0 \<noteq> 0 \<and> b1 \<noteq> 0 \<and> b2 \<noteq> 0 \<and> b3 \<noteq> 0"
    unfolding b by (auto simp: All_less_Suc numeral_eq_Suc)
  consider (0) "b0 = 0" | (1) c0 where "b0 = Suc c0" "b1 = 0" | (2) c0 c1 where "b0 = Suc c0" "b1 = Suc c1" "b2 = 0"
    | (3) c0 c1 c2 where "b0 = Suc c0" "b1 = Suc c1" "b2 = Suc c2" "b3 = 0"
    | (4) c0 c1 c2 c3 where "b0 = Suc c0" "b1 = Suc c1" "b2 = Suc c2" "b3 = Suc c3"
    by (cases b0; cases b1; cases b2; cases b3) blast+
  then show ?thesis
  proof cases
    case 0
    have "bit ?y 7"
      using bit_ones_top [of x "b1 + 254 + 256 * (b2 + 254) + 65536 * (b3 + 254)" 0 255 0] by (simp add: X 0)
    then show ?thesis using 0 bx(1) all by (auto simp: DETECTNULL_bits)
  next
    case 1
    have "bit ?y 15" using bit_ones_top [of x "b2 + 254 + 256 * (b3 + 254)" 8 255 c0] lt by (simp add: X 1)
    then show ?thesis using 1 bx(2) all by (auto simp: DETECTNULL_bits)
  next
    case 2
    have "bit ?y 23" using bit_ones_top [of x "b3 + 254" 16 255 "c0 + 256 * c1"] lt by (simp add: X 2)
    then show ?thesis using 2 bx(3) all by (auto simp: DETECTNULL_bits)
  next
    case 3
    have "bit ?y 31" using bit_ones_top [of x 0 24 255 "c0 + 256 * c1 + 65536 * c2"] lt by (simp add: X 3)
    then show ?thesis using 3 bx(4) all by (auto simp: DETECTNULL_bits)
  next
    case 4
    have "bit ?y 7 \<longleftrightarrow> 128 \<le> c0"
      using lt by (intro bit_ones_top [of x "c1 + 256 * c2 + 65536 * c3 + 16777216" 0 c0 0]) (simp_all add: X 4)
    moreover have "bit ?y 15 \<longleftrightarrow> 128 \<le> c1"
      using lt by (intro bit_ones_top [of x "c2 + 256 * c3 + 65536" 8 c1 c0]) (simp_all add: X 4)
    moreover have "bit ?y 23 \<longleftrightarrow> 128 \<le> c2"
      using lt by (intro bit_ones_top [of x "c3 + 256" 16 c2 "c0 + 256 * c1"]) (simp_all add: X 4)
    moreover have "bit ?y 31 \<longleftrightarrow> 128 \<le> c3"
      using lt by (intro bit_ones_top [of x 1 24 c3 "c0 + 256 * c1 + 65536 * c2"]) (simp_all add: X 4)
    ultimately have "\<forall>n \<in> {7, 15, 23, 31}. bit x n \<or> \<not> bit ?y n"
      using bx unfolding 4 by simp linarith
    then have "DETECTNULL x = 0" by (simp only: DETECTNULL_bits)
    then show ?thesis using 4 all by simp
  qed
qed


lemma byte_of_ucast: "byte_of x i = unat (ucast (drop_bit (8 * i) x) :: u8)"
proof -
  have "unat (drop_bit (8 * i) x) = unat x div 256 ^ i"
  proof -
    have "take_bit 32 (unat x) = unat x"
      using unsigned_less [of x, where ?'a = nat] by (intro take_bit_nat_eq_self) simp
    then show ?thesis
      using unsigned_drop_bit_eq [of "8 * i" x, where ?'a = nat] drop_bit_eq_div [of "8 * i" "unat x"]
      by (simp only: power_mult) simp
  qed
  then show ?thesis by (simp add: byte_of_def unsigned_ucast_eq take_bit_eq_mod)
qed

lemma load32_bytes:
  "ucast (load32 m a) = m a" "ucast (drop_bit 8 (load32 m a)) = m (a + 1)"
  "ucast (drop_bit 16 (load32 m a)) = m (a + 2)" "ucast (drop_bit 24 (load32 m a)) = m (a + 3)"
  by (rule bit_word_eqI; auto simp: load32_def bit_simps dest: bit_imp_le_length)+

lemma byte_of_load32: "i < 4 \<Longrightarrow> byte_of (load32 m a) i = unat (m (a + of_nat i))"
proof -
  assume "i < 4"
  then consider "i = 0" | "i = 1" | "i = 2" | "i = 3" by linarith
  then show ?thesis by cases (simp_all add: byte_of_ucast load32_bytes)
qed

lemma no_null_bytes:
  "DETECTNULL (load32 m a) = 0 \<longleftrightarrow> (\<forall>j < 4. m (a + of_nat j) \<noteq> 0)"
  by (simp add: DETECTNULL_iff byte_of_load32 unat_gt_0)

section \<open>Words and their bytes\<close>

lemma funpow_4: "(f ^^ 4) s = f (f (f (f s)))"
  by (simp add: numeral_eq_Suc)

lemma all_less_4: "(\<forall>j < 4. P j) \<longleftrightarrow> P 0 \<and> P 1 \<and> P 2 \<and> P (3 :: nat)"
  by (auto simp: All_less_Suc numeral_eq_Suc)

lemma load32_xor: "load32 (\<lambda>x. m x XOR k x) a = load32 m a XOR load32 k a"
  by (rule bit_word_eqI) (auto simp: load32_def bit_simps dest: bit_imp_le_length)

lemma fill_mask_load32: "fill_mask d = load32 (\<lambda>_. d) a"
  by (rule bit_word_eqI) (auto simp: fill_mask_def load32_def Let_def bit_simps)

lemma xor_zero_iff: "x XOR y = 0 \<longleftrightarrow> x = (y :: u8)"
  by (metis xor.assoc xor.left_neutral xor.right_neutral xor_self_eq)

lemma no_char_bytes:
  "DETECTCHAR (load32 m a) (fill_mask d) = 0 \<longleftrightarrow> (\<forall>j < 4. m (a + of_nat j) \<noteq> d)"
proof -
  have "load32 m a XOR fill_mask d = load32 (\<lambda>x. m x XOR d) a"
    by (simp add: load32_xor fill_mask_load32 [of d a])
  then show ?thesis by (simp add: DETECTCHAR_def no_null_bytes xor_zero_iff)
qed

lemma load32_eq_iff: "load32 m a = load32 m' b \<longleftrightarrow> (\<forall>j < 4. m (a + of_nat j) = m' (b + of_nat j))"
proof
  assume "load32 m a = load32 m' b"
  then show "\<forall>j < 4. m (a + of_nat j) = m' (b + of_nat j)"
    unfolding all_less_4 using load32_bytes [of m a] load32_bytes [of m' b] by simp
qed (simp add: all_less_4 load32_def)

subsection \<open>Alignment\<close>

lemma UNALIGNED_mod: "UNALIGNED x \<longleftrightarrow> unat x mod 4 \<noteq> 0"
proof -
  have "x AND 3 = take_bit 2 x" by (simp add: take_bit_eq_mask mask_eq_exp_minus_1)
  then have "unat (x AND 3) = unat x mod 4" by (simp only: unsigned_take_bit_eq) (simp add: take_bit_eq_mod)
  then show ?thesis unfolding UNALIGNED_def by (metis unsigned_eq_0_iff)
qed

lemma UNALIGNED2_iff: "UNALIGNED2 x y \<longleftrightarrow> UNALIGNED x \<or> UNALIGNED y"
  by (simp add: UNALIGNED2_def UNALIGNED_def or_eq_0_iff)

lemma UNALIGNED_add_4 [simp]: "UNALIGNED (x + 4) \<longleftrightarrow> UNALIGNED x"
proof -
  have "unat (x + 4) mod 4 = unat x mod 4"
    by (simp add: unat_word_ariths mod_mod_cancel)
  then show ?thesis by (simp add: UNALIGNED_mod)
qed

lemma UNALIGNED_minus_4 [simp]: "UNALIGNED (x - 4) \<longleftrightarrow> UNALIGNED x"
  using UNALIGNED_add_4 [of "x - 4"] by simp

text \<open>Two aligned words are the same or have no byte in common.\<close>

lemma aligned_bytes_apart:
  assumes "\<not> UNALIGNED s" "\<not> UNALIGNED d" "i < 4" "j < 4" "i \<noteq> j"
  shows "s + i \<noteq> d + (j :: u32)"
proof (cases "s = d")
  case False
  then show ?thesis using aligned4_disjoint [of s d i j] assms by (simp add: UNALIGNED_mod)
qed (use assms in simp)


lemma unat_sub_le: "k \<le> n \<Longrightarrow> unat (n - k) = unat n - unat (k :: u32)"
  by (simp add: unat_sub word_le_nat_alt)

lemma store32_load32:
  "store32 m d (load32 m' s) = m(d := m' s, d + 1 := m' (s + 1), d + 2 := m' (s + 2), d + 3 := m' (s + 3))"
  by (simp add: store32_def load32_bytes)

lemma copy_long_bytes:
  assumes "\<not> UNALIGNED2 s d"
  shows "copy_long (m, d, s) = (copy1 ^^ 4) (m, d, s)"
proof -
  have al: "\<not> UNALIGNED s" "\<not> UNALIGNED d" using assms by (simp_all add: UNALIGNED2_iff)
  note ne = aligned_bytes_apart [OF al]
  show ?thesis
  proof (cases "s = d")
    case True
    then show ?thesis by (simp add: copy_long_def store32_load32 funpow_4 copy1_def add.assoc fun_upd_idem)
  next
    case False
    then show ?thesis
      using ne [of 1 0] ne [of 2 0] ne [of 2 1] ne [of 3 0] ne [of 3 1] ne [of 3 2]
      by (simp add: copy_long_def store32_load32 funpow_4 copy1_def add.assoc)
  qed
qed

lemma copy1n_copy1: "copy1n (m, d, s, n) = (let (m', d', s') = copy1 (m, d, s) in (m', d', s', n - 1))"
  by (simp add: copy1n_def copy1_def)

lemma copy1n_funpow:
  "(copy1n ^^ k) (m, d, s, n) = (let (m', d', s') = (copy1 ^^ k) (m, d, s) in (m', d', s', n - of_nat k))"
  by (induction k) (auto simp: copy1n_copy1 split: prod.splits)

lemma copy_longn_bytes:
  assumes "\<not> UNALIGNED2 s d"
  shows "copy_longn (m, d, s, n) = (copy1n ^^ 4) (m, d, s, n)"
proof -
  have "copy_longn (m, d, s, n) = (let (m', d', s') = copy_long (m, d, s) in (m', d', s', n - 4))"
    by (simp add: copy_longn_def copy_long_def)
  then show ?thesis by (simp add: copy_long_bytes [OF assms] copy1n_funpow)
qed

text \<open>Counting down by one stays positive below a larger count.\<close>

lemma count_positive: "of_nat k \<le> n \<Longrightarrow> k < 2 ^ 32 \<Longrightarrow> j < k \<Longrightarrow> n - of_nat j \<noteq> (0 :: u32)"
  by (auto simp: word_le_nat_alt unat_of_nat32)

section \<open>Copying and filling\<close>

lemma copy1n_guard:
  assumes "4 \<le> n" "j < 4"
  shows "case (copy1n ^^ j) (m, d, s, n) of (m, d, s, n) \<Rightarrow> n \<noteq> 0"
  using assms count_positive [of 4 n j] by (simp add: copy1n_funpow split: prod.splits)

lemma copy_longs_bytes:
  assumes "\<not> UNALIGNED2 s d"
  shows "Option.bind (while_option (\<lambda>(m, d, s, n). LBLOCKSIZE \<le> n) copy_longn (m, d, s, n)) copy_bytes = copy_bytes (m, d, s, n)"
  unfolding copy_bytes_def
proof (rule while_skip [where I = "\<lambda>(m, d, s, n). \<not> UNALIGNED2 s d" and n = 4])
  fix st :: "memory \<times> addr \<times> addr \<times> u32"
  assume st: "case st of (m, d, s, n) \<Rightarrow> \<not> UNALIGNED2 s d" "case st of (m, d, s, n) \<Rightarrow> LBLOCKSIZE \<le> n"
  obtain m d s n where e: "st = (m, d, s, n)" by (cases st)
  have "copy_longn st = (copy1n ^^ 4) st" using copy_longn_bytes st(1) unfolding e by simp
  moreover have "case copy_longn st of (m, d, s, n) \<Rightarrow> \<not> UNALIGNED2 s d"
    using st(1) unfolding e by (simp add: copy_longn_def UNALIGNED2_iff)
  ultimately show "(case copy_longn st of (m, d, s, n) \<Rightarrow> \<not> UNALIGNED2 s d) \<and> copy_longn st = (copy1n ^^ 4) st \<and>
      (\<forall>j < 4. case (copy1n ^^ j) st of (m, d, s, n) \<Rightarrow> n \<noteq> 0)"
    using copy1n_guard [of n _ m d s] st(2) unfolding e by simp
qed (use assms in auto)

lemma four_longs:
  fixes f :: "'s \<Rightarrow> 's"
  shows "f \<circ> f \<circ> f \<circ> f = f ^^ 4"
  by (simp add: numeral_eq_Suc comp_assoc)

text \<open>Taking four words in a turn while there are 16 bytes, then one while there are 4.\<close>

lemma unrolled:
  fixes f :: "'s \<Rightarrow> 's" and cnt :: "'s \<Rightarrow> u32"
  assumes "\<And>s. cnt (f s) = cnt s - 4"
  shows "Option.bind (while_option (\<lambda>s. 16 \<le> cnt s) (f \<circ> f \<circ> f \<circ> f) s0) (while_option (\<lambda>s. 4 \<le> cnt s) f) =
    while_option (\<lambda>s. 4 \<le> cnt s) f s0"
proof (rule while_skip [where I = "\<lambda>_. True" and n = 4])
  fix s assume c: "16 \<le> cnt s"
  have it: "cnt ((f ^^ j) s) = cnt s - of_nat (4 * j)" for j
    by (induction j) (simp_all add: assms algebra_simps)
  have "4 \<le> cnt s - of_nat (4 * j)" if "j < 4" for j
  proof -
    have "unat (of_nat (4 * j) :: u32) = 4 * j" using that by (intro unat_of_nat32) simp
    then show ?thesis using that c by (simp add: word_le_nat_alt unat_sub_le)
  qed
  then show "True \<and> (f \<circ> f \<circ> f \<circ> f) s = (f ^^ 4) s \<and> (\<forall>j < 4. 4 \<le> cnt ((f ^^ j) s))"
    unfolding four_longs it by simp
qed auto

lemma copy_blocks_longs:
  "copy_blocks st = while_option (\<lambda>(m, d, s, n). LBLOCKSIZE \<le> n) copy_longn st"
  using unrolled [of "\<lambda>(m, d, s, n). n" copy_longn st]
  by (simp add: copy_blocks_def copy_longn_def case_prod_unfold)

lemma optional_blocks:
  "Option.bind (if \<not> n < 16 \<and> \<not> UNALIGNED2 s d then copy_blocks (m, d, s, n) else Some (m, d, s, n)) copy_bytes =
   copy_bytes (m, d, s, n)"
  using copy_longs_bytes [of s d m n] by (auto simp: copy_blocks_longs)

lemma memcpy_agrees: "memcpy_newlib m d s n = memcpy_small m d s n"
  unfolding memcpy_newlib_def memcpy_small_def by (simp only: optional_blocks flip: bind_assoc)

lemma mempcpy_agrees: "mempcpy m d s n = mempcpy_small m d s n"
  unfolding mempcpy_def mempcpy_small_def by (simp only: optional_blocks flip: bind_assoc)

lemma memmove_agrees: "memmove_newlib m d s n = memmove_small m d s n"
  unfolding memmove_newlib_def memmove_small_def by (simp only: optional_blocks)

subsection \<open>memset\<close>

lemma set1_funpow:
  "(set1 c ^^ k) (m, s, n) = (fst ((set1 c ^^ k) (m, s, n)), s + of_nat k, n - of_nat k)"
proof (induction k)
  case (Suc k)
  then obtain m' where "(set1 c ^^ k) (m, s, n) = (m', s + of_nat k, n - of_nat k)" by auto
  then have "(set1 c ^^ Suc k) (m, s, n) = (m'(s + of_nat k := c), s + of_nat (Suc k), n - of_nat (Suc k))"
    by (simp add: set1_def [of c] algebra_simps)
  then show ?case by (simp only: fst_conv)
qed simp

lemma set_long_bytes: "set_long (fill_mask c) (m, s, n) = (set1 c ^^ 4) (m, s, n)"
proof -
  have "store32 m s (fill_mask c) = m(s := c, s + 1 := c, s + 2 := c, s + 3 := c)"
    by (simp only: fill_mask_load32 [of c s] store32_load32)
  then show ?thesis by (simp add: set_long_def funpow_4 set1_def add.assoc)
qed

lemma set_longs_bytes:
  "Option.bind (while_option (\<lambda>(m, s, n). LBLOCKSIZE \<le> n) (set_long (fill_mask c)) st0) (set_bytes c) = set_bytes c st0"
  unfolding set_bytes_def
proof (rule while_skip [where I = "\<lambda>_. True" and n = 4])
  fix st :: "memory \<times> addr \<times> u32" assume st: "case st of (m, s, n) \<Rightarrow> LBLOCKSIZE \<le> n"
  obtain m s n where e: "st = (m, s, n)" by (cases st)
  have "case (set1 c ^^ j) st of (m, s, n) \<Rightarrow> n \<noteq> 0" if "j < 4" for j
    unfolding e using st that count_positive [of 4 n j] by (subst set1_funpow) (simp add: e)
  then show "True \<and> set_long (fill_mask c) st = (set1 c ^^ 4) st \<and> (\<forall>j < 4. case (set1 c ^^ j) st of (m, s, n) \<Rightarrow> n \<noteq> 0)"
    using set_long_bytes [of c m s n] unfolding e by simp
qed auto

lemma memset_buffer: "(push_bit 8 (c AND 0xff) OR (c AND 0xff)) OR push_bit 16 (push_bit 8 (c AND 0xff) OR (c AND 0xff)) =
    fill_mask (ucast c)" for c :: u32
proof -
  have m: "(0xff :: u32) = mask 8" by (simp add: mask_eq_exp_minus_1)
  have "c AND 0xff = ucast (ucast c :: u8)"
    unfolding m by (rule bit_word_eqI) (auto simp: bit_simps)
  then show ?thesis by (simp add: fill_mask_def Let_def or.assoc or.commute or.left_commute)
qed

text \<open>
  A loop that stops early, where a property of the state ends: it goes on as the plain loop, and has
  nothing left to do if the property still holds.
\<close>

lemma while_prefix_None:
  "while_option (\<lambda>s. p s \<and> b s) c s0 = None \<Longrightarrow> while_option b c s0 = None"
  using while_prefix [of p b c s0] by simp

lemma while_prefix_Some:
  assumes "while_option (\<lambda>s. p s \<and> b s) c s0 = Some s"
  shows "while_option b c s0 = (if p s then Some s else while_option b c s)"
proof -
  have "while_option b c s = Some s" if "p s"
    using while_option_stop [OF assms] that by (subst while_option_unfold) simp
  then show ?thesis using while_prefix [of p b c s0] assms by auto
qed

lemma optional_set_blocks:
  "Option.bind (if \<not> n < 4 then set_blocks (fill_mask c) (m, s, n) else Some (m, s, n)) (set_bytes c) = set_bytes c (m, s, n)"
  using unrolled [of "\<lambda>(m, s, n). n" "set_long (fill_mask c)" "(m, s, n)"] set_longs_bytes [of c "(m, s, n)"]
  by (simp add: set_blocks_def set_long_def case_prod_unfold)

lemma memset_agrees: "memset_newlib m p c n = memset_small m p c n"
proof -
  let ?c = "ucast c :: u8"
  let ?w = "while_option (\<lambda>st. (case st of (m, s, n) \<Rightarrow> UNALIGNED s) \<and> (case st of (m, s, n) \<Rightarrow> n \<noteq> 0)) (set1 ?c) (m, p, n)"
  have w: "while_option (\<lambda>(m, s, n). UNALIGNED s \<and> n \<noteq> 0) (set1 ?c) (m, p, n) = ?w"
    by (simp add: case_prod_unfold)
  show ?thesis
  proof (cases ?w)
    case None
    then show ?thesis using while_prefix_None [OF None]
      by (simp add: memset_newlib_def memset_small_def Let_def w set_bytes_def)
  next
    case (Some st)
    obtain m1 s n1 where st: "st = (m1, s, n1)" by (cases st)
    have b: "set_bytes ?c (m, p, n) = (if UNALIGNED s then Some (m1, s, n1) else set_bytes ?c (m1, s, n1))"
      using while_prefix_Some [OF Some] by (simp add: set_bytes_def st)
    have "memset_newlib m p c n = (if UNALIGNED s then Some (p, m1) else
        Option.bind (set_bytes ?c (m1, s, n1)) (\<lambda>(m2, _, _). Some (p, m2)))"
      unfolding memset_newlib_def Let_def w Some st memset_buffer Option.bind.simps prod.case
      by (simp only: optional_set_blocks flip: bind_assoc)
    then show ?thesis unfolding memset_small_def b by simp
  qed
qed

section \<open>Searching\<close>

lemma up_funpow: "((\<lambda>s. s + 1) ^^ k) (s :: u32) = s + of_nat k"
  by (induction k) (simp_all add: algebra_simps)

lemma up_down_funpow: "((\<lambda>(s, n). (s + 1, n - 1)) ^^ k) (s :: u32, n :: u32) = (s + of_nat k, n - of_nat k)"
  by (induction k) (simp_all add: algebra_simps)

lemma down_down_funpow: "((\<lambda>(s, n). (s - 1, n - 1)) ^^ k) (s :: u32, n :: u32) = (s - of_nat k, n - of_nat k)"
  by (induction k) (simp_all add: algebra_simps)

lemma find_long_bytes:
  "Option.bind (while_option (\<lambda>(a, n). LBLOCKSIZE \<le> n \<and> DETECTCHAR (load32 m a) (fill_mask d) = 0)
      (\<lambda>(a, n). (a + 4, n - 4)) st0) (find_byte m d) = find_byte m d st0"
  unfolding find_byte_def
proof (rule while_skip [where I = "\<lambda>_. True" and n = 4])
  fix st :: "addr \<times> u32"
  assume "case st of (a, n) \<Rightarrow> LBLOCKSIZE \<le> n \<and> DETECTCHAR (load32 m a) (fill_mask d) = 0"
  moreover obtain a n where "st = (a, n)" by (cases st)
  ultimately show "True \<and> (case st of (a, n) \<Rightarrow> (a + 4, n - 4)) = ((\<lambda>(s, n). (s + 1, n - 1)) ^^ 4) st \<and>
      (\<forall>j < 4. case ((\<lambda>(s, n). (s + 1, n - 1)) ^^ j) st of (s, n) \<Rightarrow> n \<noteq> 0 \<and> m s \<noteq> d)"
    using count_positive [of 4 n] by (simp add: up_down_funpow no_char_bytes)
qed auto

lemma optional_find_long:
  "Option.bind (if \<not> n < 4 then while_option (\<lambda>(a, n). LBLOCKSIZE \<le> n \<and> DETECTCHAR (load32 m a) (fill_mask d) = 0)
      (\<lambda>(a, n). (a + 4, n - 4)) (s, n) else Some (s, n)) (find_byte m d) = find_byte m d (s, n)"
  using find_long_bytes by simp

lemma memchr_agrees: "memchr m src c n = memchr_small m src c n"
proof -
  let ?d = "ucast c :: u8"
  let ?w = "while_option (\<lambda>st. (case st of (s, n) \<Rightarrow> UNALIGNED s) \<and> (case st of (s, n) \<Rightarrow> n \<noteq> 0 \<and> m s \<noteq> ?d))
    (\<lambda>(s, n). (s + 1, n - 1)) (src, n)"
  have w: "while_option (\<lambda>(s, n). UNALIGNED s \<and> n \<noteq> 0 \<and> m s \<noteq> ?d) (\<lambda>(s, n). (s + 1, n - 1)) (src, n) = ?w"
    by (simp add: case_prod_unfold)
  show ?thesis
  proof (cases ?w)
    case None
    then show ?thesis using while_prefix_None [OF None]
      by (simp add: memchr_def memchr_small_def Let_def w find_byte_def)
  next
    case (Some st)
    obtain s1 n1 where st: "st = (s1, n1)" by (cases st)
    have b: "find_byte m ?d (src, n) = (if UNALIGNED s1 then Some (s1, n1) else find_byte m ?d (s1, n1))"
      using while_prefix_Some [OF Some] by (simp add: find_byte_def st)
    have "memchr m src c n = (if UNALIGNED s1 then Some (if n1 = 0 then 0 else s1) else
        Option.bind (find_byte m ?d (s1, n1)) (\<lambda>(s2, n2). Some (if n2 = 0 then 0 else s2)))"
      unfolding memchr_def Let_def w Some st Option.bind.simps prod.case
      by (simp only: optional_find_long flip: bind_assoc)
    then show ?thesis unfolding memchr_small_def b by simp
  qed
qed

lemma find_long_back_bytes:
  "Option.bind (while_option (\<lambda>(s, n). LBLOCKSIZE \<le> n \<and> DETECTCHAR (load32 m (s - 3)) (fill_mask d) = 0)
      (\<lambda>(s, n). (s - 4, n - 4)) st0) (find_byte_back m d) = find_byte_back m d st0"
  unfolding find_byte_back_def
proof (rule while_skip [where I = "\<lambda>_. True" and n = 4])
  fix st :: "addr \<times> u32"
  assume g: "case st of (s, n) \<Rightarrow> LBLOCKSIZE \<le> n \<and> DETECTCHAR (load32 m (s - 3)) (fill_mask d) = 0"
  obtain s n where e: "st = (s, n)" by (cases st)
  have n: "m s \<noteq> d" "m (s - 1) \<noteq> d" "m (s - 2) \<noteq> d" "m (s - 3) \<noteq> d"
    using g unfolding e by (simp_all add: no_char_bytes all_less_4)
  show "True \<and> (case st of (s, n) \<Rightarrow> (s - 4, n - 4)) = ((\<lambda>(s, n). (s - 1, n - 1)) ^^ 4) st \<and>
      (\<forall>j < 4. case ((\<lambda>(s, n). (s - 1, n - 1)) ^^ j) st of (s, n) \<Rightarrow> n \<noteq> 0 \<and> m s \<noteq> d)"
    using g n count_positive [of 4 n] by (simp add: e down_down_funpow all_less_4)
qed auto

lemma optional_find_long_back:
  "Option.bind (if \<not> n < 4 then Option.bind
      (while_option (\<lambda>(a, n). LBLOCKSIZE \<le> n \<and> DETECTCHAR (load32 m a) (fill_mask d) = 0)
        (\<lambda>(a, n). (a - 4, n - 4)) (s - LBLOCKSIZE + 1, n)) (\<lambda>(a, n). Some (a + LBLOCKSIZE - 1, n)) else Some (s, n))
     (find_byte_back m d) = find_byte_back m d (s, n)"
proof -
  let ?f = "\<lambda>(a :: u32, n :: u32). (a + 4 - 1, n)"
  have "map_option ?f (while_option (\<lambda>(a, n). LBLOCKSIZE \<le> n \<and> DETECTCHAR (load32 m a) (fill_mask d) = 0)
        (\<lambda>(a, n). (a - 4, n - 4)) (s - 4 + 1, n)) =
      while_option (\<lambda>(s, n). LBLOCKSIZE \<le> n \<and> DETECTCHAR (load32 m (s - 3)) (fill_mask d) = 0)
        (\<lambda>(s, n). (s - 4, n - 4)) (?f (s - 4 + 1, n))"
    by (rule while_option_commute) (auto simp: algebra_simps)
  then have "Option.bind (while_option (\<lambda>(a, n). LBLOCKSIZE \<le> n \<and> DETECTCHAR (load32 m a) (fill_mask d) = 0)
        (\<lambda>(a, n). (a - 4, n - 4)) (s - 4 + 1, n)) (\<lambda>(a, n). Some (a + 4 - 1, n)) =
      while_option (\<lambda>(s, n). LBLOCKSIZE \<le> n \<and> DETECTCHAR (load32 m (s - 3)) (fill_mask d) = 0)
        (\<lambda>(s, n). (s - 4, n - 4)) (s, n)"
    by (simp add: map_option_case case_prod_unfold split: option.splits bind_splits)
  then show ?thesis using find_long_back_bytes by simp
qed

lemma memrchr_agrees: "memrchr m src c n = memrchr_small m src c n"
proof -
  let ?d = "ucast c :: u8" and ?st0 = "(src + n - 1, n)"
  let ?w = "while_option (\<lambda>st. (case st of (s, n) \<Rightarrow> UNALIGNED (s + 1)) \<and> (case st of (s, n) \<Rightarrow> n \<noteq> 0 \<and> m s \<noteq> ?d))
    (\<lambda>(s, n). (s - 1, n - 1)) ?st0"
  have w: "while_option (\<lambda>(s, n). UNALIGNED (s + 1) \<and> n \<noteq> 0 \<and> m s \<noteq> ?d) (\<lambda>(s, n). (s - 1, n - 1)) ?st0 = ?w"
    by (simp add: case_prod_unfold)
  show ?thesis
  proof (cases ?w)
    case None
    then show ?thesis using while_prefix_None [OF None]
      by (simp add: memrchr_def memrchr_small_def Let_def w find_byte_back_def)
  next
    case (Some st)
    obtain s1 n1 where st: "st = (s1, n1)" by (cases st)
    have b: "find_byte_back m ?d ?st0 = (if UNALIGNED (s1 + 1) then Some (s1, n1) else find_byte_back m ?d (s1, n1))"
      using while_prefix_Some [OF Some] by (simp add: find_byte_back_def st)
    have "memrchr m src c n = (if UNALIGNED (s1 + 1) then Some (if n1 = 0 then 0 else s1) else
        Option.bind (find_byte_back m ?d (s1, n1)) (\<lambda>(s2, n2). Some (if n2 = 0 then 0 else s2)))"
      unfolding memrchr_def Let_def w Some st Option.bind.simps prod.case
      by (subst optional_find_long_back [symmetric]) (simp only: bind_assoc)
    then show ?thesis unfolding memrchr_small_def b by simp
  qed
qed

lemma rawmemchr_agrees: "rawmemchr m src c = rawmemchr_small m src c"
proof -
  let ?d = "ucast c :: u8"
  let ?w = "while_option (\<lambda>s. UNALIGNED s \<and> m s \<noteq> ?d) (\<lambda>s. s + 1) src"
  have long: "Option.bind (while_option (\<lambda>a. DETECTCHAR (load32 m a) (fill_mask ?d) = 0) (\<lambda>a. a + 4) s)
      (while_option (\<lambda>s. m s \<noteq> ?d) (\<lambda>s. s + 1)) = while_option (\<lambda>s. m s \<noteq> ?d) (\<lambda>s. s + 1) s" for s
    by (rule while_skip [where I = "\<lambda>_. True" and n = 4]) (auto simp: up_funpow no_char_bytes)
  show ?thesis
  proof (cases ?w)
    case None
    then show ?thesis using while_prefix_None [OF None] by (simp add: rawmemchr_def rawmemchr_small_def)
  next
    case (Some s1)
    then show ?thesis using while_prefix_Some [OF Some] long by (simp add: rawmemchr_def rawmemchr_small_def)
  qed
qed

lemma find_nul_long_bytes: "Option.bind (find_nul_long m s) (find_nul m) = find_nul m s"
  unfolding find_nul_long_def find_nul_def
  by (rule while_skip [where I = "\<lambda>_. True" and n = 4]) (auto simp: up_funpow no_null_bytes)

lemma find_nul_prefix:
  assumes "while_option (\<lambda>s. UNALIGNED s \<and> m s \<noteq> 0) (\<lambda>s. s + 1) s0 = r"
  shows "find_nul m s0 = (case r of None \<Rightarrow> None | Some s \<Rightarrow> if UNALIGNED s then Some s else Option.bind (find_nul_long m s) (find_nul m))"
proof (cases r)
  case None
  with assms while_prefix_None [of UNALIGNED "\<lambda>s. m s \<noteq> 0"] show ?thesis by (simp add: find_nul_def)
next
  case (Some s)
  with assms while_prefix_Some [of UNALIGNED "\<lambda>s. m s \<noteq> 0"] show ?thesis
    by (simp only: find_nul_long_bytes) (simp add: find_nul_def)
qed

lemma strlen_agrees: "strlen_newlib m str = strlen_small m str"
proof (cases "while_option (\<lambda>s. UNALIGNED s \<and> m s \<noteq> 0) (\<lambda>s. s + 1) str")
  case None
  from find_nul_prefix [OF this] None show ?thesis by (simp add: strlen_newlib_def strlen_small_def)
next
  case (Some s)
  from find_nul_prefix [OF this] Some show ?thesis by (simp add: strlen_newlib_def strlen_small_def)
qed

lemma strchr_mask: "push_bit 16 (push_bit 8 (ucast c) OR ucast c) OR (push_bit 8 (ucast c) OR ucast c) = fill_mask c"
  by (simp add: fill_mask_def Let_def)

lemma strchr_agrees: "strchr m s0 i = strchr_small m s0 i"
proof -
  let ?c = "ucast i :: u8"
  let ?b = "\<lambda>s. m s \<noteq> 0 \<and> m s \<noteq> ?c"
  have long: "Option.bind (while_option (\<lambda>a. DETECTNULL (load32 m a) = 0 \<and> DETECTCHAR (load32 m a) (fill_mask ?c) = 0) (\<lambda>a. a + 4) s)
      (while_option ?b (\<lambda>s. s + 1)) = while_option ?b (\<lambda>s. s + 1) s" for s
    by (rule while_skip [where I = "\<lambda>_. True" and n = 4]) (auto simp: up_funpow no_char_bytes no_null_bytes)
  have flong: "Option.bind (while_option (\<lambda>a. DETECTNULL (load32 m a) = 0 \<and> DETECTCHAR (load32 m a) (fill_mask ?c) = 0) (\<lambda>a. a + 4) s)
      (find_char m ?c) = find_char m ?c s" for s
    unfolding find_char_def by (simp only: long flip: bind_assoc)
  show ?thesis
  proof (cases "?c = 0")
    case True
    have zero: "find_char m 0 s = find_nul m s" for s
    proof (cases "find_nul m s")
      case (Some t)
      then have "m t = 0" unfolding find_nul_def using while_option_stop by fastforce
      with Some show ?thesis by (simp add: find_char_def find_nul_def)
    qed (simp add: find_char_def find_nul_def)
    show ?thesis
    proof (cases "while_option (\<lambda>s. UNALIGNED s \<and> m s \<noteq> 0) (\<lambda>s. s + 1) s0")
      case None
      from find_nul_prefix [OF this] None True zero show ?thesis by (simp add: strchr_def strchr_small_def)
    next
      case (Some s)
      from find_nul_prefix [OF this] Some True zero show ?thesis by (simp add: strchr_def strchr_small_def)
    qed
  next
    case False
    let ?w = "while_option (\<lambda>s. UNALIGNED s \<and> ?b s) (\<lambda>s. s + 1) s0"
    show ?thesis
    proof (cases ?w)
      case None
      then show ?thesis using False while_prefix_None [OF None]
        by (simp add: strchr_def strchr_small_def find_char_def)
    next
      case (Some s1)
      have stop: "UNALIGNED s1 \<Longrightarrow> m s1 = 0 \<or> m s1 = ?c" using while_option_stop [OF Some] by auto
      have "find_char m ?c s0 = (if UNALIGNED s1 then Some (if m s1 = 0 then 0 else s1) else find_char m ?c s1)"
        using while_prefix_Some [OF Some] stop False by (auto simp: find_char_def)
      moreover have "strchr m s0 i = (if UNALIGNED s1 then Some (if m s1 = 0 then 0 else s1) else find_char m ?c s1)"
        unfolding strchr_def Let_def strchr_mask using False Some by (simp add: flong)
      ultimately show ?thesis by (simp add: strchr_small_def)
    qed
  qed
qed

section \<open>Comparing\<close>

lemma pair_count_funpow:
  "((\<lambda>(s1, s2, n). (s1 + 1, s2 + 1, n - 1)) ^^ k) (s1 :: u32, s2 :: u32, n :: u32) =
     (s1 + of_nat k, s2 + of_nat k, n - of_nat k)"
  by (induction k) (simp_all add: algebra_simps)

lemma pair_funpow:
  "((\<lambda>(s1, s2). (s1 + 1, s2 + 1)) ^^ k) (s1 :: u32, s2 :: u32) = (s1 + of_nat k, s2 + of_nat k)"
  by (induction k) (simp_all add: algebra_simps)

lemma diff_long_bytes:
  "Option.bind (while_option (\<lambda>(a1, a2, n). LBLOCKSIZE \<le> n \<and> load32 m a1 = load32 m a2)
      (\<lambda>(a1, a2, n). (a1 + 4, a2 + 4, n - 4)) st0) (diff_bytes m) = diff_bytes m st0"
  unfolding diff_bytes_def
proof (rule while_skip [where I = "\<lambda>_. True" and n = 4])
  fix st :: "addr \<times> addr \<times> u32"
  assume "case st of (a1, a2, n) \<Rightarrow> LBLOCKSIZE \<le> n \<and> load32 m a1 = load32 m a2"
  moreover obtain a1 a2 n where "st = (a1, a2, n)" by (cases st)
  ultimately show "True \<and> (case st of (a1, a2, n) \<Rightarrow> (a1 + 4, a2 + 4, n - 4)) =
      ((\<lambda>(s1, s2, n). (s1 + 1, s2 + 1, n - 1)) ^^ 4) st \<and>
      (\<forall>j < 4. case ((\<lambda>(s1, s2, n). (s1 + 1, s2 + 1, n - 1)) ^^ j) st of (s1, s2, n) \<Rightarrow> n \<noteq> 0 \<and> m s1 = m s2)"
    using count_positive [of 4 n] by (simp add: pair_count_funpow load32_eq_iff)
qed auto

lemma memcmp_agrees: "memcmp_newlib m m1 m2 n = memcmp_small m m1 m2 n"
proof -
  have "Option.bind (if \<not> n < 4 \<and> \<not> UNALIGNED2 m1 m2
      then while_option (\<lambda>(a1, a2, n). LBLOCKSIZE \<le> n \<and> load32 m a1 = load32 m a2)
             (\<lambda>(a1, a2, n). (a1 + 4, a2 + 4, n - 4)) (m1, m2, n)
      else Some (m1, m2, n)) (diff_bytes m) = diff_bytes m (m1, m2, n)"
    using diff_long_bytes by simp
  then show ?thesis unfolding memcmp_newlib_def memcmp_small_def by (simp only: flip: bind_assoc)
qed

text \<open>The loop stops at the first state where its condition fails.\<close>

lemma while_option_first:
  assumes "\<And>i. i < j \<Longrightarrow> b ((c ^^ i) s)" and "\<not> b ((c ^^ j) s)"
  shows "while_option b c s = Some ((c ^^ j) s)"
  using while_option_steps [of j b c s] assms by (simp add: while_option_unfold [of b c "(c ^^ j) s"])

lemma strcmp_agrees: "strcmp m s1 s2 = strcmp_small m s1 s2"
proof (cases "UNALIGNED2 s1 s2")
  case False
  let ?w = "while_option (\<lambda>(a1, a2). load32 m a1 = load32 m a2 \<and> DETECTNULL (load32 m a1) = 0) (\<lambda>(a1, a2). (a1 + 4, a2 + 4)) (s1, s2)"
  let ?g = "\<lambda>(s1, s2). m s1 \<noteq> 0 \<and> m s1 = m s2" and ?c = "\<lambda>(s1 :: u32, s2 :: u32). (s1 + 1, s2 + 1)"
  have "Option.bind ?w (while_option ?g ?c) = while_option ?g ?c (s1, s2)"
    by (rule while_skip [where I = "\<lambda>_. True" and n = 4])
      (auto simp: pair_funpow load32_eq_iff no_null_bytes)
  then have skip: "Option.bind ?w (str_diff m) = str_diff m (s1, s2)"
    unfolding str_diff_def by (simp only: flip: bind_assoc)
  have eq: "str_diff m (a1, a2) = Some 0" if "?w = Some (a1, a2)" "load32 m a1 = load32 m a2" for a1 a2
  proof -
    have same: "\<forall>j < 4. m (a1 + of_nat j) = m (a2 + of_nat j)" using that(2) by (simp add: load32_eq_iff)
    have "DETECTNULL (load32 m a1) \<noteq> 0" using while_option_stop [OF that(1)] that(2) by simp
    then have ex: "\<exists>j. j < 4 \<and> m (a1 + of_nat j) = 0" by (auto simp: no_null_bytes)
    define j where "j = (LEAST j. j < 4 \<and> m (a1 + of_nat j) = 0)"
    have j: "j < 4 \<and> m (a1 + of_nat j) = 0" unfolding j_def using ex by (rule LeastI_ex)
    have before: "m (a1 + of_nat i) \<noteq> 0" if "i < j" for i
      using not_less_Least [of i "\<lambda>j. j < 4 \<and> m (a1 + of_nat j) = 0"] that j unfolding j_def by auto
    have "while_option ?g ?c (a1, a2) = Some ((?c ^^ j) (a1, a2))"
      using before j same by (intro while_option_first) (auto simp: pair_funpow)
    moreover have "m (a2 + of_nat j) = 0" using j same by force
    ultimately show ?thesis using j by (simp add: str_diff_def pair_funpow)
  qed
  show ?thesis
  proof (cases ?w)
    case None
    then show ?thesis using skip False by (simp add: strcmp_def strcmp_small_def)
  next
    case (Some a)
    obtain a1 a2 where a: "a = (a1, a2)" by (cases a)
    show ?thesis using skip False Some eq [of a1 a2] unfolding a by (simp add: strcmp_def strcmp_small_def)
  qed
qed (simp add: strcmp_def strcmp_small_def)


text \<open>The word loop of \<open>strncmp\<close>, the step of the byte loop, and the difference where that stops.\<close>

definition strn_words :: "memory \<Rightarrow> addr \<times> addr \<times> u32 \<Rightarrow> (addr \<times> addr \<times> u32) option" where
  "strn_words m = while_option (\<lambda>(a1, a2, n). LBLOCKSIZE \<le> n \<and> load32 m a1 = load32 m a2 \<and> n - 4 \<noteq> 0 \<and> DETECTNULL (load32 m a1) = 0)
     (\<lambda>(a1, a2, n). (a1 + 4, a2 + 4, n - 4))"

definition strn_diff :: "memory \<Rightarrow> addr \<times> addr \<times> u32 \<Rightarrow> int option" where
  "strn_diff m st = do { (p1, p2, k) \<leftarrow> strn_scan m st; Some (uint (m p1) - uint (m p2)) }"

lemma strn_words_skip: "Option.bind (strn_words m (s1, s2, n)) (strn_scan m) = strn_scan m (s1, s2, n)"
  unfolding strn_scan_def strn_words_def
proof (rule while_skip [where I = "\<lambda>_. True" and n = 4])
  let ?c = "\<lambda>(s1 :: u32, s2 :: u32, n :: u32). (s1 + 1, s2 + 1, n - 1)"
  fix st :: "addr \<times> addr \<times> u32"
  assume "case st of (a1, a2, n) \<Rightarrow> LBLOCKSIZE \<le> n \<and> load32 m a1 = load32 m a2 \<and> n - 4 \<noteq> 0 \<and> DETECTNULL (load32 m a1) = 0"
  moreover obtain a1 a2 k where e: "st = (a1, a2, k)" by (cases st)
  ultimately have g: "4 \<le> k" "load32 m a1 = load32 m a2" "k - 4 \<noteq> 0" "DETECTNULL (load32 m a1) = 0" by auto
  have "unat k \<noteq> 4" using g(3) by (auto simp: word_unat_eq_iff [of k 4])
  then have "5 \<le> k" using g(1) by (simp add: word_le_nat_alt)
  then have "k - of_nat j \<noteq> 0" "k - of_nat j - 1 \<noteq> 0" if "j < 4" for j
    using count_positive [of 5 k j] count_positive [of 5 k "Suc j"] that by (simp_all add: algebra_simps)
  then show "True \<and> (case st of (a1, a2, n) \<Rightarrow> (a1 + 4, a2 + 4, n - 4)) = (?c ^^ 4) st \<and>
      (\<forall>j < 4. case (?c ^^ j) st of (s1, s2, n) \<Rightarrow> n \<noteq> 0 \<and> m s1 = m s2 \<and> n - 1 \<noteq> 0 \<and> m s1 \<noteq> 0)"
    using g unfolding e by (simp add: pair_count_funpow load32_eq_iff no_null_bytes)
qed auto

lemma strn_diff_equal_word:
  assumes "k - 4 = 0 \<or> DETECTNULL (load32 m a1) \<noteq> 0" and k: "4 \<le> k" and "load32 m a1 = load32 m a2"
  shows "strn_diff m (a1, a2, k) = Some 0"
proof -
  let ?g = "\<lambda>(s1, s2, n). n \<noteq> 0 \<and> m s1 = m s2 \<and> n - 1 \<noteq> 0 \<and> m s1 \<noteq> 0"
  let ?c = "\<lambda>(s1 :: u32, s2 :: u32, n :: u32). (s1 + 1, s2 + 1, n - 1)"
  have same: "\<forall>j < 4. m (a1 + of_nat j) = m (a2 + of_nat j)" using assms(3) by (simp add: load32_eq_iff)
  let ?stop = "\<lambda>j. j < 4 \<and> (m (a1 + of_nat j) = 0 \<or> k - of_nat j - 1 = 0)"
  from assms(1) have ex: "\<exists>j. ?stop j"
  proof
    assume "k - 4 = 0"
    then have "k - of_nat 3 - 1 = 0" by simp
    then show ?thesis by (intro exI [of _ 3]) simp
  qed (auto simp: no_null_bytes)
  define j where "j = (LEAST j. ?stop j)"
  have j: "?stop j" unfolding j_def using ex by (rule LeastI_ex)
  have before: "m (a1 + of_nat i) \<noteq> 0 \<and> k - of_nat i - 1 \<noteq> 0" if "i < j" for i
    using not_less_Least [of i ?stop] that j unfolding j_def by auto
  have pos: "k - of_nat i \<noteq> 0" if "i < 4" for i using count_positive [of 4 k i] that k by simp
  have "while_option ?g ?c (a1, a2, k) = Some ((?c ^^ j) (a1, a2, k))"
  proof (rule while_option_first)
    show "?g ((?c ^^ i) (a1, a2, k))" if "i < j" for i
      using before [OF that] pos [of i] same j that by (simp add: pair_count_funpow)
    show "\<not> ?g ((?c ^^ j) (a1, a2, k))" using j by (auto simp: pair_count_funpow)
  qed
  moreover have "m (a1 + of_nat j) = m (a2 + of_nat j)" using j same by blast
  ultimately show ?thesis by (simp add: strn_diff_def strn_scan_def pair_count_funpow)
qed

lemma strncmp_agrees: "strncmp m s1 s2 n = strncmp_small m s1 s2 n"
proof -
  have skip: "strn_diff m (s1, s2, n) = Option.bind (strn_words m (s1, s2, n)) (strn_diff m)"
    unfolding strn_diff_def by (simp only: strn_words_skip flip: bind_assoc)
  have byte: "Option.bind (strn_scan m st) (\<lambda>(p1, p2, k). Some (if k \<noteq> 0 \<and> m p1 = m p2 then 0 else uint (m p1) - uint (m p2))) = strn_diff m st" for st
    by (cases "strn_scan m st") (auto simp: strn_diff_def case_prod_unfold)
  have words: "strncmp m s1 s2 n = (if n = 0 then Some 0 else if UNALIGNED2 s1 s2 then strn_diff m (s1, s2, n) else do {
      (a1, a2, k) \<leftarrow> strn_words m (s1, s2, n);
      if 4 \<le> k \<and> load32 m a1 = load32 m a2 then Some 0 else strn_diff m (a1, a2, k) })"
    unfolding strncmp_def strn_words_def byte [symmetric] by simp
  have small: "strncmp_small m s1 s2 n = (if n = 0 then Some 0 else strn_diff m (s1, s2, n))"
    by (simp add: strncmp_small_def strn_diff_def)
  show ?thesis
  proof (cases "strn_words m (s1, s2, n)")
    case None
    then show ?thesis using skip by (simp add: words small)
  next
    case (Some a)
    obtain a1 a2 k where a: "a = (a1, a2, k)" by (cases a)
    have "strn_diff m (a1, a2, k) = Some 0" if "4 \<le> k" "load32 m a1 = load32 m a2"
      using while_option_stop [OF Some [unfolded strn_words_def a]] that by (intro strn_diff_equal_word) auto
    then show ?thesis using Some skip unfolding a by (simp add: words small)
  qed
qed

section \<open>Copying strings\<close>

text \<open>Copying an aligned word byte by byte does not disturb the bytes still to be read.\<close>

lemma copy1_funpow:
  "\<exists>m'. (copy1 ^^ j) (m, d, s) = (m', d + of_nat j, s + of_nat j) \<and> (\<forall>a. (\<forall>i < j. a \<noteq> d + of_nat i) \<longrightarrow> m' a = m a)"
proof (induction j)
  case (Suc j)
  then obtain m' where "(copy1 ^^ j) (m, d, s) = (m', d + of_nat j, s + of_nat j)"
    "\<forall>a. (\<forall>i < j. a \<noteq> d + of_nat i) \<longrightarrow> m' a = m a" by blast
  then show ?case by (auto simp: copy1_def [abs_def] algebra_simps)
qed simp

lemma copy1_source:
  assumes "\<not> UNALIGNED2 s d" "j < 4"
  shows "\<exists>m'. (copy1 ^^ j) (m, d, s) = (m', d + of_nat j, s + of_nat j) \<and> m' (s + of_nat j) = m (s + of_nat j)"
proof -
  have "s + of_nat j \<noteq> d + of_nat i" if "i < j" for i
    using assms that by (intro aligned_bytes_apart) (auto simp: UNALIGNED2_iff word_less_nat_alt word_unat_eq_iff unat_of_nat32)
  then show ?thesis using copy1_funpow [of j m d s] by blast
qed

lemma copy_str_long_bytes:
  assumes "\<not> UNALIGNED2 s d"
  shows "Option.bind (copy_str_long (m, d, s)) copy_str = copy_str (m, d, s)"
proof -
  let ?b = "\<lambda>(m :: memory, d :: addr, s). m s \<noteq> 0"
  have "Option.bind (copy_str_long (m, d, s)) (while_option ?b copy1) = while_option ?b copy1 (m, d, s)"
    unfolding copy_str_long_def
  proof (rule while_skip [where I = "\<lambda>(m, d, s). \<not> UNALIGNED2 s d" and n = 4])
    fix st :: "memory \<times> addr \<times> addr"
    assume st: "case st of (m, d, s) \<Rightarrow> \<not> UNALIGNED2 s d" "case st of (m, d, s) \<Rightarrow> DETECTNULL (load32 m s) = 0"
    obtain m d s where e: "st = (m, d, s)" by (cases st)
    have al: "\<not> UNALIGNED2 s d" and z: "\<forall>j < 4. m (s + of_nat j) \<noteq> 0"
      using st unfolding e by (simp_all add: no_null_bytes)
    have "?b ((copy1 ^^ j) st)" if "j < 4" for j
      using copy1_source [OF al that, of m] z that unfolding e by auto
    moreover have "case copy_long st of (m, d, s) \<Rightarrow> \<not> UNALIGNED2 s d"
      using al unfolding e by (simp add: copy_long_def UNALIGNED2_iff)
    ultimately show "(case copy_long st of (m, d, s) \<Rightarrow> \<not> UNALIGNED2 s d) \<and> copy_long st = (copy1 ^^ 4) st \<and>
        (\<forall>j < 4. ?b ((copy1 ^^ j) st))"
      using copy_long_bytes [OF al] unfolding e by simp
  qed (use assms in auto)
  then show ?thesis unfolding copy_str_def by (simp only: flip: bind_assoc)
qed

lemma optional_copy_str_long:
  "Option.bind (if \<not> UNALIGNED2 s d then copy_str_long (m, d, s) else Some (m, d, s)) copy_str = copy_str (m, d, s)"
  using copy_str_long_bytes by simp

lemma strcpy_agrees: "strcpy_newlib m d s = strcpy_small m d s"
  unfolding strcpy_newlib_def strcpy_small_def by (simp only: optional_copy_str_long flip: bind_assoc)

lemma stpcpy_agrees: "stpcpy m d s = stpcpy_small m d s"
  unfolding stpcpy_def stpcpy_small_def by (simp only: optional_copy_str_long flip: bind_assoc)

lemma optional_find_nul_long:
  "Option.bind (if \<not> UNALIGNED s then find_nul_long m s else Some s) (find_nul m) = find_nul m s"
  using find_nul_long_bytes by simp

lemma strcat_agrees: "strcat m s1 s2 = strcat_small m s1 s2"
proof -
  have "strcat m s1 s2 = Option.bind (find_nul m s1) (\<lambda>e. Option.bind (strcpy_newlib m e s2) (\<lambda>(_, m1). Some (s1, m1)))"
    unfolding strcat_def by (simp only: optional_find_nul_long flip: bind_assoc)
  then show ?thesis by (simp add: strcpy_agrees strcpy_small_def strcat_small_def case_prod_unfold)
qed

lemma strncat_agrees: "strncat m s1 s2 n = strncat_small m s1 s2 n"
  unfolding strncat_def strncat_small_def by (simp only: optional_find_nul_long flip: bind_assoc)

lemma copy_strn_long_bytes:
  assumes "\<not> UNALIGNED2 s d"
    and detect: "\<And>m s. test m s \<Longrightarrow> \<forall>j < 4. m (s + of_nat j) \<noteq> z"
  shows "Option.bind (while_option (\<lambda>(m, d, s, n). LBLOCKSIZE \<le> n \<and> test m s) copy_longn (m, d, s, n))
      (while_option (\<lambda>(m, d, s, n). n \<noteq> 0 \<and> m s \<noteq> z) copy1n) = while_option (\<lambda>(m, d, s, n). n \<noteq> 0 \<and> m s \<noteq> z) copy1n (m, d, s, n)"
proof (rule while_skip [where I = "\<lambda>(m, d, s, n). \<not> UNALIGNED2 s d" and n = 4])
  let ?b = "\<lambda>(m :: memory, d :: addr, s, n :: u32). n \<noteq> 0 \<and> m s \<noteq> z"
  fix st :: "memory \<times> addr \<times> addr \<times> u32"
  assume st: "case st of (m, d, s, n) \<Rightarrow> \<not> UNALIGNED2 s d" "case st of (m, d, s, n) \<Rightarrow> LBLOCKSIZE \<le> n \<and> test m s"
  obtain m d s n where e: "st = (m, d, s, n)" by (cases st)
  have al: "\<not> UNALIGNED2 s d" and n: "4 \<le> n" and z: "\<forall>j < 4. m (s + of_nat j) \<noteq> z"
    using st detect unfolding e by simp_all
  have "?b ((copy1n ^^ j) st)" if "j < 4" for j
    using copy1_source [OF al that, of m] z that n count_positive [of 4 n j] unfolding e by (auto simp: copy1n_funpow)
  moreover have "case copy_longn st of (m, d, s, n) \<Rightarrow> \<not> UNALIGNED2 s d"
    using al unfolding e by (simp add: copy_longn_def UNALIGNED2_iff)
  ultimately show "(case copy_longn st of (m, d, s, n) \<Rightarrow> \<not> UNALIGNED2 s d) \<and> copy_longn st = (copy1n ^^ 4) st \<and>
      (\<forall>j < 4. ?b ((copy1n ^^ j) st))"
    using copy_longn_bytes [OF al] unfolding e by simp
qed (use assms(1) in auto)

lemma optional_copy_strn_long:
  "Option.bind (if \<not> UNALIGNED2 s d \<and> \<not> n < 4 then copy_strn_long (m, d, s, n) else Some (m, d, s, n)) copy_strn = copy_strn (m, d, s, n)"
proof -
  have g: "(\<lambda>(m :: memory, d :: addr, s, n :: u32). 0 < n \<and> m s \<noteq> 0) = (\<lambda>(m, d, s, n). n \<noteq> 0 \<and> m s \<noteq> 0)"
    by (auto simp: fun_eq_iff word_gt_0)
  have "Option.bind (if \<not> UNALIGNED2 s d \<and> \<not> n < 4 then copy_strn_long (m, d, s, n) else Some (m, d, s, n))
      (while_option (\<lambda>(m, d, s, n). n \<noteq> 0 \<and> m s \<noteq> 0) copy1n) = while_option (\<lambda>(m, d, s, n). n \<noteq> 0 \<and> m s \<noteq> 0) copy1n (m, d, s, n)"
    using copy_strn_long_bytes [of s d "\<lambda>m s. DETECTNULL (load32 m s) = 0" 0 m n]
    by (simp add: copy_strn_long_def no_null_bytes)
  then show ?thesis unfolding copy_strn_def g by (simp only: flip: bind_assoc)
qed

lemma strncpy_agrees: "strncpy m d s n = strncpy_small m d s n"
  unfolding strncpy_def strncpy_small_def by (simp only: optional_copy_strn_long flip: bind_assoc)

lemma stpncpy_agrees: "stpncpy m d s n = stpncpy_small m d s n"
  unfolding stpncpy_def stpncpy_small_def by (simp only: optional_copy_strn_long flip: bind_assoc)


subsection \<open>memccpy\<close>

lemma memccpy_mask_small:
  assumes "\<not> bit c 7"
  shows "memccpy_mask c = fill_mask c"
proof -
  have s: "scast c = (ucast c :: u32)"
    using assms by (intro bit_word_eqI) (auto simp: bit_simps min_def le_less dest: bit_imp_le_length split: if_splits)
  have add: "push_bit k x OR x = push_bit k x + (x :: u32)" if "\<And>n. bit x n \<Longrightarrow> n < k" for k x
    using that by (intro disjunctive_add [symmetric]) (fastforce simp: bit_simps dest: leD)
  let ?c = "ucast c :: u32"
  have low: "bit ?c n \<Longrightarrow> n < 8" for n by (auto simp: bit_simps dest: bit_imp_le_length)
  have "push_bit 8 ?c OR ?c = push_bit 8 ?c + ?c" using low by (rule add)
  moreover have "push_bit 16 (push_bit 8 ?c OR ?c) OR (push_bit 8 ?c OR ?c) = push_bit 16 (push_bit 8 ?c OR ?c) + (push_bit 8 ?c OR ?c)"
    using low by (intro add) (fastforce simp: bit_simps)
  ultimately show ?thesis
    by (simp add: memccpy_mask_def fill_mask_def Let_def funpow_4 s push_bit_eq_mult algebra_simps)
qed

lemma memccpy_agrees:
  assumes "\<not> bit (ucast c :: u8) 7"
  shows "memccpy m d s c n = memccpy_small m d s c n"
proof -
  have c: "ucast (c AND 0xff) = (ucast c :: u8)"
  proof -
    have "c AND 0xff = take_bit 8 c" by (simp add: take_bit_eq_mask mask_eq_exp_minus_1)
    then show ?thesis by (simp only:) (rule bit_word_eqI, auto simp: bit_simps)
  qed
  let ?c = "ucast c :: u8"
  have mask: "DETECTNULL (load32 m s XOR memccpy_mask ?c) = 0 \<longleftrightarrow> (\<forall>j < 4. m (s + of_nat j) \<noteq> ?c)" for m s
    using no_char_bytes [of m s ?c] by (simp add: DETECTCHAR_def memccpy_mask_small [OF assms])
  have "Option.bind (if \<not> n < 4 \<and> \<not> UNALIGNED2 s d
      then while_option (\<lambda>(m, d, s, n). LBLOCKSIZE \<le> n \<and> DETECTNULL (load32 m s XOR memccpy_mask ?c) = 0) copy_longn (m, d, s, n)
      else Some (m, d, s, n)) (while_option (\<lambda>(m, d, s, n). n \<noteq> 0 \<and> m s \<noteq> ?c) copy1n) =
      while_option (\<lambda>(m, d, s, n). n \<noteq> 0 \<and> m s \<noteq> ?c) copy1n (m, d, s, n)"
    using copy_strn_long_bytes [of s d "\<lambda>m s. DETECTNULL (load32 m s XOR memccpy_mask ?c) = 0" ?c m n] mask by simp
  then show ?thesis unfolding memccpy_def memccpy_small_def copy_until_def Let_def c by (simp only: flip: bind_assoc)
qed

section \<open>The kernel's own routines\<close>

lemma copy_bytes_from:
  "i \<le> n \<Longrightarrow> copy_bytes (m, d + i, s + i, n - i) =
     Some (for_range i n (\<lambda>i m. m(d + i := m (s + i))) m, d + n, s + n, 0)"
proof (induction i n "\<lambda>i (m :: memory). m(d + i := m (s + i))" m rule: for_range.induct [case_names loop])
  case (loop i n m)
  show ?case
  proof (cases "i < n")
    case True
    then have "n - i \<noteq> 0" by simp
    then have "copy_bytes (m, d + i, s + i, n - i) = copy_bytes (m(d + i := m (s + i)), d + (i + 1), s + (i + 1), n - (i + 1))"
      unfolding copy_bytes_def by (subst while_option_unfold) (simp add: copy1n_def algebra_simps)
    moreover have "i + 1 \<le> n" using True by (simp add: word_le_nat_alt word_less_nat_alt unat_Suc_less [OF True])
    ultimately show ?thesis using loop.hyps [OF True] True by (subst for_range.simps) simp
  next
    case False
    then have "i = n" using loop.prems by simp
    then show ?thesis unfolding copy_bytes_def by (subst while_option_unfold, subst for_range.simps) simp
  qed
qed

lemma set_bytes_from:
  "i \<le> n \<Longrightarrow> set_bytes c (m, p + i, n - i) = Some (for_range i n (\<lambda>i m. m(p + i := c)) m, p + n, 0)"
proof (induction i n "\<lambda>i (m :: memory). m(p + i := c)" m rule: for_range.induct [case_names loop])
  case (loop i n m)
  show ?case
  proof (cases "i < n")
    case True
    then have "n - i \<noteq> 0" by simp
    then have "set_bytes c (m, p + i, n - i) = set_bytes c (m(p + i := c), p + (i + 1), n - (i + 1))"
      unfolding set_bytes_def by (subst while_option_unfold) (simp add: set1_def algebra_simps)
    moreover have "i + 1 \<le> n" using True by (simp add: word_le_nat_alt word_less_nat_alt unat_Suc_less [OF True])
    ultimately show ?thesis using loop.hyps [OF True] True by (subst for_range.simps) simp
  next
    case False
    then have "i = n" using loop.prems by simp
    then show ?thesis unfolding set_bytes_def by (subst while_option_unfold, subst for_range.simps) simp
  qed
qed

lemma copy_backwards_from:
  "copy_backwards (m, d + i, s + i, i) = Some (for_downto i (\<lambda>i m. m(d + (i - 1) := m (s + (i - 1)))) m, d, s, 0)"
proof (induction i "\<lambda>i (m :: memory). m(d + (i - 1) := m (s + (i - 1)))" m rule: for_downto.induct [case_names loop])
  case (loop i m)
  show ?case
  proof (cases "i = 0")
    case False
    then have "copy_backwards (m, d + i, s + i, i) =
        copy_backwards (m(d + (i - 1) := m (s + (i - 1))), d + (i - 1), s + (i - 1), i - 1)"
      unfolding copy_backwards_def by (subst while_option_unfold) (simp add: algebra_simps)
    then show ?thesis using loop.hyps [OF False] False by (subst for_downto.simps) simp
  next
    case True
    then show ?thesis unfolding copy_backwards_def by (subst while_option_unfold, subst for_downto.simps) simp
  qed
qed

lemma memmove_small_range:
  assumes "unat d + unat n \<le> 2 ^ 32" "unat s + unat n < 2 ^ 32"
  shows "memmove_small m d s n = Some (d, copy_range m d s (unat n))"
proof (cases "s < d \<and> d < s + n")
  case True
  then have "n \<le> s - d" using wrapped_distance [of s d n] assms(1) by simp
  then show ?thesis using True copy_backwards_from [of m d n s] copy_backward [of d s n m] by (simp add: memmove_small_def)
next
  case False
  have "d = s \<or> n \<le> d - s"
  proof (cases "d < s")
    case True
    then show ?thesis using wrapped_distance [of d s n] assms(2) by simp
  next
    case nlt: False
    have "unat (s + n) = unat s + unat n" using assms(2) by (simp add: unat_word_ariths)
    moreover have "unat (d - s) = unat d - unat s" using nlt by (simp add: unat_sub not_less)
    ultimately show ?thesis using False nlt by (auto simp: word_le_nat_alt word_less_nat_alt word_unat_eq_iff)
  qed
  then show ?thesis unfolding memmove_small_def if_not_P [OF False]
    using copy_bytes_from [of 0 n m d s] copy_forward [of d s n m] by simp
qed

section \<open>Properties\<close>

text \<open>
  Property C19: the routines that copy and fill a word at a time, with alignment loops and fourfold
  unrolled bodies, compute what their plain byte loops compute, for all pointers, lengths and
  memories: also when the ranges overlap or wrap around, and one of the two does not end exactly
  when the other does not.
\<close>

theorem word_copies_agree:
  "memcpy_newlib m d s n = memcpy_small m d s n \<and>
   mempcpy m d s n = mempcpy_small m d s n \<and>
   memmove_newlib m d s n = memmove_small m d s n \<and>
   memset_newlib m d c n = memset_small m d c n \<and>
   strcpy_newlib m d s = strcpy_small m d s \<and>
   stpcpy m d s = stpcpy_small m d s \<and>
   strcat m d s = strcat_small m d s \<and>
   strncpy m d s n = strncpy_small m d s n \<and>
   stpncpy m d s n = stpncpy_small m d s n \<and>
   strncat m d s n = strncat_small m d s n"
  by (simp add: memcpy_agrees mempcpy_agrees memmove_agrees memset_agrees strcpy_agrees stpcpy_agrees strcat_agrees
      strncpy_agrees stpncpy_agrees strncat_agrees)

text \<open>
  Property C22: the routines that search and compare a word at a time, with the zero byte test on
  whole words, give the result of their plain byte loops for all arguments.
\<close>

theorem word_searches_agree:
  "memchr m s c n = memchr_small m s c n \<and>
   memrchr m s c n = memrchr_small m s c n \<and>
   rawmemchr m s c = rawmemchr_small m s c \<and>
   strlen_newlib m s = strlen_small m s \<and>
   strchr m s c = strchr_small m s c \<and>
   memcmp_newlib m s t n = memcmp_small m s t n \<and>
   strcmp m s t = strcmp_small m s t \<and>
   strncmp m s t n = strncmp_small m s t n"
  by (simp add: memchr_agrees memrchr_agrees rawmemchr_agrees strlen_agrees strchr_agrees memcmp_agrees strcmp_agrees
      strncmp_agrees)

text \<open>
  Property C34: the C library's \<open>memcpy\<close> and \<open>memset\<close> always return and do what the kernel's own
  \<open>Libk::memcpy\<close> and \<open>Libk::memset\<close> do, for all arguments; so does \<open>memmove\<close> for ranges that do not
  reach the end of the address space.
\<close>

theorem newlib_matches_kernel:
  "memcpy_newlib m d s n = Some (memcpy m d s n) \<and>
   memset_newlib m d c n = Some (memset m d c n) \<and>
   (unat d + unat n \<le> 2 ^ 32 \<and> unat s + unat n < 2 ^ 32 \<longrightarrow> memmove_newlib m d s n = Some (memmove m d s n))"
  using copy_bytes_from [of 0 n m d s] set_bytes_from [of 0 n "ucast c" m d] memmove_small_range [of d n s m]
    memmove_spec [of d n s m]
  by (simp add: memcpy_agrees memcpy_small_def memcpy_def memset_agrees memset_small_def memset_def memmove_agrees)

theorem newlib_matches_kernel_witness:
  "memmove_newlib (\<lambda>a. ucast a) 0x1004 0x1000 8 = Some (memmove (\<lambda>a. ucast a) 0x1004 0x1000 8)"
  using newlib_matches_kernel [of "\<lambda>a. ucast a" "0x1004" "0x1000" 8 0] by simp

definition ff_at_1001 :: memory where
  "ff_at_1001 = (\<lambda>a. if a = 0x1001 then 0xFF else 0)"

text \<open>
  \<open>memccpy\<close> agrees with its plain version when the end character is below 128. For the
  others the word mask is built from a sign-extended \<open>char\<close> and is wrong: with end character \<open>0xFF\<close>
  in the second byte of an aligned word, the plain loop stops there and returns the position after
  it, while the word loop copies the whole word and reports that the character was not found.
\<close>

theorem memccpy_sign_extension:
  "(\<not> bit (ucast c :: u8) 7 \<longrightarrow> memccpy m d s c n = memccpy_small m d s c n) \<and>
   map_option fst (memccpy_small ff_at_1001 0x2000 0x1000 0xFF 4) = Some 0x2002 \<and>
   map_option fst (memccpy ff_at_1001 0x2000 0x1000 0xFF 4) = Some 0"
proof (intro conjI)
  show "\<not> bit (ucast c :: u8) 7 \<longrightarrow> memccpy m d s c n = memccpy_small m d s c n" by (simp add: memccpy_agrees)
  show "map_option fst (memccpy_small ff_at_1001 0x2000 0x1000 0xFF 4) = Some 0x2002"
    by (simp add: memccpy_small_def copy_until_def while_option_unfold copy1n_def ff_at_1001_def)
  have "memccpy_mask 0xFF = 0xFEFEFEFF" by (simp add: memccpy_mask_def funpow_4 push_bit_eq_mult)
  then have "DETECTNULL (load32 ff_at_1001 0x1000 XOR memccpy_mask 0xFF) = 0"
    by (simp add: DETECTNULL_def load32_def ff_at_1001_def)
  then show "map_option fst (memccpy ff_at_1001 0x2000 0x1000 0xFF 4) = Some 0"
    by (simp add: memccpy_def UNALIGNED2_def copy_until_def while_option_unfold copy_longn_def)
qed

theorem memccpy_sign_extension_witness:
  "memccpy ff_at_1001 0x2000 0x1000 0 8 = memccpy_small ff_at_1001 0x2000 0x1000 0 8"
  using memccpy_sign_extension [of 0 ff_at_1001 "0x2000" "0x1000" 8] by simp

end
