(* ===== verification/Syscalls.thy ===== *)
theory Syscalls
  imports Devices Heap
begin

text \<open>
  System calls from both sides: \<open>Kernel/Syscalls.cpp\<close> with the common interrupt entry
  \<open>interruptHandler\<close> of \<open>Arch/i386/IDT.cpp\<close>, and the stubs of the C library port,
  \<open>newlib/libc/sys/sakura/syscalls.c\<close>, which reach it through interrupt 128. The parameters \<open>fp\<close> and
  \<open>buf\<close> are the floating-point operations and the address of the static buffer of \<open>printk\<close>, and
  \<open>beyond\<close> the bytes behind the key map.
\<close>

section \<open>Definitions\<close>

subsection \<open>The state of the kernel\<close>

datatype handler = SchedulerHandler | KeyboardHandler

record kernel =
  heap :: kheap
  console :: "world \<times> tty option"
  kports :: ports
  callbacks :: "u32 \<Rightarrow> handler option"
  kbd_buffer :: "u8 ringbuffer"

text \<open>A string in memory, up to its terminating zero.\<close>

partial_function (option) read_string :: "machine \<Rightarrow> addr \<Rightarrow> u8 list option" where
  "read_string s a =
     do { b \<leftarrow> vload8 s a; if b = 0 then Some [] else do { bs \<leftarrow> read_string s (a + 1); Some (b # bs) } }"

definition ascii :: "string \<Rightarrow> u8 list" where
  "ascii = map of_char"

definition kernel_printk :: "fpu \<Rightarrow> addr \<Rightarrow> u8 list \<Rightarrow> va_arg list \<Rightarrow> kernel \<Rightarrow> kernel option" where
  "kernel_printk fp buf format va k = map_option (\<lambda>c. k\<lparr>console := c\<rparr>) (printk fp buf format va (console k))"

subsection \<open>Syscalls.cpp\<close>

abbreviation (input) SYSCALL_OPEN :: u32 where "SYSCALL_OPEN \<equiv> 0"
abbreviation (input) SYSCALL_CLOSE :: u32 where "SYSCALL_CLOSE \<equiv> 1"
abbreviation (input) SYSCALL_WRITE :: u32 where "SYSCALL_WRITE \<equiv> 2"

definition SyscallOpen :: "fpu \<Rightarrow> addr \<Rightarrow> addr \<Rightarrow> u32 \<Rightarrow> kernel \<Rightarrow> (u32 \<times> kernel) option" where
  "SyscallOpen fp buf fileName flags k =
     do {
       name \<leftarrow> read_string (hmachine (heap k)) fileName;
       k' \<leftarrow> kernel_printk fp buf (ascii ''syscall open. File = %s'' @ [13, 10]) [VStr name] k;
       Some (1, k')
     }"

definition SyscallWrite :: "fpu \<Rightarrow> addr \<Rightarrow> u32 \<Rightarrow> addr \<Rightarrow> u32 \<Rightarrow> kernel \<Rightarrow> (u32 \<times> kernel) option" where
  "SyscallWrite fp buf fd data len k =
     do {
       k' \<leftarrow> (if fd = 1 then do { text \<leftarrow> read_string (hmachine (heap k)) data; kernel_printk fp buf text [] k }
              else Some k);
       Some (0, k')
     }"

definition SyscallClose :: "fpu \<Rightarrow> addr \<Rightarrow> u32 \<Rightarrow> kernel \<Rightarrow> (u32 \<times> kernel) option" where
  "SyscallClose fp buf file k =
     map_option (Pair 0) (kernel_printk fp buf (ascii ''syscall close. file = %d'' @ [13, 10]) [VWord file] k)"

definition Handle ::
  "fpu \<Rightarrow> addr \<Rightarrow> u32 \<Rightarrow> u32 \<Rightarrow> u32 \<Rightarrow> u32 \<Rightarrow> u32 \<Rightarrow> u32 \<Rightarrow> kernel \<Rightarrow> (u32 \<times> kernel) option" where
  "Handle fp buf syscall p1 p2 p3 p4 p5 k =
     (if syscall = SYSCALL_OPEN then SyscallOpen fp buf p1 p2 k
      else if syscall = SYSCALL_WRITE then SyscallWrite fp buf p1 p2 p3 k
      else if syscall = SYSCALL_CLOSE then SyscallClose fp buf p1 k
      else map_option (Pair 1) (kernel_printk fp buf (ascii ''Unknown syscall %d'' @ [13, 10]) [VWord syscall] k))"

subsection \<open>The interrupt entry\<close>

text \<open>The callbacks of the two handlers, on the parts of the state they own.\<close>

definition irqCallback :: "(nat \<Rightarrow> u8) \<Rightarrow> handler \<Rightarrow> kernel \<Rightarrow> kernel option" where
  "irqCallback beyond h k =
     (case h of
        SchedulerHandler \<Rightarrow>
          map_option (\<lambda>s. k\<lparr>heap := (heap k)\<lparr>hsched := s\<rparr>\<rparr>) (scheduler_irqCallback (hsched (heap k)))
      | KeyboardHandler \<Rightarrow>
          let kb = keyboard_irqCallback beyond
                     \<lparr>m_ringbuffer = kbd_buffer k, kb_sched = hsched (heap k), kb_ports = kports k\<rparr>
          in Some (k\<lparr>heap := (heap k)\<lparr>hsched := kb_sched kb\<rparr>, kports := kb_ports kb, kbd_buffer := m_ringbuffer kb\<rparr>))"

text \<open>An exception is printed and then the processor loops for ever: \<open>None\<close>.\<close>

definition interruptHandler :: "fpu \<Rightarrow> addr \<Rightarrow> (nat \<Rightarrow> u8) \<Rightarrow> Registers \<Rightarrow> kernel \<Rightarrow> (Registers \<times> kernel) option" where
  "interruptHandler fp buf beyond frame k0 =
     (let n = int_no frame; k = k0\<lparr>kports := end_of_interrupt n (kports k0)\<rparr>
      in if n < 32 then Option.bind (kernel_printk fp buf (ascii ''Exception occured! %d'' @ [13, 10]) [VWord n] k) (\<lambda>_. None)
         else if n < 48 then
           (case dispatch (callbacks k) n of None \<Rightarrow> Some (frame, k) | Some h \<Rightarrow> map_option (Pair frame) (irqCallback beyond h k))
         else if n = 128 then
           map_option (\<lambda>(r, k'). (frame\<lparr>r_eax := r\<rparr>, k'))
             (Handle fp buf (r_eax frame) (r_ebx frame) (r_ecx frame) (r_edx frame) (r_esi frame) (r_edi frame) k)
         else Some (frame, k))"

subsection \<open>The C library's stubs\<close>

abbreviation (input) SYSCALL_READ :: u32 where "SYSCALL_READ \<equiv> 3"
abbreviation (input) SYSCALL_SRBK :: u32 where "SYSCALL_SRBK \<equiv> 4"
abbreviation (input) SYSCALL_KILL :: u32 where "SYSCALL_KILL \<equiv> 5"
abbreviation (input) SYSCALL_EXIT :: u32 where "SYSCALL_EXIT \<equiv> 6"

text \<open>
  \<open>syscall\<close> loads the registers and raises interrupt 128; \<open>frame\<close> holds the registers before.
\<close>

definition syscall ::
  "fpu \<Rightarrow> addr \<Rightarrow> (nat \<Rightarrow> u8) \<Rightarrow> Registers \<Rightarrow> u32 \<Rightarrow> u32 \<Rightarrow> u32 \<Rightarrow> u32 \<Rightarrow> u32 \<Rightarrow> u32 \<Rightarrow> kernel \<Rightarrow> (u32 \<times> kernel) option" where
  "syscall fp buf beyond frame num p1 p2 p3 p4 p5 k =
     map_option (\<lambda>(r, k'). (r_eax r, k'))
       (interruptHandler fp buf beyond
          (frame\<lparr>r_eax := num, r_ebx := p1, r_ecx := p2, r_edx := p3, r_esi := p4, r_edi := p5, int_no := 128\<rparr>) k)"

definition sakura_write :: "fpu \<Rightarrow> addr \<Rightarrow> (nat \<Rightarrow> u8) \<Rightarrow> Registers \<Rightarrow> u32 \<Rightarrow> addr \<Rightarrow> u32 \<Rightarrow> kernel \<Rightarrow> (u32 \<times> kernel) option" where
  "sakura_write fp buf beyond frame file ptr len k =
     map_option (\<lambda>(_, k'). (0, k')) (syscall fp buf beyond frame SYSCALL_WRITE file ptr len 15 16 k)"

definition sakura_read :: "fpu \<Rightarrow> addr \<Rightarrow> (nat \<Rightarrow> u8) \<Rightarrow> Registers \<Rightarrow> u32 \<Rightarrow> addr \<Rightarrow> u32 \<Rightarrow> kernel \<Rightarrow> (u32 \<times> kernel) option" where
  "sakura_read fp buf beyond frame file ptr len k =
     map_option (\<lambda>(_, k'). (0, k')) (syscall fp buf beyond frame SYSCALL_READ file ptr len 15 16 k)"

definition sakura_open :: "fpu \<Rightarrow> addr \<Rightarrow> (nat \<Rightarrow> u8) \<Rightarrow> Registers \<Rightarrow> addr \<Rightarrow> u32 \<Rightarrow> kernel \<Rightarrow> (u32 \<times> kernel) option" where
  "sakura_open fp buf beyond frame name flags k =
     map_option (\<lambda>(_, k'). (0, k')) (syscall fp buf beyond frame SYSCALL_OPEN name flags 33 44 55 k)"

definition sakura_close :: "fpu \<Rightarrow> addr \<Rightarrow> (nat \<Rightarrow> u8) \<Rightarrow> Registers \<Rightarrow> u32 \<Rightarrow> kernel \<Rightarrow> (u32 \<times> kernel) option" where
  "sakura_close fp buf beyond frame file k =
     map_option (\<lambda>(_, k'). (0, k')) (syscall fp buf beyond frame SYSCALL_CLOSE file 0 0 0 6 k)"

definition sakura_sbrk :: "fpu \<Rightarrow> addr \<Rightarrow> (nat \<Rightarrow> u8) \<Rightarrow> Registers \<Rightarrow> u32 \<Rightarrow> kernel \<Rightarrow> (addr \<times> kernel) option" where
  "sakura_sbrk fp buf beyond frame incr k =
     map_option (\<lambda>(_, k'). (0, k')) (syscall fp buf beyond frame SYSCALL_SRBK incr 0 0 0 6 k)"

definition sakura_kill :: "fpu \<Rightarrow> addr \<Rightarrow> (nat \<Rightarrow> u8) \<Rightarrow> Registers \<Rightarrow> u32 \<Rightarrow> u32 \<Rightarrow> kernel \<Rightarrow> (u32 \<times> kernel) option" where
  "sakura_kill fp buf beyond frame pid sig k =
     map_option (\<lambda>(_, k'). (0, k')) (syscall fp buf beyond frame SYSCALL_KILL pid sig 0 0 6 k)"

definition sakura_exit :: "fpu \<Rightarrow> addr \<Rightarrow> (nat \<Rightarrow> u8) \<Rightarrow> Registers \<Rightarrow> kernel \<Rightarrow> kernel option" where
  "sakura_exit fp buf beyond frame k = map_option snd (syscall fp buf beyond frame SYSCALL_EXIT 0 0 0 0 6 k)"

abbreviation (input) S_IFCHR :: u32 where "S_IFCHR \<equiv> 0x2000"

definition sakura_isatty :: "u32 \<Rightarrow> u32" where "sakura_isatty file = 1"

definition sakura_fstat :: "u32 \<Rightarrow> u32 \<times> u32" where "sakura_fstat file = (0, S_IFCHR)"

definition sakura_getpid :: u32 where "sakura_getpid = 0"

section \<open>Facts\<close>

definition string_at :: "machine \<Rightarrow> addr \<Rightarrow> u8 list \<Rightarrow> bool" where
  "string_at s a cs \<longleftrightarrow> (\<forall>i < length cs. vload8 s (a + of_nat i) = Some (cs ! i)) \<and> 0 \<notin> set cs \<and>
     vload8 s (a + of_nat (length cs)) = Some 0"

lemma read_string_at: "string_at s a cs \<Longrightarrow> read_string s a = Some cs"
proof (induction cs arbitrary: a)
  case Nil
  then show ?case by (subst read_string.simps) (simp add: string_at_def)
next
  case (Cons c cs)
  have "vload8 s (a + 1 + of_nat i) = Some (cs ! i)" if "i < length cs" for i
    using Cons.prems that unfolding string_at_def by (auto dest!: spec [of _ "Suc i"] simp: add.assoc)
  moreover have "vload8 s (a + 1 + of_nat (length cs)) = Some 0" "0 \<notin> set cs" "c \<noteq> 0"
    using Cons.prems by (auto simp: string_at_def add.assoc)
  ultimately have "string_at s (a + 1) cs" by (simp add: string_at_def)
  moreover have "vload8 s a = Some c" using Cons.prems unfolding string_at_def by (auto dest!: spec [of _ 0])
  ultimately show ?case using Cons.IH \<open>c \<noteq> 0\<close> by (subst read_string.simps) simp
qed

text \<open>\<open>"%d"\<close> between literal texts.\<close>

definition decimal :: "u32 \<Rightarrow> u8 list" where
  "decimal v = (if sint v < 0 then [45] else []) @ rev (ntoa_digits (magnitude v) 10 0 [])"

lemma decimal_length: "length (decimal v) \<le> 11"
proof -
  have "unat (magnitude v) < 10 ^ 10" using unsigned_less [of "magnitude v", where ?'a = nat] by simp
  then show ?thesis using ntoa_digits_length [of "10 :: u32" "magnitude v" 10 0 "[]"] by (simp add: decimal_def)
qed

lemma loop_decimal:
  assumes "37 \<notin> set cs" "0 \<notin> set cs" "37 \<notin> set ds" "0 \<notin> set ds"
  shows "vsnprintf_loop fp k (cs @ 37 # 100 # ds) (VWord v # va) st = Some (put_all k (cs @ decimal v @ ds) st)"
proof -
  have "length (ntoa_digits (magnitude v) 10 0 []) < 32" using decimal_length [of v] by (simp add: decimal_def split: if_splits)
  then have d: "directive fp k (100 # ds) (VWord v # va) st = Some (put_all k (decimal v) st, ds, va)" for st
    using convert_d [of v fp k va st] directive_plain [of 100 fp k ds "VWord v # va" st]
    by (simp add: decimal_def flag_of_def is_digit_def)
  have "vsnprintf_loop fp k ds va st = Some (put_all k ds st)" for st
    using vsnprintf_loop_literal [OF assms(3,4), of fp k "[]"] by simp
  then show ?thesis
    using vsnprintf_loop_literal [OF assms(1,2), of fp k "37 # 100 # ds"] d by (simp add: put_all_append)
qed

lemma loop_missing_argument:
  assumes "37 \<notin> set cs" "0 \<notin> set cs"
  shows "vsnprintf_loop fp k (cs @ 37 # 100 # ds) [] st = None"
proof -
  have "convert fp k 100 0 0 0 [] st = None" for st by (simp add: convert_def convert_int_def int_flags_def)
  then have "directive fp k (100 # ds) [] st = None" for st
    using directive_plain [of 100 fp k ds "[]" st] by (simp add: flag_of_def is_digit_def)
  then show ?thesis using vsnprintf_loop_literal [OF assms, of fp k "37 # 100 # ds"] by simp
qed

definition shown :: "addr \<Rightarrow> u8 list \<Rightarrow> kernel \<Rightarrow> kernel" where
  "shown buf cs k =
     k\<lparr>console := ((fst (console k))\<lparr>mem := formatted buf (2 ^ 32 - 1) cs (mem (fst (console k)))\<rparr>,
       map_option (\<lambda>t. snd (tty_write (take 100 cs) t)) (snd (console k)))\<rparr>"

lemma kernel_printk_shown:
  assumes "\<And>k st. vsnprintf_loop fp k format va st = Some (put_all k cs st)" and "buf \<noteq> 0" and "length cs < 2 ^ 31"
  shows "kernel_printk fp buf format va k = Some (shown buf cs k)"
  using printk_text [OF assms, of "fst (console k)" "snd (console k)"] by (simp add: kernel_printk_def shown_def)

lemma kernel_printk_decimal:
  assumes "37 \<notin> set cs" "0 \<notin> set cs" "37 \<notin> set ds" "0 \<notin> set ds" "buf \<noteq> 0" "length cs + length ds < 2 ^ 30"
  shows "kernel_printk fp buf (cs @ 37 # 100 # ds) [VWord n] k = Some (shown buf (cs @ decimal n @ ds) k)"
  using loop_decimal [OF assms(1-4)] decimal_length [of n] assms(5,6) by (intro kernel_printk_shown) simp_all

lemma syscall_Handle:
  "syscall fp buf beyond frame num p1 p2 p3 p4 p5 k =
     Handle fp buf num p1 p2 p3 p4 p5 (k\<lparr>kports := end_of_interrupt 128 (kports k)\<rparr>)"
  by (simp add: syscall_def interruptHandler_def Let_def option.map_comp comp_def split_beta option.map_ident)

definition unknown_message :: "u32 \<Rightarrow> u8 list" where
  "unknown_message n = ascii ''Unknown syscall '' @ decimal n @ [13, 10]"

section \<open>Properties\<close>

text \<open>
  Property C24: writing a text to file 1 from a program, through the C library's stub, the interrupt
  and the system call, shows the text up to its terminating zero, cut to 100 characters, whatever
  length the program gave; other files show nothing. The stub returns 0 in both cases. The text must
  not contain a percent sign.
\<close>

theorem write_shows_text:
  assumes "buf \<noteq> 0" and "string_at (hmachine (heap k)) p cs" and "37 \<notin> set cs" and "length cs < 2 ^ 31"
  shows "sakura_write fp buf beyond frame file p len k =
    Some (0, let k' = k\<lparr>kports := end_of_interrupt 128 (kports k)\<rparr> in if file = 1 then shown buf cs k' else k')"
proof -
  have "0 \<notin> set cs" using assms(2) by (simp add: string_at_def)
  then have "vsnprintf_loop fp k cs [] st = Some (put_all k cs st)" for k st
    using vsnprintf_loop_literal [OF assms(3), of fp k "[]"] by simp
  from kernel_printk_shown [OF this assms(1,4)] read_string_at [OF assms(2)]
  show ?thesis by (simp add: sakura_write_def syscall_Handle Handle_def SyscallWrite_def Let_def)
qed

text \<open>
  The text of a write is used as a format. With a \<open>"%d"\<close> in it, which every program can
  write, the kernel fetches an argument that was never passed (\<open>None\<close>).
\<close>

theorem write_uses_text_as_format:
  assumes "buf \<noteq> 0" and "string_at (hmachine (heap k)) p (cs @ 37 # 100 # ds)" and "37 \<notin> set cs"
  shows "sakura_write fp buf beyond frame 1 p len k = None"
proof -
  have "0 \<notin> set cs" using assms(2) by (simp add: string_at_def)
  then have "vsnprintf fp buf (- 1) (cs @ 37 # 100 # ds) [] w = None" for w
    using loop_missing_argument [OF assms(3)] by (simp add: vsnprintf_def vsnprintf_int_def Let_def)
  then show ?thesis
    using read_string_at [OF assms(2)]
    by (simp add: sakura_write_def syscall_Handle Handle_def SyscallWrite_def kernel_printk_def printk_def)
qed

text \<open>
  The kernel knows none of the calls the C library adds to its own three: \<open>read\<close>,
  \<open>sbrk\<close>, \<open>kill\<close> and \<open>exit\<close> report an unknown call and come back to the program, without moving a
  byte, memory or a task; the stubs answer 0.
\<close>

theorem library_calls_unknown:
  assumes "buf \<noteq> 0"
  shows "let k' = k\<lparr>kports := end_of_interrupt 128 (kports k)\<rparr>
    in sakura_read fp buf beyond frame file p len k = Some (0, shown buf (unknown_message 3) k') \<and>
       sakura_sbrk fp buf beyond frame incr k = Some (0, shown buf (unknown_message 4) k') \<and>
       sakura_kill fp buf beyond frame pid sig k = Some (0, shown buf (unknown_message 5) k') \<and>
       sakura_exit fp buf beyond frame k = Some (shown buf (unknown_message 6) k')"
proof -
  have fmt: "ascii ''Unknown syscall %d'' @ [13, 10] = ascii ''Unknown syscall '' @ 37 # 100 # [13, 10]"
    by (simp add: ascii_def)
  have "kernel_printk fp buf (ascii ''Unknown syscall %d'' @ [13, 10]) [VWord n] k = Some (shown buf (unknown_message n) k)" for n k
    unfolding fmt unknown_message_def by (rule kernel_printk_decimal) (simp_all add: ascii_def assms)
  then show ?thesis
    by (simp add: sakura_read_def sakura_sbrk_def sakura_kill_def sakura_exit_def syscall_Handle Handle_def Let_def)
qed

text \<open>A program's text at \<open>0x5000\<close>.\<close>

definition demo_kernel :: "u8 list \<Rightarrow> kernel" where
  "demo_kernel cs =
     \<lparr>heap = boot_heap\<lparr>hmachine := boot_machine\<lparr>paging := False,
        ram := (\<lambda>a. if unat a - 0x5000 < length cs then cs ! (unat a - 0x5000) else 0)\<rparr>\<rparr>,
      console = (blank_world, None), kports = typing_A, callbacks = (\<lambda>_. None),
      kbd_buffer = \<lparr>m_buffer = replicate 1024 0, m_head = 0, m_numElements = 0\<rparr>\<rparr>"

lemma demo_string:
  assumes "0 \<notin> set cs" and "length cs < 100"
  shows "string_at (hmachine (heap (demo_kernel cs))) 0x5000 cs"
proof -
  have "unat (0x5000 + of_nat i :: u32) = 0x5000 + i" if "i \<le> length cs" for i
    using that assms(2) by (simp add: unat_word_ariths unat_of_nat32)
  then show ?thesis using assms by (simp add: string_at_def vload8_def xlate_def demo_kernel_def)
qed

definition blank_frame :: Registers where
  "blank_frame = \<lparr>r_gs = 0, r_fs = 0, r_es = 0, r_ds = 0, r_edi = 0, r_esi = 0, r_ebp = 0, r_esp = 0, r_ebx = 0, r_edx = 0,
     r_ecx = 0, r_eax = 0, int_no = 0, err_code = 0, r_eip = 0, r_cs = 0, r_eflags = 0, r_useresp = 0, r_ss = 0\<rparr>"

theorem write_shows_text_witness:
  "sakura_write blank_fpu 0x1000 (\<lambda>_. 0) blank_frame 1 0x5000 0 (demo_kernel [72, 105]) =
    Some (0, let k' = (demo_kernel [72, 105])\<lparr>kports := end_of_interrupt 128 (kports (demo_kernel [72, 105]))\<rparr>
      in if 1 = (1 :: u32) then shown 0x1000 [72, 105] k' else k')"
  by (rule write_shows_text [OF _ demo_string]) simp_all

theorem write_uses_text_as_format_witness:
  "sakura_write blank_fpu 0x1000 (\<lambda>_. 0) blank_frame 1 0x5000 2 (demo_kernel [72, 37, 100]) = None"
  using write_uses_text_as_format [of "0x1000" "demo_kernel [72, 37, 100]" "0x5000" "[72]" "[]"] demo_string [of "[72, 37, 100]"]
  by simp

theorem library_calls_unknown_witness:
  "sakura_exit blank_fpu 0x1000 (\<lambda>_. 0) blank_frame (demo_kernel []) =
    Some (shown 0x1000 (unknown_message 6) ((demo_kernel [])\<lparr>kports := end_of_interrupt 128 (kports (demo_kernel []))\<rparr>))"
  using library_calls_unknown [of "0x1000" "demo_kernel []" blank_fpu "\<lambda>_. 0" blank_frame] by (simp add: Let_def)

end
