(* ===== verification/CxxRuntime.thy ===== *)
theory CxxRuntime
  imports Heap
begin

text \<open>
  The C++ runtime support of \<open>Kernel/Libk/CPP.cpp\<close>: the table of destructors, the guards of static
  objects, and \<open>new\<close> and \<open>delete\<close>. What a destructor does is not code of this file: it is the
  parameter \<open>call\<close>, which takes the function, its argument and the rest of the system.
\<close>

section \<open>Definitions\<close>

abbreviation (input) ATEXIT_MAX_FUNCS :: u32 where "ATEXIT_MAX_FUNCS \<equiv> 128"

record atexit_func_entry_t =
  destructor_func :: addr
  obj_ptr :: addr
  dso_handle :: addr

record cxx_runtime =
  atexit_funcs :: "atexit_func_entry_t list"
  atexit_func_count :: u32

definition cxx_init :: cxx_runtime where
  "cxx_init = \<lparr>atexit_funcs = replicate (unat ATEXIT_MAX_FUNCS) \<lparr>destructor_func = 0, obj_ptr = 0, dso_handle = 0\<rparr>,
     atexit_func_count = 0\<rparr>"

definition cxa_atexit :: "addr \<Rightarrow> addr \<Rightarrow> addr \<Rightarrow> cxx_runtime \<Rightarrow> int \<times> cxx_runtime" where
  "cxa_atexit f objptr dso r =
     (if atexit_func_count r \<ge> ATEXIT_MAX_FUNCS then (- 1, r)
      else (0, r\<lparr>atexit_funcs := (atexit_funcs r)[unat (atexit_func_count r) :=
                   \<lparr>destructor_func = f, obj_ptr = objptr, dso_handle = dso\<rparr>],
                 atexit_func_count := atexit_func_count r + 1\<rparr>))"

text \<open>The two loops \<open>while (i--)\<close> of \<open>__cxa_finalize\<close>: over every entry, and over those of \<open>f\<close>.\<close>

primrec finalize_all :: "(addr \<Rightarrow> addr \<Rightarrow> 'w \<Rightarrow> 'w) \<Rightarrow> nat \<Rightarrow> cxx_runtime \<times> 'w \<Rightarrow> cxx_runtime \<times> 'w" where
  "finalize_all call 0 rw = rw"
| "finalize_all call (Suc i) rw =
     (let (r, w) = rw; e = atexit_funcs r ! i
      in finalize_all call i (r, if destructor_func e \<noteq> 0 then call (destructor_func e) (obj_ptr e) w else w))"

primrec finalize_some :: "(addr \<Rightarrow> addr \<Rightarrow> 'w \<Rightarrow> 'w) \<Rightarrow> addr \<Rightarrow> nat \<Rightarrow> cxx_runtime \<times> 'w \<Rightarrow> cxx_runtime \<times> 'w" where
  "finalize_some call f 0 rw = rw"
| "finalize_some call f (Suc i) rw =
     (let (r, w) = rw; e = atexit_funcs r ! i
      in finalize_some call f i
           (if destructor_func e = f
            then (r\<lparr>atexit_funcs := (atexit_funcs r)[i := e\<lparr>destructor_func := 0\<rparr>]\<rparr>,
                  call (destructor_func e) (obj_ptr e) w)
            else (r, w)))"

definition cxa_finalize :: "(addr \<Rightarrow> addr \<Rightarrow> 'w \<Rightarrow> 'w) \<Rightarrow> addr \<Rightarrow> cxx_runtime \<times> 'w \<Rightarrow> cxx_runtime \<times> 'w" where
  "cxa_finalize call f rw =
     (let i = unat (atexit_func_count (fst rw))
      in if f = 0 then finalize_all call i rw else finalize_some call f i rw)"

definition operator_new :: "layout \<Rightarrow> u32 \<Rightarrow> kheap \<Rightarrow> (addr \<times> kheap) option" where
  "operator_new L sz h = kmalloc L sz h"

definition operator_delete :: "layout \<Rightarrow> addr \<Rightarrow> kheap \<Rightarrow> kheap option" where
  "operator_delete L p h = kfree L p h"

definition cxa_guard_acquire :: "memory \<Rightarrow> addr \<Rightarrow> int" where
  "cxa_guard_acquire m g = (if m g = 0 then 1 else 0)"

definition cxa_guard_release :: "addr \<Rightarrow> memory \<Rightarrow> memory" where
  "cxa_guard_release g m = m(g := 1)"

text \<open>The registrations of a program, in order, with what each returned.\<close>

fun register :: "(addr \<times> addr \<times> addr) list \<Rightarrow> cxx_runtime \<Rightarrow> int list \<times> cxx_runtime" where
  "register [] r = ([], r)"
| "register ((f, obj, dso) # rs) r =
     (let (c, r1) = cxa_atexit f obj dso r; (cs, r2) = register rs r1 in (c # cs, r2))"

section \<open>Facts\<close>

definition entry :: "addr \<times> addr \<times> addr \<Rightarrow> atexit_func_entry_t" where
  "entry r = (case r of (f, obj, dso) \<Rightarrow> \<lparr>destructor_func = f, obj_ptr = obj, dso_handle = dso\<rparr>)"

text \<open>The table holds the entries \<open>es\<close>.\<close>

definition holds :: "cxx_runtime \<Rightarrow> atexit_func_entry_t list \<Rightarrow> bool" where
  "holds r es \<longleftrightarrow> length (atexit_funcs r) = 128 \<and> length es \<le> 128 \<and> unat (atexit_func_count r) = length es \<and>
     take (length es) (atexit_funcs r) = es"

definition run_entry :: "(addr \<Rightarrow> addr \<Rightarrow> 'w \<Rightarrow> 'w) \<Rightarrow> atexit_func_entry_t \<Rightarrow> 'w \<Rightarrow> 'w" where
  "run_entry call e w = (if destructor_func e \<noteq> 0 then call (destructor_func e) (obj_ptr e) w else w)"

lemma holds_init: "holds cxx_init []"
  by (simp add: holds_def cxx_init_def)

lemma atexit_holds:
  assumes "holds r es"
  shows "if length es < 128
    then \<exists>r'. cxa_atexit f obj dso r = (0, r') \<and> holds r' (es @ [entry (f, obj, dso)])
    else cxa_atexit f obj dso r = (- 1, r)"
proof -
  have c: "unat (atexit_func_count r) = length es" "length (atexit_funcs r) = 128" "take (length es) (atexit_funcs r) = es"
      "length es \<le> 128"
    using assms by (simp_all add: holds_def)
  have full: "atexit_func_count r \<ge> 128 \<longleftrightarrow> \<not> length es < 128" using c(1) by (auto simp: word_le_nat_alt)
  have "unat (atexit_func_count r + 1) = length es + 1" using c(1,4) by (simp add: unat_word_ariths)
  then show ?thesis using c full
    by (auto simp: cxa_atexit_def holds_def entry_def take_Suc_conv_app_nth)
qed

lemma register_holds:
  assumes "holds r es"
  shows "holds (snd (register rs r)) (es @ map entry (take (128 - length es) rs)) \<and>
    fst (register rs r) = replicate (min (128 - length es) (length rs)) 0 @ replicate (length rs - (128 - length es)) (- 1)"
  using assms
proof (induction rs r arbitrary: es rule: register.induct)
  case (2 f obj dso rs r)
  show ?case
  proof (cases "length es < 128")
    case True
    then obtain r' where r': "cxa_atexit f obj dso r = (0, r')" "holds r' (es @ [entry (f, obj, dso)])"
      using atexit_holds [OF 2(2), of f obj dso] by auto
    obtain k where k: "128 - length es = Suc k" using True by (cases "128 - length es") auto
    then have k': "128 - length (es @ [entry (f, obj, dso)]) = k" by simp
    show ?thesis using "2.IH" [OF r'(1) [symmetric] refl r'(2)] r'(1) unfolding k k' by (simp add: split_beta)
  next
    case False
    then have "cxa_atexit f obj dso r = (- 1, r)" using atexit_holds [OF 2(2), of f obj dso] by auto
    moreover have z: "128 - length es = 0" using False by simp
    ultimately show ?thesis using "2.IH" [OF _ refl 2(2)] unfolding z by (simp add: split_beta)
  qed
qed (simp add: holds_def)

lemma finalize_all_fold:
  "i \<le> length (atexit_funcs r) \<Longrightarrow>
    finalize_all call i (r, w) = (r, fold (run_entry call) (rev (take i (atexit_funcs r))) w)"
  by (induction i arbitrary: w) (auto simp: run_entry_def take_Suc_conv_app_nth Let_def)

lemma finalize_some_fold:
  assumes "f \<noteq> 0" and "i \<le> length (atexit_funcs r)"
  shows "finalize_some call f i (r, w) =
    (r\<lparr>atexit_funcs := map (\<lambda>e. if destructor_func e = f then e\<lparr>destructor_func := 0\<rparr> else e) (take i (atexit_funcs r)) @
        drop i (atexit_funcs r)\<rparr>,
     fold (run_entry call) (rev (filter (\<lambda>e. destructor_func e = f) (take i (atexit_funcs r)))) w)"
  using assms(2)
proof (induction i arbitrary: r w)
  case (Suc i)
  let ?e = "atexit_funcs r ! i"
  have i: "i < length (atexit_funcs r)" using Suc.prems by simp
  show ?case
  proof (cases "destructor_func ?e = f")
    case True
    let ?r = "r\<lparr>atexit_funcs := (atexit_funcs r)[i := ?e\<lparr>destructor_func := 0\<rparr>]\<rparr>"
    have d: "drop i ((atexit_funcs r)[i := x]) = x # drop (Suc i) (atexit_funcs r)" for x
      using i by (simp add: Cons_nth_drop_Suc [symmetric] drop_update_swap)
    show ?thesis
      using Suc.IH [of ?r "call (destructor_func ?e) (obj_ptr ?e) w"] True i assms(1) d
      by (simp add: take_Suc_conv_app_nth run_entry_def Let_def)
  next
    case False
    then show ?thesis
      using Suc.IH [of r w] i by (simp add: take_Suc_conv_app_nth Cons_nth_drop_Suc Let_def)
  qed
qed simp

section \<open>Properties\<close>

text \<open>
  Property C38: \<open>__cxa_finalize\<close> undoes the registrations: after any registrations the first 128 are
  in the table and the others were refused with -1; finalizing everything runs the destructors of
  those in the table in the reverse order, and finalizing one function runs just its entries, in
  the reverse order, and never again.
\<close>

theorem finalize_reverses_registration:
  "fst (register rs cxx_init) = replicate (min 128 (length rs)) 0 @ replicate (length rs - 128) (- 1) \<and>
   snd (cxa_finalize call 0 (snd (register rs cxx_init), w)) = fold (run_entry call) (rev (map entry (take 128 rs))) w \<and>
   (f \<noteq> 0 \<longrightarrow>
     snd (cxa_finalize call f (snd (register rs cxx_init), w)) =
       fold (run_entry call) (rev (filter (\<lambda>e. destructor_func e = f) (map entry (take 128 rs)))) w \<and>
     cxa_finalize call f (fst (cxa_finalize call f (snd (register rs cxx_init), w)), w') =
       (fst (cxa_finalize call f (snd (register rs cxx_init), w)), w'))"
proof -
  define r where "r = snd (register rs cxx_init)"
  let ?es = "map entry (take 128 rs)" and ?n = "length (take 128 rs)"
  let ?clear = "\<lambda>e. if destructor_func e = f then e\<lparr>destructor_func := 0\<rparr> else e"
  have h: "holds r ?es" and c: "fst (register rs cxx_init) = replicate (min 128 (length rs)) 0 @ replicate (length rs - 128) (- 1)"
    using register_holds [OF holds_init, of rs] by (simp_all add: r_def)
  have n: "unat (atexit_func_count r) = ?n" "take ?n (atexit_funcs r) = ?es" "?n \<le> length (atexit_funcs r)"
    using h by (auto simp: holds_def)
  have "finalize_all call ?n (r, w) = (r, fold (run_entry call) (rev ?es) w)" using finalize_all_fold [OF n(3)] n(2) by simp
  then have all: "snd (cxa_finalize call 0 (r, w)) = fold (run_entry call) (rev ?es) w"
    using n(1) by (simp add: cxa_finalize_def Let_def)
  have some: "snd (cxa_finalize call f (r, w)) = fold (run_entry call) (rev (filter (\<lambda>e. destructor_func e = f) ?es)) w"
    "cxa_finalize call f (fst (cxa_finalize call f (r, w)), w') = (fst (cxa_finalize call f (r, w)), w')" if f: "f \<noteq> 0"
  proof -
    define r1 where "r1 = r\<lparr>atexit_funcs := map ?clear ?es @ drop ?n (atexit_funcs r)\<rparr>"
    have 1: "cxa_finalize call f (r, w) = (r1, fold (run_entry call) (rev (filter (\<lambda>e. destructor_func e = f) ?es)) w)"
      using finalize_some_fold [OF f n(3)] n(1,2) f by (simp add: cxa_finalize_def Let_def r1_def)
    then show "snd (cxa_finalize call f (r, w)) = fold (run_entry call) (rev (filter (\<lambda>e. destructor_func e = f) ?es)) w" by simp
    have t: "take ?n (atexit_funcs r1) = map ?clear ?es" "drop ?n (atexit_funcs r1) = drop ?n (atexit_funcs r)"
        "?n \<le> length (atexit_funcs r1)" "unat (atexit_func_count r1) = ?n"
      using n by (simp_all add: r1_def)
    have none: "filter (\<lambda>e. destructor_func e = f) (map ?clear ?es) = []" "map ?clear (map ?clear ?es) = map ?clear ?es"
      using f by (auto simp: filter_empty_conv)
    have "r1\<lparr>atexit_funcs := map ?clear ?es @ drop ?n (atexit_funcs r)\<rparr> = r1" by (simp add: r1_def)
    then show "cxa_finalize call f (fst (cxa_finalize call f (r, w)), w') = (fst (cxa_finalize call f (r, w)), w')"
      using finalize_some_fold [OF f t(3), of call w'] t f unfolding t(1,2) none 1 by (simp add: cxa_finalize_def Let_def)
  qed
  show ?thesis using c all some unfolding r_def by blast
qed

theorem finalize_reverses_registration_witness:
  "snd (cxa_finalize (\<lambda>f obj w. w @ [(f, obj)]) 7 (snd (register [(7, 1, 0), (8, 2, 0), (7, 3, 0)] cxx_init), [])) = [(7, 3), (7, 1)]"
proof -
  have "(7 :: addr) \<noteq> 0" by simp
  with finalize_reverses_registration [of "[(7, 1, 0), (8, 2, 0), (7, 3, 0)]" "\<lambda>f obj w. w @ [(f, obj)]" "[]" 7 "[]"]
  show ?thesis by (simp add: entry_def run_entry_def)
qed

text \<open>
  Finalizing everything leaves the table as it is, so that a second call runs every destructor a
  second time.
\<close>

lemma finalize_all_repeats:
  assumes "holds r es"
  shows "cxa_finalize call 0 (cxa_finalize call 0 (r, w)) =
    (r, fold (run_entry call) (rev es) (fold (run_entry call) (rev es) w))"
proof -
  have "unat (atexit_func_count r) = length es" "take (length es) (atexit_funcs r) = es" "length es \<le> length (atexit_funcs r)"
    using assms by (auto simp: holds_def)
  then show ?thesis using finalize_all_fold [of "length es" r call] by (simp add: cxa_finalize_def Let_def)
qed

text \<open>A static object is initialised once: after the release no acquire succeeds.\<close>

lemma guard_once: "cxa_guard_acquire (cxa_guard_release g m) g = 0"
  by (simp add: cxa_guard_acquire_def cxa_guard_release_def)

end
