(* ===== verification/Boot.thy ===== *)
theory Boot
  imports Syscalls CxxRuntime
begin

text \<open>
  Tasks, programs and start-up: \<open>createTask\<close> and \<open>start\<close> of \<open>Scheduler.cpp\<close>, \<open>TTY::open\<close>, the loader
  of \<open>Elf.cpp\<close>, \<open>Multiboot.cpp\<close>, the initialisation of the memory manager, and \<open>kernel_main\<close>. A
  fault and an endless loop are \<open>None\<close>. Task objects are kept in the scheduler's store.
\<close>

section \<open>Definitions\<close>

subsection \<open>Tasks\<close>

abbreviation (input) TASK_STACK_SIZE :: u32 where "TASK_STACK_SIZE \<equiv> 0x1000"
abbreviation (input) sizeof_Task :: u32 where "sizeof_Task \<equiv> 92"

definition upd_regs :: "addr \<Rightarrow> (TaskRegisters \<Rightarrow> TaskRegisters) \<Rightarrow> kheap \<Rightarrow> kheap" where
  "upd_regs task f h = h\<lparr>hsched := upd_task task (\<lambda>t. t\<lparr>regs := f (regs t)\<rparr>) (hsched h)\<rparr>"

definition createTask :: "layout \<Rightarrow> bool \<Rightarrow> addr \<Rightarrow> kheap \<Rightarrow> (addr \<times> kheap) option" where
  "createTask L isUser arg h0 =
     do {
       (task, h1) \<leftarrow> kmalloc L sizeof_Task h0;
       let h2 = upd_regs task (\<lambda>r. r\<lparr>eax := 0, ebx := 0, ecx := 0, edx := 0, esi := 0, edi := 0,
                  eflags := eflags (regs (tasks (hsched h1) (mainTask (hsched h1))))\<rparr>) h1;
       (directory, s3) \<leftarrow> (if isUser then createUserPageDirectory L (hsched h2) (hmachine h2)
                           else Some (kernelPageDirectory L, hmachine h2));
       let h3 = upd_regs task (\<lambda>r. r\<lparr>cr3 := directory\<rparr>) (h2\<lparr>hmachine := s3\<rparr>);
       (stack, s4) \<leftarrow> memoryAllocate_running (hsched h3) TASK_STACK_SIZE False (hmachine h3);
       let h4 = upd_regs task (\<lambda>r. r\<lparr>esp := stack + TASK_STACK_SIZE - 4\<rparr>) (h3\<lparr>hmachine := s4\<rparr>);
       s5 \<leftarrow> vstore32 (esp (regs (tasks (hsched h4) task))) arg (hmachine h4);
       Some (task, h4\<lparr>hmachine := s5, hsched := upd_task task (\<lambda>t. t\<lparr>next_task := 0\<rparr>) (hsched h4)\<rparr>)
     }"

definition upd_heap :: "(kheap \<Rightarrow> kheap) \<Rightarrow> kernel \<Rightarrow> kernel" where
  "upd_heap f k = k\<lparr>heap := f (heap k)\<rparr>"

text \<open>\<open>Scheduler::start\<close>; \<open>flags\<close> is the processor's EFLAGS.\<close>

definition scheduler_start :: "u32 \<Rightarrow> kernel \<Rightarrow> kernel" where
  "scheduler_start flags k0 =
     (let main = mainTask (hsched (heap k0));
          k1 = upd_heap (upd_regs main (\<lambda>r. r\<lparr>cr3 := cr3_reg (hmachine (heap k0)), eflags := flags\<rparr>)) k0;
          k2 = k1\<lparr>callbacks := registerInterrupt (interrupt_number Timer) SchedulerHandler (callbacks k1)\<rparr>;
          k3 = upd_heap (\<lambda>h. h\<lparr>hsched := upd_task main (\<lambda>t. t\<lparr>task_name := ''main'', task_state := Running\<rparr>)
                  ((hsched h)\<lparr>m_runningTask := main\<rparr>)\<rparr>) k2;
          k4 = upd_heap (\<lambda>h. h\<lparr>hsched := (hsched h)\<lparr>m_taskTail := main\<rparr>\<rparr>) k3
      in k4\<lparr>kports := ConfigurePit (kports k4)\<rparr>)"

text \<open>
  \<open>TTY::open\<close> of the console \<open>t\<close>, the object at \<open>this\<close>; \<open>tty_process\<close> is the address of the task's code.
  \<open>Keyboard::open\<close>, which it calls last, does nothing.
\<close>

definition tty_open :: "layout \<Rightarrow> addr \<Rightarrow> addr \<Rightarrow> tty \<Rightarrow> kernel \<Rightarrow> (tty \<times> kernel) option" where
  "tty_open L this tty_process t k =
     do {
       let t1 = tty_open_screen (t\<lparr>tty_ports := kports k\<rparr>);
       (task, h) \<leftarrow> createTask L False this (heap k);
       Some (t1, k\<lparr>heap := h\<lparr>hsched := taskStart task tty_process (hsched h)\<rparr>, kports := tty_ports t1\<rparr>)
     }"

text \<open>The constructor of the keyboard, a member of the console.\<close>

definition keyboard_construct :: "kernel \<Rightarrow> kernel" where
  "keyboard_construct k =
     k\<lparr>callbacks := registerInterrupt (interrupt_number Keyboard) KeyboardHandler (callbacks k),
       kbd_buffer := \<lparr>m_buffer = m_buffer (kbd_buffer k), m_head = 0, m_numElements = 0\<rparr>\<rparr>"

subsection \<open>Programs\<close>

definition vload16 :: "machine \<Rightarrow> addr \<Rightarrow> u16 option" where
  "vload16 s a = do { b0 \<leftarrow> vload8 s a; b1 \<leftarrow> vload8 s (a + 1); Some (ucast b0 OR push_bit 8 (ucast b1)) }"

definition elf_reject :: "fpu \<Rightarrow> addr \<Rightarrow> string \<Rightarrow> kernel \<Rightarrow> (bool \<times> kernel) option" where
  "elf_reject fp buf msg k = map_option (Pair False) (kernel_printk fp buf (ascii msg @ [10]) [] k)"

definition verifyElfHeader :: "fpu \<Rightarrow> addr \<Rightarrow> addr \<Rightarrow> kernel \<Rightarrow> (bool \<times> kernel) option" where
  "verifyElfHeader fp buf header k =
     (let s = hmachine (heap k)
      in if header = 0 then Some (False, k)
         else do { mag0 \<leftarrow> vload8 s header; if mag0 \<noteq> 0x7F then elf_reject fp buf ''ELF Header EI_MAG0 incorrect.'' k
         else do { mag1 \<leftarrow> vload8 s (header + 1); if mag1 \<noteq> of_char CHR ''E'' then elf_reject fp buf ''ELF Header EI_MAG1 incorrect.'' k
         else do { mag2 \<leftarrow> vload8 s (header + 2); if mag2 \<noteq> of_char CHR ''L'' then elf_reject fp buf ''ELF Header EI_MAG2 incorrect.'' k
         else do { mag3 \<leftarrow> vload8 s (header + 3); if mag3 \<noteq> of_char CHR ''F'' then elf_reject fp buf ''ELF Header EI_MAG3 incorrect.'' k
         else do { m_class \<leftarrow> vload8 s (header + 4); if m_class \<noteq> 1 then elf_reject fp buf ''Unsupported ELF File Class.'' k
         else do { m_data \<leftarrow> vload8 s (header + 5); if m_data \<noteq> 1 then elf_reject fp buf ''Unsupported ELF File byte order.'' k
         else do { m_machine \<leftarrow> vload16 s (header + 18); if m_machine \<noteq> 3 then elf_reject fp buf ''Unsupported ELF File target.'' k
         else do { m_version \<leftarrow> vload8 s (header + 6); if m_version \<noteq> 1 then elf_reject fp buf ''Unsupported ELF File version.'' k
         else do { m_type \<leftarrow> vload16 s (header + 16); if m_type \<noteq> 1 \<and> m_type \<noteq> 2 then elf_reject fp buf ''Unsupported ELF File type.'' k
         else Some (True, k) }}}}}}}}})"

text \<open>\<open>Libk::memcpy\<close> at linear addresses.\<close>

definition vmemcpy :: "addr \<Rightarrow> addr \<Rightarrow> u32 \<Rightarrow> machine \<Rightarrow> machine option" where
  "vmemcpy dst src sz s =
     for_rangeM 0 sz (\<lambda>i s. do { b \<leftarrow> vload8 s (src + i); vstore8 (dst + i) b s }) s"

text \<open>One turn of the loop of \<open>load\<close>: the program header \<open>sec\<close> of the file at \<open>elfData\<close>.\<close>

definition load_segment :: "addr \<Rightarrow> addr \<Rightarrow> u32 \<Rightarrow> machine \<Rightarrow> machine option" where
  "load_segment directory elfData sec s0 =
     do {
       m_phoff \<leftarrow> vload32 s0 (elfData + 28);
       m_phentsize \<leftarrow> vload16 s0 (elfData + 42);
       let ph = elfData + m_phoff + ucast m_phentsize * sec;
       m_vaddr \<leftarrow> vload32 s0 (ph + 8);
       s1 \<leftarrow> vstore32 (ph + 8) (m_vaddr - m_vaddr mod PAGE_SIZE) s0;
       m_filesz \<leftarrow> vload16 s1 (ph + 16);
       vaddr \<leftarrow> vload32 s1 (ph + 8);
       s2 \<leftarrow> memoryMap directory vaddr (ucast m_filesz) False s1;
       m_offset \<leftarrow> vload32 s2 (ph + 4);
       dst \<leftarrow> vload32 s2 (ph + 8);
       n \<leftarrow> vload16 s2 (ph + 16);
       vmemcpy dst (elfData + m_offset) (ucast n) s2
     }"

text \<open>The loop reads the number of headers again in every turn.\<close>

partial_function (option) load_segments :: "addr \<Rightarrow> addr \<Rightarrow> u32 \<Rightarrow> machine \<Rightarrow> machine option" where
  "load_segments directory elfData sec s =
     do {
       m_phnum \<leftarrow> vload16 s (elfData + 44);
       if sec <s ucast m_phnum then do {
         s1 \<leftarrow> load_segment directory elfData sec s;
         load_segments directory elfData (sec + 1) s1
       } else Some s
     }"

definition load :: "fpu \<Rightarrow> addr \<Rightarrow> layout \<Rightarrow> addr \<Rightarrow> u32 \<Rightarrow> kernel \<Rightarrow> (bool \<times> kernel) option" where
  "load fp buf L elfData len k0 =
     do {
       (ok, k1) \<leftarrow> verifyElfHeader fp buf elfData k0;
       if ok then do {
         (task, h2) \<leftarrow> createTask L False 0 (heap k1);
         s3 \<leftarrow> load_segments (cr3 (regs (tasks (hsched h2) task))) elfData 0 (hmachine h2);
         m_entry \<leftarrow> vload32 s3 (elfData + 24);
         Some (True, k1\<lparr>heap := h2\<lparr>hmachine := s3, hsched := taskStart task m_entry (hsched h2)\<rparr>\<rparr>)
       } else Some (False, k1)
     }"

subsection \<open>The boot loader's tables\<close>

record MultibootInfo =
  mb_flags :: u32
  memLower :: u32
  mumUpper :: u32
  bootDevice :: u32
  cmdLine :: u32
  modsCount :: u32
  modsAddress :: u32
  mmapLength :: u32
  mmapAddress :: u32

definition vload64 :: "machine \<Rightarrow> addr \<Rightarrow> u64 option" where
  "vload64 s a = do { lo \<leftarrow> vload32 s a; hi \<leftarrow> vload32 s (a + 4); Some (ucast lo OR push_bit 32 (ucast hi)) }"

text \<open>
  What \<open>loadMemoryMap\<close> makes of a region of usable memory: the start rounded up to a page, and the
  length with what the rounding of start and end takes from it.
\<close>

definition usable_region :: "u32 \<Rightarrow> u32 \<Rightarrow> u32 \<times> u32" where
  "usable_region base sz =
     (let (startAddress, len) =
            (if 0 < base mod PAGE_SIZE
             then let alignUp = PAGE_SIZE - base mod PAGE_SIZE in (base + alignUp, sz - alignUp)
             else (base, sz))
      in (startAddress, len - sz mod PAGE_SIZE))"

text \<open>
  The loop over the entries. The pointer is compared as a 64-bit number, to which it is sign
  extended.
\<close>

partial_function (option) loadMemoryMap_loop :: "u32 \<Rightarrow> addr \<Rightarrow> u32 \<Rightarrow> machine \<Rightarrow> (u32 \<times> machine) option" where
  "loadMemoryMap_loop limit mmap totalFreeMemory s =
     (if (scast mmap :: u64) < ucast limit then do {
        address \<leftarrow> vload64 s (mmap + 4);
        len \<leftarrow> vload64 s (mmap + 12);
        type \<leftarrow> vload32 s (mmap + 20);
        (total, s1) \<leftarrow>
          (if type = 1 then do {
             let (startAddress, length) = usable_region (ucast address) (ucast len);
             d \<leftarrow> physicalFree startAddress (length div PAGE_SIZE) (memManData s);
             Some (totalFreeMemory + length, s\<lparr>memManData := d\<rparr>)
           } else Some (totalFreeMemory, s));
        sz \<leftarrow> vload32 s1 mmap;
        loadMemoryMap_loop limit (mmap + sz + 4) total s1
      } else Some (totalFreeMemory, s))"

definition loadMemoryMap :: "MultibootInfo \<Rightarrow> machine \<Rightarrow> (u32 \<times> machine) option" where
  "loadMemoryMap mb s = loadMemoryMap_loop (mmapAddress mb + mmapLength mb) (mmapAddress mb) 0 s"

definition reserveModuleMemory :: "layout \<Rightarrow> MultibootInfo \<Rightarrow> machine \<Rightarrow> machine option" where
  "reserveModuleMemory L mb s =
     for_rangeM 0 (modsCount mb) (\<lambda>moduleNum s. do {
       let module = modsAddress mb + 16 * moduleNum;
       modStart \<leftarrow> vload32 s module;
       modEnd \<leftarrow> vload32 s (module + 4);
       d \<leftarrow> physicalFree modStart ((modEnd - modStart) div PAGE_SIZE) (memManData s);
       identityMap MAP_FUEL (kernelPageDirectory L) modStart (modEnd - modStart) (s\<lparr>memManData := d\<rparr>)
     }) s"

definition loadModules :: "fpu \<Rightarrow> addr \<Rightarrow> layout \<Rightarrow> MultibootInfo \<Rightarrow> kernel \<Rightarrow> kernel option" where
  "loadModules fp buf L mb k =
     (if 0 < modsCount mb then do {
        k1 \<leftarrow> kernel_printk fp buf (ascii ''Loading %d modules'' @ [13, 10]) [VWord (modsCount mb)] k;
        for_rangeM 0 (modsCount mb) (\<lambda>moduleNum k. do {
          let module = modsAddress mb + 16 * moduleNum;
          let s = hmachine (heap k);
          modStart \<leftarrow> vload32 s module;
          modEnd \<leftarrow> vload32 s (module + 4);
          s1 \<leftarrow> identityMap MAP_FUEL (kernelPageDirectory L) modStart (modEnd - modStart) s;
          map_option snd (load fp buf L modStart (modEnd - modStart) (upd_heap (\<lambda>h. h\<lparr>hmachine := s1\<rparr>) k))
        }) k1
      } else Some k)"

subsection \<open>Initialisation\<close>

definition physicalAllocatorInit :: "fpu \<Rightarrow> addr \<Rightarrow> MultibootInfo \<Rightarrow> kernel \<Rightarrow> kernel option" where
  "physicalAllocatorInit fp buf mb k =
     do {
       let s = hmachine (heap k);
       let d = memManData s;
       let d1 = d\<lparr>UsedMemory := 0, PhysicalAllocation := (\<lambda>i. if i < ALLOCATION_BYTES then 0xFF else PhysicalAllocation d i)\<rparr>;
       (total, s1) \<leftarrow> loadMemoryMap mb (s\<lparr>memManData := d1\<rparr>);
       let s2 = s1\<lparr>memManData := (memManData s1)\<lparr>TotalMemory := total\<rparr>\<rparr>;
       kernel_printk fp buf (ascii ''Total physical memory: %dmb'' @ [13, 10]) [VWord (total div 1024 div 1024)]
         (upd_heap (\<lambda>h. h\<lparr>hmachine := s2\<rparr>) k)
     }"

text \<open>
  \<open>MemoryManager::init\<close>. The state has CR3 twice, in the machine that translates addresses and among the
  registers a task switch saves; loading it sets both.
\<close>

definition memoryManager_init :: "fpu \<Rightarrow> addr \<Rightarrow> layout \<Rightarrow> MultibootInfo \<Rightarrow> kernel \<Rightarrow> kernel option" where
  "memoryManager_init fp buf L mb k =
     do {
       k1 \<leftarrow> physicalAllocatorInit fp buf mb k;
       s2 \<leftarrow> mapKernelMemory L (hmachine (heap k1));
       s3 \<leftarrow> identityMap MAP_FUEL (kernelPageDirectory L) 0 (start_symbol L) s2;
       s4 \<leftarrow> reserveModuleMemory L mb s3;
       p \<leftarrow> GetPhysicalAddress s4 (kernelPageDirectory L) (kernelPageDirectory L);
       Some (upd_heap (\<lambda>h. h\<lparr>hmachine := enablePaging (changePageDirectory p s4),
                hsched := (hsched h)\<lparr>cpu := (cpu (hsched h))\<lparr>cr3 := p\<rparr>\<rparr>\<rparr>) k1)
     }"

text \<open>The constructors the linker collected, called in order; what they do is not code of this file.\<close>

definition initGlobalConstructors :: "(kernel \<Rightarrow> kernel option) list \<Rightarrow> kernel \<Rightarrow> kernel option" where
  "initGlobalConstructors ctors k = foldl (\<lambda>r c. Option.bind r c) (Some k) ctors"

datatype started = Stopped gdt_state kernel | Started gdt_state idt_state tty kernel

text \<open>
  \<open>kernel_main\<close>, up to its endless loop. \<open>env\<close> has the addresses the linker and the stack give and the
  constructors; the descriptor tables that \<open>gdt::init\<close> and \<open>IDT::init\<close> build are part of the result.
\<close>

record boot_env =
  env_layout :: layout
  env_buf :: addr
  env_tty :: addr
  env_tty_process :: addr
  env_irq :: "nat \<Rightarrow> u32"
  env_idt :: addr
  env_tss :: addr
  env_gdt :: addr
  env_eflags :: u32
  env_ctors :: "(kernel \<Rightarrow> kernel option) list"

definition kernel_main :: "fpu \<Rightarrow> boot_env \<Rightarrow> u32 \<Rightarrow> MultibootInfo \<Rightarrow> tty \<Rightarrow> kernel \<Rightarrow> started option" where
  "kernel_main fp env magic_number mb t k0 =
     (let gdt = gdt_init (env_tss env) (env_gdt env);
          k1 = (keyboard_construct k0)\<lparr>kports := serial_Init (kports k0)\<rparr>
      in if magic_number \<noteq> 0x2BADB002
         then map_option (Stopped gdt)
                (kernel_printk fp (env_buf env) (ascii ''Booted with an unsupported bootloader %d'' @ [13, 10]) [VWord magic_number] k1)
         else do {
           let idt = idt_init (env_irq env) (env_idt env) (kports k1);
           let k2 = upd_heap (\<lambda>h. h\<lparr>hmachine := (hmachine h)\<lparr>interrupts := idt_interrupts idt\<rparr>\<rparr>)
                      (k1\<lparr>kports := idt_ports idt\<rparr>);
           k3 \<leftarrow> memoryManager_init fp (env_buf env) (env_layout env) mb k2;
           k4 \<leftarrow> initGlobalConstructors (env_ctors env) k3;
           let k5 = scheduler_start (env_eflags env) k4;
           (t1, k6) \<leftarrow> tty_open (env_layout env) (env_tty env) (env_tty_process env) t k5;
           let k7 = k6\<lparr>console := (fst (console k6), Some t1)\<rparr>;
           k8 \<leftarrow> kernel_printk fp (env_buf env) (ascii ''Sakura 1.0.0'' @ [13]) [] k7;
           Some (Started gdt idt t1 k8)
         })"

end
