(* ===== verification/Tasks.thy ===== *)
theory Tasks
  imports Boot
begin

text \<open>
  New tasks: \<open>Scheduler::createTask\<close> takes the task object from the heap and the stack from the memory
  manager. The facts say what that leaves of the heap, of its pages and of the other tasks.
\<close>

section \<open>Facts\<close>

text \<open>\<open>kmalloc\<close> leaves the scheduler as it was, but enabled.\<close>

lemma remove_tag_sched: "remove_tag t h = Some h' \<Longrightarrow> hsched h' = hsched h"
  by (auto simp: remove_tag_def Let_def split: if_splits)

lemma insert_tag_sched: "insert_tag t i h = Some h' \<Longrightarrow> hsched h' = hsched h"
  by (auto simp: insert_tag_def Let_def split: if_splits)

lemma split_tag_sched: "split_tag t h = Some (n, h') \<Longrightarrow> hsched h' = hsched h"
  unfolding split_tag_def Let_def by (auto dest!: insert_tag_sched split: if_splits)

lemma kmalloc_carve_sched: "kmalloc_carve sz t h = Some (p, h') \<Longrightarrow> hsched h' = sched_enable (hsched h)"
  by (auto simp: kmalloc_carve_def liballoc_unlock_def Let_def bind_eq_Some_conv dest!: split_tag_sched split: if_splits)

lemma kmalloc_sched:
  assumes "kmalloc L sz h = Some (p, h')"
  shows "hsched h' = sched_enable (hsched h)"
proof -
  let ?h1 = "kmalloc_init (liballoc_lock h)"
  have h1: "sched_enable (hsched ?h1) = sched_enable (hsched h)"
    by (simp add: kmalloc_init_def liballoc_lock_def sched_enable_def sched_disable_def)
  have new: "hsched h2 = hsched ?h1" if "allocate_new_tag L sz ?h1 = Some (t, h2)" for t h2
    using that by (auto simp: allocate_new_tag_def liballoc_alloc_def Let_def bind_eq_Some_conv split: if_splits)
  from assms show ?thesis
    unfolding kmalloc_def Let_def
    by (auto simp: bind_eq_Some_conv h1 liballoc_unlock_def dest!: kmalloc_carve_sched new remove_tag_sched split: if_splits)
qed

text \<open>The heap does not notice a change of the machine that keeps its pages.\<close>

lemma heap_live_off_machine:
  assumes "heap_live_off L Z h lv" "\<And>B. pages_ok L Z (hmachine h) B \<Longrightarrow> pages_ok L Z s B"
    "TotalMemory (memManData s) = TotalMemory (memManData (hmachine h))"
    "tags h' = tags h" "l_freePages h' = l_freePages h" "l_completePages h' = l_completePages h"
    "l_initialized h' = l_initialized h" "hmachine h' = s"
  shows "heap_live_off L Z h' lv"
proof -
  let ?lv = "\<lambda>x. lv (x + sizeof_tag)"
  obtain C blk B where c: "pages_ok L Z (hmachine h) B" "?lv = live h C"
      "if l_initialized h then heap_ok {} h C blk B else C = {} \<and> B = {}"
      "unat (TotalMemory (memManData (hmachine h)) div PAGE_SIZE) \<le> 786424"
    using assms(1) unfolding heap_live_off_def heap_inv_def by blast
  have "pages_ok L Z (hmachine h') B" "?lv = live h' C" "if l_initialized h' then heap_ok {} h' C blk B else C = {} \<and> B = {}"
    using assms(2) [OF c(1)] c(2,3) heap_ok_fields_cong [OF assms(4-6)] assms(7,8) by simp_all
  then have "\<exists>C blk B. pages_ok L Z (hmachine h') B \<and> ?lv = live h' C \<and>
      (if l_initialized h' then heap_ok {} h' C blk B else C = {} \<and> B = {})" by blast
  then show ?thesis using c(4) assms(3,8) unfolding heap_live_off_def heap_inv_def by simp
qed

lemmas heap_live_machine = heap_live_off_machine [where Z = "{}", folded heap_live_def]

lemma heap_live_inv:
  assumes "heap_live L h lv"
  shows "mm_inv L (kernelPageDirectory L) (hmachine h)" "unat (TotalMemory (memManData (hmachine h)) div PAGE_SIZE) \<le> 786424"
  using assms unfolding heap_live_defs heap_inv_def pages_ok_def by blast+

lemma pages_ok_allocated:
  assumes "pages_ok L Z s B" "allocated L n q f s s'" "mm_inv L (kernelPageDirectory L) s'"
  shows "pages_ok L Z s' B"
proof -
  have "kentry L s' p = kentry L s p" if "p < 262144" "entry_present (kentry L s p)" for p
    using assms(2) that by (auto simp: allocated_def first_run_def free_run_def)
  then show ?thesis using assms owns_allocated [OF _ assms(2)] by (auto simp: pages_ok_def)
qed

text \<open>A store to a frame that was just taken changes nothing the memory manager relies on.\<close>

lemma pages_ok_frames:
  assumes P: "pages_ok L Z s B" and F: "frames_differ L {f} s s'" "memManData s' = memManData s"
    and f: "f \<noteq> unat (cr3_reg s) div 4096" "f \<noteq> unat (kentry L s (unat (kernelPageDirectory L) div 4096)) div 4096"
  shows "pages_ok L Z s' B"
proof -
  let ?pd = "kernelPageDirectory L"
  have inv: "mm_inv L ?pd s" and own: "\<And>bn. bn \<in> B \<Longrightarrow> owns L s bn" using P by (auto simp: pages_ok_def)
  have K: "kspace L s" "pd_ok L s ?pd" "layout_ok L" using inv by (auto simp: mm_inv_def kspace_def)
  have ke: "kentry L s' r = kentry L s r" if "r < 262144" for r by (rule kentry_frames [OF K(3) F(1) that])
  have "mm_inv L ?pd s'"
    using inv kspace_frames [OF K(1) F(1)] pd_ok_frames [OF K(3,2) F(1)] f F ke [OF mm_inv_directory_page(1) [OF inv]]
    by (simp add: mm_inv_def frames_differ_def)
  moreover have "owns L s' bn" if "bn \<in> B" for bn
  proof -
    have "owns L s' bn = owns L s bn"
    proof (rule owns_cong)
      fix r assume "r \<in> insert (unat ?pd div 4096) {unat (fst bn) div 4096 ..< unat (fst bn) div 4096 + snd bn}"
      then show "kentry L s' r = kentry L s r"
        using own [OF that] mm_inv_directory_page(1) [OF inv] by (intro ke) (auto simp: owns_def Let_def)
    qed (use F in \<open>simp add: frames_differ_def\<close>)
    then show ?thesis using own [OF that] by simp
  qed
  ultimately show ?thesis using P ke by (auto simp: pages_ok_def)
qed

text \<open>Every page that is mapped stays where it is, and the frames in use, tables apart, keep their contents.\<close>

definition keeps_used :: "layout \<Rightarrow> machine \<Rightarrow> machine \<Rightarrow> bool" where
  "keeps_used L s s' \<longleftrightarrow> cr3_reg s' = cr3_reg s \<and> used_pages (memManData s) \<subseteq> used_pages (memManData s') \<and>
     (\<forall>r < 262144. entry_present (kentry L s r) \<longrightarrow> kentry L s' r = kentry L s r) \<and>
     (\<forall>a. unat a div 4096 \<in> used_pages (memManData s) - table_pages L \<longrightarrow> ram s' a = ram s a)"

lemma keeps_used_refl [simp]: "keeps_used L s s" "keeps_used L s (s\<lparr>interrupts := b\<rparr>)"
  by (simp_all add: keeps_used_def kentry_def)

lemma keeps_used_trans:
  assumes "keeps_used L s t" "keeps_used L t u"
  shows "keeps_used L s u"
proof -
  note st = assms(1) [unfolded keeps_used_def] and tu = assms(2) [unfolded keeps_used_def]
  have "kentry L u r = kentry L s r" if r: "r < 262144" "entry_present (kentry L s r)" for r
  proof -
    have "kentry L t r = kentry L s r" using st r by simp
    then show ?thesis using tu r by simp
  qed
  moreover have "ram u a = ram s a" if a: "unat a div 4096 \<in> used_pages (memManData s) - table_pages L" for a
  proof -
    have "unat a div 4096 \<in> used_pages (memManData t) - table_pages L" using st a by blast
    then show ?thesis using st tu a by simp
  qed
  moreover have "cr3_reg u = cr3_reg s" "used_pages (memManData s) \<subseteq> used_pages (memManData u)" using st tu by (simp, blast)
  ultimately show ?thesis unfolding keeps_used_def by simp
qed

lemma keeps_used_allocated:
  assumes al: "allocated L n q f s s'"
  shows "keeps_used L s s'"
proof -
  have "kentry L s' r = kentry L s r" if "r < 262144" "entry_present (kentry L s r)" for r
  proof -
    have "r \<notin> {q ..< q + n}" using al that by (auto simp: allocated_def first_run_def free_run_def)
    then show ?thesis using al that(1) by (simp add: allocated_def)
  qed
  moreover have "ram s' a = ram s a" if "unat a div 4096 \<in> used_pages (memManData s) - table_pages L" for a
  proof -
    have "unat a div 4096 \<notin> table_pages L \<union> {f ..< f + n}" using al that unfolding allocated_def by blast
    then show ?thesis using al by (simp add: allocated_def)
  qed
  ultimately show ?thesis using al by (simp add: keeps_used_def allocated_def)
qed

text \<open>
  A stack of one page: the page was not mapped, and after the store of the argument to its last word
  the heap's pages are as they were.
\<close>

definition stack_ready :: "layout \<Rightarrow> addr \<Rightarrow> u32 \<Rightarrow> machine \<Rightarrow> machine \<Rightarrow> bool" where
  "stack_ready L a arg s s' \<longleftrightarrow> unat a mod 4096 = 0 \<and>
     (\<forall>i < 4096. xlate s (a + of_nat i) = None \<and> xlate s' (a + of_nat i) \<noteq> None) \<and>
     vload32 s' (a + 0xFFC) = Some arg \<and> (\<forall>Z B. pages_ok L Z s B \<longrightarrow> pages_ok L Z s' B) \<and> keeps_used L s s' \<and>
     TotalMemory (memManData s') = TotalMemory (memManData s) \<and> cr3_reg s' = cr3_reg s"

text \<open>The page of the stack after the allocation, and the store of the argument to its last word.\<close>

lemma stack_store:
  fixes arg :: u32
  assumes inv: "mm_inv L (kernelPageDirectory L) s1" and al: "allocated L 1 q f s s1" and used: "table_pages L \<subseteq> used_pages (memManData s)"
  defines "s' \<equiv> s1\<lparr>ram := store32 (ram s1) (of_nat f * 4096 + 0xFFC) arg\<rparr>"
  shows "vstore32 (of_nat q * 4096 + 0xFFC) arg s1 = Some s'" "frames_differ L {f} s1 s'" "keeps_used L s s'"
proof -
  have "\<forall>i < 1 * 4096. xlate s1 (of_nat q * 4096 + of_nat i) = Some (of_nat f * 4096 + of_nat i)"
    using al unfolding allocated_def by blast
  from this [rule_format, of "0xFFC"] show "vstore32 (of_nat q * 4096 + 0xFFC) arg s1 = Some s'" by (simp add: vstore32_def s'_def)
  have L: "layout_ok L" using inv by (simp add: mm_inv_def kspace_def)
  have f: "f < 1048576" "f \<notin> used_pages (memManData s)" using al by (auto simp: allocated_def)
  then have "{f} \<inter> table_pages L = {}" using used by auto
  then show fd: "frames_differ L {f} s1 s'" unfolding s'_def using f(1) by (intro store32_frame) simp_all
  have "ram s' a = ram s a" if "unat a div 4096 \<in> used_pages (memManData s) - table_pages L" for a
  proof -
    have "unat a div 4096 \<noteq> f" using that f(2) by auto
    then have "ram s' a = ram s1 a" using fd by (simp add: frames_differ_def)
    then show ?thesis using keeps_used_allocated [OF al] that by (simp add: keeps_used_def)
  qed
  then show "keeps_used L s s'"
    using keeps_used_allocated [OF al] kentry_frames [OF L fd] unfolding keeps_used_def by (simp add: s'_def)
qed

lemma new_page_apart:
  assumes inv: "mm_inv L (kernelPageDirectory L) s" and al: "allocated L 1 q f s s1"
  shows "f \<noteq> unat (cr3_reg s1) div 4096" "f \<noteq> unat (kentry L s1 (unat (kernelPageDirectory L) div 4096)) div 4096"
proof -
  let ?p = "unat (kernelPageDirectory L) div 4096"
  note pdp = mm_inv_directory_page [OF inv]
  have "f \<notin> used_pages (memManData s)" using al by (auto simp: allocated_def)
  moreover have "kentry L s1 ?p = kentry L s ?p" "cr3_reg s1 = cr3_reg s"
    using keeps_used_allocated [OF al] pdp by (simp_all add: keeps_used_def)
  ultimately show "f \<noteq> unat (cr3_reg s1) div 4096" "f \<noteq> unat (kentry L s1 ?p) div 4096"
    using inv by (auto simp: mm_inv_def)
qed

lemma stack_ready_allocated:
  assumes inv: "mm_inv L (kernelPageDirectory L) s" "mm_inv L (kernelPageDirectory L) s1" and al: "allocated L 1 q f s s1"
  shows "\<exists>s'. vstore32 (of_nat q * 4096 + 0xFFC) arg s1 = Some s' \<and> stack_ready L (of_nat q * 4096) arg s s'"
proof -
  let ?a = "of_nat q * 4096 :: u32"
  define s' where "s' = s1\<lparr>ram := store32 (ram s1) (of_nat f * 4096 + 0xFFC) arg\<rparr>"
  have "table_pages L \<subseteq> used_pages (memManData s)" using inv(1) by (simp add: mm_inv_def)
  note st = stack_store [OF inv(2) al this, of arg, folded s'_def] and fp = new_page_apart [OF inv(1) al]
  have q: "q < 262144" "\<not> entry_present (kentry L s q)" using al by (auto simp: allocated_def first_run_def free_run_def)
  note va = page_number_address [OF q(1)]
  have K: "kspace L s" "kspace L s1" "layout_ok L" using inv by (auto simp: mm_inv_def kspace_def)
  have K': "kspace L s'" by (rule kspace_frames [OF K(2) st(2)]) (use fp in simp)
  have pages: "pages_ok L Z s' B" if "pages_ok L Z s B" for Z B
    by (rule pages_ok_frames [OF pages_ok_allocated [OF that al inv(2)] st(2) _ fp]) (simp add: s'_def)
  have x1: "xlate s1 (?a + of_nat i) = Some (of_nat f * 4096 + of_nat i)" if "i < 4096" for i
    using al that by (simp add: allocated_def)
  have off: "unat (?a + of_nat i) < 0x40000000 \<and> unat (?a + of_nat i) div 4096 = q" if "i < 4096" for i
  proof -
    have "unat (?a + of_nat i) = q * 4096 + i"
      using that q(1) va(1) by (simp add: unat_word_ariths unat_of_nat take_bit_nat_eq_self)
    then show ?thesis using that q(1) by simp
  qed
  have x': "xlate s' (?a + of_nat i) = xlate s1 (?a + of_nat i)" "xlate s (?a + of_nat i) = None" if "i < 4096" for i
    using off [OF that] xlate_kernel [OF K'] xlate_kernel [OF K(2)] xlate_kernel [OF K(1)]
      kentry_frames [OF K(3) st(2) q(1)] q(2) by simp_all
  have "vload32 s' (?a + 0xFFC) = Some arg"
    using x' [of 4092] x1 [of 4092] by (simp add: vload32_def) (simp add: s'_def)
  then have "stack_ready L ?a arg s s'"
    using x' x1 pages va(1) al st(3) unfolding stack_ready_def by (simp add: s'_def allocated_def)
  then show ?thesis using st(1) by blast
qed

lemma stack_page:
  assumes inv: "mm_inv L (kernelPageDirectory L) s" and T: "unat (TotalMemory (memManData s) div PAGE_SIZE) \<le> 786424"
  shows "\<exists>a s1. memoryAllocate (kernelPageDirectory L) TASK_STACK_SIZE False s = Some (a, s1) \<and>
    (a \<noteq> 0 \<longrightarrow> (\<exists>s'. vstore32 (a + 0xFFC) arg s1 = Some s' \<and> stack_ready L a arg s s'))"
proof -
  have np: "unat (num_pages 0x1000) = 1" by (simp add: num_pages_def)
  have T1: "unat (TotalMemory (memManData s) div PAGE_SIZE) + unat (num_pages 0x1000) \<le> 1048568" using T np by simp
  have sz: "0 < (0x1000 :: u32)" "(0x1000 :: u32) \<le> 0x40000000" by simp_all
  show ?thesis
    using memoryAllocate_kernel [OF inv sz T1] stack_ready_allocated [OF inv, of _ _ _ arg] unfolding np by fastforce
qed

lemma upd_regs_fields [simp]:
  "hmachine (upd_regs t f h) = hmachine h" "tags (upd_regs t f h) = tags h" "l_freePages (upd_regs t f h) = l_freePages h"
  "l_completePages (upd_regs t f h) = l_completePages h" "l_initialized (upd_regs t f h) = l_initialized h"
  "tasks (hsched (upd_regs t f h)) a =
     (if a = t then (tasks (hsched h) t)\<lparr>regs := f (regs (tasks (hsched h) t))\<rparr> else tasks (hsched h) a)"
  "mainTask (hsched (upd_regs t f h)) = mainTask (hsched h)" "m_runningTask (hsched (upd_regs t f h)) = m_runningTask (hsched h)"
  "m_taskTail (hsched (upd_regs t f h)) = m_taskTail (hsched h)"
  by (simp_all add: upd_regs_def upd_task_def)

text \<open>
  A task that is ready to be started: cleared registers, the flags of the main task, the kernel's
  directory, and a stack whose only word is the argument. Nothing else in the scheduler changed.
\<close>

definition task_ready :: "layout \<Rightarrow> addr \<Rightarrow> addr \<Rightarrow> addr \<Rightarrow> kheap \<Rightarrow> kheap \<Rightarrow> bool" where
  "task_ready L task stack arg h h' \<longleftrightarrow>
     (let t = tasks (hsched h') task; r = regs t
      in eax r = 0 \<and> ebx r = 0 \<and> ecx r = 0 \<and> edx r = 0 \<and> esi r = 0 \<and> edi r = 0 \<and>
         eflags r = eflags (regs (tasks (hsched h) (mainTask (hsched h)))) \<and>
         cr3 r = kernelPageDirectory L \<and> esp r = stack + 0xFFC \<and> vload32 (hmachine h') (esp r) = Some arg \<and>
         next_task t = 0 \<and>
         (\<forall>a. a \<noteq> task \<longrightarrow> tasks (hsched h') a = tasks (hsched h) a) \<and>
         mainTask (hsched h') = mainTask (hsched h) \<and> m_runningTask (hsched h') = m_runningTask (hsched h) \<and>
         m_taskTail (hsched h') = m_taskTail (hsched h))"

lemma createTask_steps:
  assumes kmalloc: "kmalloc L 92 h = Some (task, h1)" and run: "cr3 (regs (getRunningTask (hsched h))) = kernelPageDirectory L"
    and stack: "memoryAllocate (kernelPageDirectory L) TASK_STACK_SIZE False (hmachine h1) = Some (stack, s1)"
    and store: "vstore32 (stack + 0xFFC) arg s1 = Some s'" and arg: "vload32 s' (stack + 0xFFC) = Some arg"
  shows "\<exists>h'. createTask L False arg h = Some (task, h') \<and> task_ready L task stack arg h h' \<and>
    hmachine h' = s' \<and> tags h' = tags h1 \<and> l_freePages h' = l_freePages h1 \<and> l_completePages h' = l_completePages h1 \<and>
    l_initialized h' = l_initialized h1"
proof -
  have sc: "tasks (hsched h1) = tasks (hsched h)" "mainTask (hsched h1) = mainTask (hsched h)"
    "m_runningTask (hsched h1) = m_runningTask (hsched h)" "m_taskTail (hsched h1) = m_taskTail (hsched h)"
    by (simp_all add: kmalloc_sched [OF kmalloc] sched_enable_def)
  define h2 where "h2 = upd_regs task (\<lambda>r. r\<lparr>eax := 0, ebx := 0, ecx := 0, edx := 0, esi := 0, edi := 0,
      eflags := eflags (regs (tasks (hsched h1) (mainTask (hsched h1))))\<rparr>) h1"
  define h3 where "h3 = upd_regs task (\<lambda>r. r\<lparr>cr3 := kernelPageDirectory L\<rparr>) h2"
  define h4 where "h4 = upd_regs task (\<lambda>r. r\<lparr>esp := 0xFFC + stack\<rparr>) (h3\<lparr>hmachine := s1\<rparr>)"
  define h5 where "h5 = h4\<lparr>hmachine := s', hsched := upd_task task (\<lambda>t. t\<lparr>next_task := 0\<rparr>) (hsched h4)\<rparr>"
  have "cr3 (regs (getRunningTask (hsched h3))) = kernelPageDirectory L" "hmachine h3 = hmachine h1"
    using run by (simp_all add: h3_def h2_def getRunningTask_def sc)
  moreover have "vstore32 (0xFFC + stack) arg s1 = Some s'" using store by (simp add: add.commute)
  ultimately have "createTask L False arg h = Some (task, h5)"
    using kmalloc stack
    by (simp add: createTask_def memoryAllocate_running_def flip: h2_def)
      (simp add: Let_def h5_def flip: h3_def h4_def)
  moreover have "task_ready L task stack arg h h5"
    using arg by (simp add: add.commute task_ready_def Let_def h5_def h4_def h3_def h2_def sc upd_task_def)
  moreover have "hmachine h5 = s'" "tags h5 = tags h1" "l_freePages h5 = l_freePages h1"
    "l_completePages h5 = l_completePages h1" "l_initialized h5 = l_initialized h1"
    by (simp_all add: h5_def h4_def h3_def h2_def)
  ultimately show ?thesis by blast
qed

lemma kmalloc_carve_machine: "kmalloc_carve sz t h = Some (p, h') \<Longrightarrow> hmachine h' = hmachine h"
  by (auto simp: kmalloc_carve_def split_tag_def insert_tag_def Let_def bind_eq_Some_conv split: if_splits)

lemma kmalloc_keeps_used:
  assumes live: "heap_live L h lv" and kmalloc: "kmalloc L 92 h = Some (p, h')"
  shows "keeps_used L (hmachine h) (hmachine h')"
proof -
  note inv = heap_live_inv [OF live]
  let ?h1 = "kmalloc_init (liballoc_lock h)"
  have h1: "hmachine ?h1 = hmachine h" by (simp add: kmalloc_init_def)
  have np: "new_block_pages 92 = 16" "num_pages 0x10000 = 16" by (simp_all add: new_block_pages_def num_pages_def)
  have T: "unat (TotalMemory (memManData (hmachine h)) div PAGE_SIZE) + unat (num_pages 0x10000) \<le> 1048568" using inv(2) np by simp
  have alloc: "keeps_used L (hmachine h) s'" if "memoryAllocate (kernelPageDirectory L) 0x10000 False (hmachine h) = Some (a, s')" for a s'
    using memoryAllocate_kernel [OF inv(1) _ _ T] that by (auto intro: keeps_used_allocated)
  have new: "keeps_used L (hmachine h) (hmachine h2)" if "allocate_new_tag L 92 ?h1 = Some (t, h2)" for t h2
    using that np by (auto simp: allocate_new_tag_def liballoc_alloc_def Let_def bind_eq_Some_conv h1 split: if_splits dest!: alloc)
  have rm: "hmachine h2 = hmachine h" if "remove_tag t ?h1 = Some h2" for t h2
    using that by (auto simp: remove_tag_def Let_def h1 split: if_splits)
  from kmalloc show ?thesis
    unfolding kmalloc_def Let_def
    by (auto simp: bind_eq_Some_conv dest!: kmalloc_carve_machine new rm split: if_splits)
qed

text \<open>A page that is not mapped overlaps no block of the heap.\<close>

lemma unmapped_page_apart:
  assumes live: "heap_live L h lv" and p: "lv p = Some n" and stack: "unat stack mod 4096 = 0"
    and free: "\<And>i. i < 4096 \<Longrightarrow> xlate (hmachine h) (stack + of_nat i) = None"
  shows "payload (p, n) \<inter> payload (stack, 0x1000) = {}"
proof -
  have "unat a \<notin> payload (p, n)" if "unat a \<in> payload (stack, 0x1000)" for a :: u32
  proof -
    have "a = stack + of_nat (unat a - unat stack)" "unat a - unat stack < 4096"
      using that by (auto simp: payload_def of_nat_diff)
    then have "xlate (hmachine h) a = None" using free by metis
    then show ?thesis using heap_live_mapped [OF live p] by blast
  qed
  moreover have "\<exists>a. x = unat (a :: u32)" if "x \<in> payload (stack, 0x1000)" for x
  proof -
    obtain k where k: "unat stack = 4096 * k" using stack by auto
    then have "k < 1048576" using unsigned_less [of stack, where ?'a = nat] by simp
    then have "x < 2 ^ 32" using that k by (simp add: payload_def)
    then show ?thesis by (metis unat_of_nat32)
  qed
  ultimately show ?thesis by blast
qed

text \<open>The outcomes of \<open>createTask\<close>: a task that is ready, or no memory for its object or its stack.\<close>

lemma createTask_outcomes:
  assumes live: "heap_live L h lv" and run: "cr3 (regs (getRunningTask (hsched h))) = kernelPageDirectory L"
  shows "(\<exists>task stack h'. createTask L False arg h = Some (task, h') \<and> task \<noteq> 0 \<and> lv task = None \<and> stack \<noteq> 0 \<and>
       heap_live L h' (lv(task \<mapsto> 92)) \<and> task_ready L task stack arg h h' \<and> keeps_used L (hmachine h) (hmachine h') \<and>
       (\<forall>i < 4096. xlate (hmachine h') (stack + of_nat i) \<noteq> None) \<and>
       (\<forall>p n. (lv(task \<mapsto> 92)) p = Some n \<longrightarrow> payload (p, n) \<inter> payload (stack, 0x1000) = {})) \<or>
     (\<exists>h1. kmalloc L 92 h = Some (0, h1)) \<or>
     (\<exists>task h1 s1. kmalloc L 92 h = Some (task, h1) \<and>
        memoryAllocate (kernelPageDirectory L) TASK_STACK_SIZE False (hmachine h1) = Some (0, s1))"
proof -
  obtain task h1 where h1: "kmalloc L 92 h = Some (task, h1)"
      "task = 0 \<and> heap_live L h1 lv \<or> task \<noteq> 0 \<and> lv task = None \<and> heap_live L h1 (lv(task \<mapsto> 92))"
    using kernel_heap.get_ok [OF live, of 92] by auto
  note sc = kmalloc_sched [OF h1(1)]
  show ?thesis
  proof (cases "task = 0")
    case False
    then have t: "task \<noteq> 0" "lv task = None" and live1: "heap_live L h1 (lv(task \<mapsto> 92))" using h1(2) by auto
    note inv = heap_live_inv [OF live1]
    obtain stack s1 where s1: "memoryAllocate (kernelPageDirectory L) TASK_STACK_SIZE False (hmachine h1) = Some (stack, s1)"
        "stack \<noteq> 0 \<longrightarrow> (\<exists>s'. vstore32 (stack + 0xFFC) arg s1 = Some s' \<and> stack_ready L stack arg (hmachine h1) s')"
      using stack_page [OF inv, of arg] by blast
    show ?thesis
    proof (cases "stack = 0")
      case False
      then obtain s' where s': "vstore32 (stack + 0xFFC) arg s1 = Some s'" "stack_ready L stack arg (hmachine h1) s'"
        using s1(2) by blast
      have ready: "vload32 s' (stack + 0xFFC) = Some arg" "\<And>Z B. pages_ok L Z (hmachine h1) B \<Longrightarrow> pages_ok L Z s' B"
          "TotalMemory (memManData s') = TotalMemory (memManData (hmachine h1))"
          "\<forall>i < 4096. xlate (hmachine h1) (stack + of_nat i) = None \<and> xlate s' (stack + of_nat i) \<noteq> None" "unat stack mod 4096 = 0"
        using s'(2) by (auto simp: stack_ready_def)
      obtain h' where h': "createTask L False arg h = Some (task, h')" "task_ready L task stack arg h h'"
          "hmachine h' = s'" "tags h' = tags h1" "l_freePages h' = l_freePages h1" "l_completePages h' = l_completePages h1"
          "l_initialized h' = l_initialized h1"
        using createTask_steps [OF h1(1) run s1(1) s'(1) ready(1)] by blast
      have "heap_live L h' (lv(task \<mapsto> 92))" using heap_live_machine [OF live1 ready(2,3) h'(4-7,3)] .
      moreover have "keeps_used L (hmachine h) s'"
        using keeps_used_trans [OF kmalloc_keeps_used [OF live h1(1)]] s'(2) by (simp add: stack_ready_def)
      moreover have "payload (p, n) \<inter> payload (stack, 0x1000) = {}" if "(lv(task \<mapsto> 92)) p = Some n" for p n
        using unmapped_page_apart [OF live1 that ready(5)] ready(4) by blast
      ultimately show ?thesis using h' t ready(4) False by (intro disjI1 exI [of _ task] exI [of _ stack] exI [of _ h']) simp
    qed (use h1(1) s1(1) in blast)
  qed (use h1(1) in blast)
qed

text \<open>The first request of a heap takes sixteen pages, and the block lies in the first of them.\<close>

lemma first_kmalloc:
  assumes live: "heap_live L h (\<lambda>_. None)" and fresh: "\<not> l_initialized h" and room: "memory_room L 17 (hmachine h)"
  shows "\<exists>p h1 q f. kmalloc L 92 h = Some (p, h1) \<and> p \<noteq> 0 \<and> allocated L 16 q f (hmachine h) (hmachine h1) \<and>
    mm_inv L (kernelPageDirectory L) (hmachine h1) \<and> unat p = q * 4096 + 32"
proof -
  note inv = heap_live_inv [OF live]
  have np: "num_pages 0x10000 = 16" by (simp add: num_pages_def)
  have "memory_room L 16 (hmachine h)" by (rule memory_room_mono [OF room]) simp
  then obtain q f s where s: "memoryAllocate (kernelPageDirectory L) 0x10000 False (hmachine h) = Some (of_nat q * 4096, s)"
      "allocated L 16 q f (hmachine h) s" "mm_inv L (kernelPageDirectory L) s" "q < 262144" "of_nat q * 4096 \<noteq> (0 :: u32)"
    using room_allocates [OF inv, of "0x10000"] np by auto
  let ?h = "kmalloc_init (liballoc_lock h)"
  have "find_tag ?h 92 0 = Some 0" by (subst find_tag.simps) simp
  moreover have "new_block_pages 92 = 16" by (simp add: new_block_pages_def)
  ultimately obtain h2 where h2: "kmalloc L 92 h = kmalloc_carve 92 (of_nat q * 4096) h2" "hmachine h2 = s"
    using s(1,5) fresh by (simp add: kmalloc_def Let_def kmalloc_init_def allocate_new_tag_def liballoc_alloc_def
        upd_tag_def liballoc_lock_def)
  obtain p h1 where p: "kmalloc L 92 h = Some (p, h1)"
    using kernel_heap.get_ok [OF live, of 92] by auto
  have "p = of_nat q * 4096 + 32" "hmachine h1 = s"
    using h2 p carve_result kmalloc_carve_machine by metis+
  moreover have "unat (of_nat q * 4096 + 32 :: u32) = q * 4096 + 32"
    using page_number_address(1) [OF s(4)] s(4) by (simp add: unat_word_ariths)
  moreover from this have "of_nat q * 4096 + 32 \<noteq> (0 :: u32)" by (metis add_is_0 unat_0 zero_neq_numeral)
  ultimately show ?thesis using p s(2,3) by blast
qed

text \<open>
  With seventeen pages to give, a heap that was never used serves \<open>createTask\<close>, and the object is at an
  address that was not mapped before.
\<close>

lemma first_task_room:
  assumes live: "heap_live L h (\<lambda>_. None)" and fresh: "\<not> l_initialized h" and room: "memory_room L 17 (hmachine h)"
  shows "\<exists>p h1. kmalloc L 92 h = Some (p, h1) \<and> p \<noteq> 0 \<and>
    (\<forall>s1. memoryAllocate (kernelPageDirectory L) TASK_STACK_SIZE False (hmachine h1) \<noteq> Some (0, s1)) \<and>
    unat p < 0x40000000 \<and> \<not> entry_present (kentry L (hmachine h) (unat p div 4096))"
proof -
  obtain p h1 q f where k: "kmalloc L 92 h = Some (p, h1)" "p \<noteq> 0" "allocated L 16 q f (hmachine h) (hmachine h1)"
      "mm_inv L (kernelPageDirectory L) (hmachine h1)" "unat p = q * 4096 + 32"
    using first_kmalloc [OF live fresh room] by blast
  have T: "unat (TotalMemory (memManData (hmachine h)) div PAGE_SIZE) \<le> 786424" "TotalMemory (memManData (hmachine h1)) = TotalMemory (memManData (hmachine h))"
    using heap_live_inv(2) [OF live] k(3) by (simp_all add: allocated_def)
  have "num_pages 0x1000 = 1" by (simp add: num_pages_def)
  moreover have "memory_room L 1 (hmachine h1)" using room_left [OF _ k(3) T(1)] room by simp
  ultimately have "memoryAllocate (kernelPageDirectory L) 0x1000 False (hmachine h1) \<noteq> Some (0, s1)" for s1
    using room_allocates [OF k(4), of "0x1000"] T by auto
  moreover have "q + 16 \<le> 262144" "\<not> entry_present (kentry L (hmachine h) q)"
    using k(3) by (auto simp: allocated_def first_run_def free_run_def)
  then have "unat p < 0x40000000" "\<not> entry_present (kentry L (hmachine h) (unat p div 4096))" using k(5) by simp_all
  ultimately show ?thesis using k(1,2) by blast
qed

lemma createTask_succeeds:
  assumes live: "heap_live L h (\<lambda>_. None)" and fresh: "\<not> l_initialized h" and room: "memory_room L 17 (hmachine h)"
    and run: "cr3 (regs (getRunningTask (hsched h))) = kernelPageDirectory L"
  shows "\<exists>task stack h'. createTask L False arg h = Some (task, h') \<and> task \<noteq> 0 \<and> stack \<noteq> 0 \<and>
    heap_live L h' [task \<mapsto> 92] \<and> task_ready L task stack arg h h' \<and>
    unat task < 0x40000000 \<and> \<not> entry_present (kentry L (hmachine h) (unat task div 4096))"
proof -
  obtain p h1 where k: "kmalloc L 92 h = Some (p, h1)" "p \<noteq> 0"
      "\<forall>s1. memoryAllocate (kernelPageDirectory L) TASK_STACK_SIZE False (hmachine h1) \<noteq> Some (0, s1)"
      "unat p < 0x40000000" "\<not> entry_present (kentry L (hmachine h) (unat p div 4096))"
    using first_task_room [OF live fresh room] by blast
  obtain task stk h' where t: "createTask L False arg h = Some (task, h')" "task \<noteq> 0" "stk \<noteq> 0"
      "heap_live L h' [task \<mapsto> 92]" "task_ready L task stk arg h h'"
    using createTask_outcomes [OF live run, of arg] k(1-3) by auto
  moreover have "task = p" using t(1) k(1) by (auto simp: createTask_def bind_eq_Some_conv Let_def memoryAllocate_running_def)
  ultimately show ?thesis using k(4,5) by blast
qed

subsection \<open>The machine after boot\<close>

definition boot_tasks :: kheap where
  "boot_tasks = boot_heap\<lparr>hsched := boot_scheduler\<rparr>"

lemma boot_tasks_live: "heap_live boot_layout boot_tasks (\<lambda>_. None)"
  using heap_live_empty [of boot_layout boot_tasks] boot_heap_facts by (simp add: boot_tasks_def boot_heap_def)

section \<open>Properties\<close>

text \<open>
  Property C14: when the running task uses the kernel's directory, \<open>createTask\<close> returns a new task whose
  object is a new block of the heap and whose stack is a mapped page that overlaps no block of the
  heap; the heap stays well formed, the other tasks, every mapped page and what the frames in use hold
  are untouched, and the argument is the word at the stack pointer. The only other outcomes are that the heap or the memory manager has no memory.
\<close>

theorem createTask_makes_task:
  assumes live: "heap_live L h lv" and run: "cr3 (regs (getRunningTask (hsched h))) = kernelPageDirectory L"
  shows "(\<exists>task stack h'. createTask L False arg h = Some (task, h') \<and> task \<noteq> 0 \<and> lv task = None \<and> stack \<noteq> 0 \<and>
       heap_live L h' (lv(task \<mapsto> 92)) \<and> task_ready L task stack arg h h' \<and> keeps_used L (hmachine h) (hmachine h') \<and>
       (\<forall>i < 4096. xlate (hmachine h') (stack + of_nat i) \<noteq> None) \<and>
       (\<forall>p n. (lv(task \<mapsto> 92)) p = Some n \<longrightarrow> payload (p, n) \<inter> payload (stack, 0x1000) = {})) \<or>
     (\<exists>h1. kmalloc L 92 h = Some (0, h1)) \<or>
     (\<exists>task h1 s1. kmalloc L 92 h = Some (task, h1) \<and>
        memoryAllocate (kernelPageDirectory L) TASK_STACK_SIZE False (hmachine h1) = Some (0, s1))"
  by (rule createTask_outcomes [OF assms])

theorem createTask_makes_task_witness:
  "\<exists>task stack h'. createTask boot_layout False 7 boot_tasks = Some (task, h') \<and> task \<noteq> 0 \<and>
     heap_live boot_layout h' [task \<mapsto> 92] \<and> task_ready boot_layout task stack 7 boot_tasks h'"
proof -
  have run: "cr3 (regs (getRunningTask (hsched boot_tasks))) = kernelPageDirectory boot_layout"
    by (simp add: boot_tasks_def boot_scheduler_def getRunningTask_def boot_layout_def)
  have "memory_room boot_layout 17 (hmachine boot_tasks)"
    using boot_room [of True] by (simp add: boot_tasks_def boot_heap_def boot_machine_def)
  then show ?thesis
    using createTask_makes_task [OF boot_tasks_live run, of 7] first_task_room [OF boot_tasks_live] boot_heap_facts(2)
    by (fastforce simp: boot_tasks_def)
qed
end
