(* ===== verification/Loader.thy ===== *)
theory Loader
  imports Tasks
begin

text \<open>
  The ELF loader: which files \<open>verifyElfHeader\<close> accepts and what it says of the others, and where the
  loop of \<open>load\<close> over the program headers puts the segments of a file.
\<close>

section \<open>Specification\<close>

subsection \<open>The header\<close>

text \<open>The checks of a header in the order of the code, with the message of each.\<close>

definition elf_checks :: "u8 list \<Rightarrow> (bool \<times> string) list" where
  "elf_checks bs =
     [(bs ! 0 = 0x7F, ''ELF Header EI_MAG0 incorrect.''), (bs ! 1 = 69, ''ELF Header EI_MAG1 incorrect.''),
      (bs ! 2 = 76, ''ELF Header EI_MAG2 incorrect.''), (bs ! 3 = 70, ''ELF Header EI_MAG3 incorrect.''),
      (bs ! 4 = 1, ''Unsupported ELF File Class.''), (bs ! 5 = 1, ''Unsupported ELF File byte order.''),
      (bs ! 18 = 3 \<and> bs ! 19 = 0, ''Unsupported ELF File target.''), (bs ! 6 = 1, ''Unsupported ELF File version.''),
      ((bs ! 16 = 1 \<or> bs ! 16 = 2) \<and> bs ! 17 = 0, ''Unsupported ELF File type.'')]"

definition elf_error :: "u8 list \<Rightarrow> string option" where
  "elf_error bs = map_option snd (find (\<lambda>c. \<not> fst c) (elf_checks bs))"

subsection \<open>Segments\<close>

text \<open>
  Pages that are mapped to themselves and in use, apart from the page tables and directories, as the
  pages of a boot module are.
\<close>

definition resident :: "layout \<Rightarrow> machine \<Rightarrow> nat set \<Rightarrow> bool" where
  "resident L s P \<longleftrightarrow> (\<forall>p \<in> P. p < 262144 \<and> entry_present (kentry L s p) \<and> entry_frame (kentry L s p) = of_nat p \<and>
     p \<in> used_pages (memManData s) \<and> p \<notin> table_pages L \<and> p \<noteq> unat (cr3_reg s) div 4096 \<and>
     p \<noteq> unat (kentry L s (unat (kernelPageDirectory L) div 4096)) div 4096)"

text \<open>The tables of an ELF file in memory: its program headers and what they say of the segments.\<close>

definition load16 :: "memory \<Rightarrow> addr \<Rightarrow> u16" where
  "load16 m a = ucast (m a) OR push_bit 8 (ucast (m (a + 1)))"

definition phnum :: "memory \<Rightarrow> addr \<Rightarrow> nat" where
  "phnum m elf = unat (load16 m (elf + 44))"

definition phdr :: "memory \<Rightarrow> addr \<Rightarrow> nat \<Rightarrow> addr" where
  "phdr m elf j = elf + load32 m (elf + 28) + ucast (load16 m (elf + 42)) * of_nat j"

definition seg_data :: "memory \<Rightarrow> addr \<Rightarrow> nat \<Rightarrow> addr" where
  "seg_data m elf j = elf + load32 m (phdr m elf j + 4)"

definition seg_addr :: "memory \<Rightarrow> addr \<Rightarrow> nat \<Rightarrow> addr" where
  "seg_addr m elf j = load32 m (phdr m elf j + 8)"

definition seg_size :: "memory \<Rightarrow> addr \<Rightarrow> nat \<Rightarrow> u16" where
  "seg_size m elf j = load16 m (phdr m elf j + 16)"

definition seg_page :: "memory \<Rightarrow> addr \<Rightarrow> nat \<Rightarrow> nat" where
  "seg_page m elf j = unat (seg_addr m elf j) div 4096"

definition seg_count :: "memory \<Rightarrow> addr \<Rightarrow> nat \<Rightarrow> nat" where
  "seg_count m elf j = unat (num_pages (ucast (seg_size m elf j)))"

definition seg_pages :: "memory \<Rightarrow> addr \<Rightarrow> nat \<Rightarrow> nat set" where
  "seg_pages m elf j = {seg_page m elf j ..< seg_page m elf j + seg_count m elf j}"

text \<open>
  A file the loader can load: its headers are aligned, behind one another and behind the ELF header;
  headers and segments lie in the resident pages \<open>P\<close>; the segments go to pages of the kernel's gigabyte
  that are neither reserved nor the file's own, and to no page twice.
\<close>

definition loadable :: "layout \<Rightarrow> nat set \<Rightarrow> memory \<Rightarrow> addr \<Rightarrow> bool" where
  "loadable L P m elf \<longleftrightarrow>
     (let phoff = unat (load32 m (elf + 28)); phentsize = unat (load16 m (elf + 42)); N = phnum m elf
      in unat elf mod 4 = 0 \<and> phoff mod 4 = 0 \<and> phentsize mod 4 = 0 \<and> 52 \<le> phoff \<and> 32 \<le> phentsize \<and>
         unat elf + phoff + phentsize * N < 2 ^ 32 \<and> (\<forall>i < 52. unat (elf + of_nat i) div 4096 \<in> P) \<and>
         (\<forall>j < N. (\<forall>i < 32. unat (phdr m elf j + of_nat i) div 4096 \<in> P) \<and> 0 < seg_size m elf j \<and>
            (\<forall>i < unat (seg_size m elf j). unat (seg_data m elf j + of_nat i) div 4096 \<in> P) \<and>
            seg_page m elf j + seg_count m elf j \<le> 262144 \<and> seg_pages m elf j \<inter> (P \<union> reserved_pages L) = {} \<and>
            (\<forall>i < j. seg_pages m elf i \<inter> seg_pages m elf j = {})))"

text \<open>The words of the first \<open>k\<close> program headers that the loader writes to.\<close>

definition rewritten :: "memory \<Rightarrow> addr \<Rightarrow> nat \<Rightarrow> addr set" where
  "rewritten m elf k = {phdr m elf j + of_nat i | j i. j < k \<and> 8 \<le> i \<and> i < 12}"

text \<open>
  The pages of a segment were mapped: they lead to frames that were free, the first run of their
  number. Nothing else changed but the page tables.
\<close>

definition segment_mapped :: "layout \<Rightarrow> nat \<Rightarrow> nat \<Rightarrow> nat \<Rightarrow> machine \<Rightarrow> machine \<Rightarrow> bool" where
  "segment_mapped L q n f s s' \<longleftrightarrow> kspace L s' \<and> pd_ok L s' (kernelPageDirectory L) \<and> cr3_reg s' = cr3_reg s \<and>
     TotalMemory (memManData s') = TotalMemory (memManData s) \<and> f + n \<le> 1048568 \<and>
     first_fit (used_pages (memManData s)) (unat (TotalMemory (memManData s) div PAGE_SIZE)) n f \<and>
     used_pages (memManData s') = used_pages (memManData s) \<union> {f ..< f + n} \<and>
     (\<forall>k < n. entry_present (kentry L s' (q + k)) \<and> entry_frame (kentry L s' (q + k)) = of_nat f + of_nat k) \<and>
     (\<forall>r < 262144. r \<notin> {q ..< q + n} \<longrightarrow> kentry L s' r = kentry L s r) \<and>
     (\<forall>a. unat a div 4096 \<notin> table_pages L \<longrightarrow> ram s' a = ram s a)"

text \<open>
  The outcome of one turn: the pages from \<open>q\<close> on lead to the frames from \<open>f\<close> on, which were free; memory
  that was in use is as before, but for the word of the program header, as \<open>m\<close> has it.
\<close>

definition segment_loaded :: "layout \<Rightarrow> nat set \<Rightarrow> nat \<Rightarrow> nat \<Rightarrow> nat \<Rightarrow> memory \<Rightarrow> machine \<Rightarrow> machine \<Rightarrow> bool" where
  "segment_loaded L P q n f m s s' \<longleftrightarrow> mm_inv L (kernelPageDirectory L) s' \<and> resident L s' P \<and> cr3_reg s' = cr3_reg s \<and>
     TotalMemory (memManData s') = TotalMemory (memManData s) \<and>
     first_fit (used_pages (memManData s)) (unat (TotalMemory (memManData s) div PAGE_SIZE)) n f \<and> f + n \<le> 1048568 \<and>
     used_pages (memManData s') = used_pages (memManData s) \<union> {f ..< f + n} \<and>
     (\<forall>k < n. entry_present (kentry L s' (q + k)) \<and> entry_frame (kentry L s' (q + k)) = of_nat f + of_nat k) \<and>
     (\<forall>r < 262144. r \<notin> {q ..< q + n} \<longrightarrow> kentry L s' r = kentry L s r) \<and>
     (\<forall>a. unat a div 4096 \<in> used_pages (memManData s) - table_pages L \<longrightarrow> ram s' a = m a)"

text \<open>Only the pages of \<open>Q\<close> may be mapped anew; no frame is given back.\<close>

definition grown :: "nat set \<Rightarrow> layout \<Rightarrow> machine \<Rightarrow> machine \<Rightarrow> bool" where
  "grown Q L s s' \<longleftrightarrow> cr3_reg s' = cr3_reg s \<and> TotalMemory (memManData s') = TotalMemory (memManData s) \<and>
     used_pages (memManData s) \<subseteq> used_pages (memManData s') \<and> (\<forall>r < 262144. r \<notin> Q \<longrightarrow> kentry L s' r = kentry L s r)"

text \<open>The state before header \<open>k\<close>, for a file that was first in memory as \<open>m\<close>.\<close>

definition loaded_upto :: "layout \<Rightarrow> nat set \<Rightarrow> memory \<Rightarrow> addr \<Rightarrow> nat \<Rightarrow> machine \<Rightarrow> bool" where
  "loaded_upto L P m elf k t \<longleftrightarrow> mm_inv L (kernelPageDirectory L) t \<and> resident L t P \<and>
     unat (TotalMemory (memManData t) div PAGE_SIZE) \<le> 786424 \<and>
     (\<exists>F. F + (\<Sum>j = k ..< phnum m elf. seg_count m elf j) \<le> unat (TotalMemory (memManData t) div PAGE_SIZE) \<and>
       {F ..< F + (\<Sum>j = k ..< phnum m elf. seg_count m elf j)} \<inter> used_pages (memManData t) = {}) \<and>
     (\<forall>a. unat a div 4096 \<in> P \<and> a \<notin> rewritten m elf k \<longrightarrow> ram t a = m a) \<and>
     (\<forall>j < k. \<forall>r \<in> seg_pages m elf j. entry_present (kentry L t r) \<and>
       unat (entry_frame (kentry L t r)) \<in> used_pages (memManData t) - table_pages L - P) \<and>
     (\<forall>j < k. \<forall>i < unat (seg_size m elf j). seg_data m elf j + of_nat i \<notin> rewritten m elf (phnum m elf) \<longrightarrow>
       vload8 t (of_nat (seg_page m elf j) * 4096 + of_nat i) = Some (m (seg_data m elf j + of_nat i)))"

subsection \<open>Example states\<close>

text \<open>The first twenty bytes of an executable for the i386.\<close>

definition elf_file :: "u8 list" where
  "elf_file = [0x7F, 69, 76, 70, 1, 1, 1, 0, 0, 0, 0, 0, 0, 0, 0, 0, 2, 0, 3, 0]"

text \<open>
  A module in the page 0x280, with the entry point 0x600000 and two program headers from 52 on: four bytes of the file, from 128 on,
  for the address 0x600123, and three, from 144 on, for 0x700000.
\<close>

definition module_byte :: "nat \<Rightarrow> u8" where
  "module_byte i = (case map_of [(0, 0x7F), (1, 69), (2, 76), (3, 70), (4, 1), (5, 1), (6, 1), (16, 2), (18, 3), (26, 0x60),
     (28, 52), (42, 32), (44, 2),
     (52, 1), (56, 0x80), (60, 0x23), (61, 0x01), (62, 0x60), (68, 4),
     (84, 1), (88, 0x90), (94, 0x70), (100, 3),
     (128, 10), (129, 20), (130, 30), (131, 40), (144, 50), (145, 60), (146, 70)] i of None \<Rightarrow> 0 | Some b \<Rightarrow> b)"

definition module_machine :: machine where
  "module_machine = (let s = put_entry boot_layout 0x280 (set_entry 0 False 0x280) boot_machine in
     s\<lparr>ram := (\<lambda>a. if unat a div 4096 = 0x280 then module_byte (unat a mod 4096) else ram s a)\<rparr>)"

section \<open>Facts\<close>

subsection \<open>The header\<close>

lemma u16_bytes:
  fixes a b :: u8
  assumes "c < 256"
  shows "ucast a OR push_bit 8 (ucast b) = (of_nat c :: u16) \<longleftrightarrow> a = of_nat c \<and> b = 0"
proof
  assume eq: "ucast a OR push_bit 8 (ucast b) = (of_nat c :: u16)"
  have lo: "bit a n = bit (of_nat c :: u16) n" if "n < 8" for n
    using arg_cong [OF eq, of "\<lambda>w. bit w n"] that by (simp add: bit_simps)
  have hi: "bit b n = bit (of_nat c :: u16) (n + 8)" if "n < 8" for n
    using arg_cong [OF eq, of "\<lambda>w. bit w (n + 8)"] that bit_imp_le_length [of a "n + 8"] by (auto simp: bit_simps)
  have "\<not> bit c (n + 8)" for n
  proof -
    have "(2 :: nat) ^ 8 \<le> 2 ^ (n + 8)" by (rule power_increasing) simp_all
    then have "c div 2 ^ (n + 8) = 0" using assms by (intro div_less) simp
    then show ?thesis by (simp add: bit_iff_odd)
  qed
  then have "b = 0" using hi by (intro bit_word_eqI) (simp add: bit_simps)
  moreover have "a = of_nat c" using lo by (intro bit_word_eqI) (simp add: bit_simps)
  ultimately show "a = of_nat c \<and> b = 0" by simp
next
  assume "a = of_nat c \<and> b = 0"
  moreover have "ucast (of_nat c :: u8) = (of_nat c :: u16)"
    using assms by (simp add: word_unat_eq_iff unsigned_ucast_eq unat_of_nat take_bit_nat_eq_self)
  ultimately show "ucast a OR push_bit 8 (ucast b) = (of_nat c :: u16)" by simp
qed

lemma elf_reject_shown:
  assumes "buf \<noteq> 0" "37 \<notin> set (ascii msg)" "0 \<notin> set (ascii msg)" "length msg < 100"
  shows "elf_reject fp buf msg k = Some (False, shown buf (ascii msg @ [10]) k)"
proof -
  have "vsnprintf_loop fp k (ascii msg @ [10]) [] st = Some (put_all k (ascii msg @ [10]) st)" for k st
    using vsnprintf_loop_literal [of "ascii msg @ [10]" fp k "[]"] assms(2,3) by simp
  from kernel_printk_shown [OF this assms(1)] show ?thesis
    using assms(4) by (simp add: elf_reject_def ascii_def)
qed

text \<open>The checks as a whole, in the order of the code.\<close>

lemma verifyElfHeader_result:
  assumes "header \<noteq> 0" and "buf \<noteq> 0" and "\<forall>i < 20. vload8 (hmachine (heap k)) (header + of_nat i) = Some (bs ! i)"
  shows "verifyElfHeader fp buf header k =
    (case elf_error bs of None \<Rightarrow> Some (True, k) | Some msg \<Rightarrow> Some (False, shown buf (ascii msg @ [10]) k))"
proof -
  have b: "vload8 (hmachine (heap k)) (header + of_nat i) = Some (bs ! i)" if "i < 20" for i using assms(3) that by blast
  have bytes: "vload8 (hmachine (heap k)) header = Some (bs ! 0)" "vload8 (hmachine (heap k)) (header + 1) = Some (bs ! 1)"
    "vload8 (hmachine (heap k)) (header + 2) = Some (bs ! 2)" "vload8 (hmachine (heap k)) (header + 3) = Some (bs ! 3)"
    "vload8 (hmachine (heap k)) (header + 4) = Some (bs ! 4)" "vload8 (hmachine (heap k)) (header + 5) = Some (bs ! 5)"
    "vload8 (hmachine (heap k)) (header + 6) = Some (bs ! 6)"
    using b [of 0] b [of 1] b [of 2] b [of 3] b [of 4] b [of 5] b [of 6] by simp_all
  have w: "vload16 (hmachine (heap k)) (header + 16) = Some (ucast (bs ! 16) OR push_bit 8 (ucast (bs ! 17)))"
    "vload16 (hmachine (heap k)) (header + 18) = Some (ucast (bs ! 18) OR push_bit 8 (ucast (bs ! 19)))"
    using b [of 16] b [of 17] b [of 18] b [of 19] by (simp_all add: vload16_def add.assoc)
  have eqs: "ucast a OR push_bit 8 (ucast c) = (1 :: u16) \<longleftrightarrow> a = 1 \<and> c = 0"
      "ucast a OR push_bit 8 (ucast c) = (2 :: u16) \<longleftrightarrow> a = 2 \<and> c = 0"
      "ucast a OR push_bit 8 (ucast c) = (3 :: u16) \<longleftrightarrow> a = 3 \<and> c = 0" for a c :: u8
    using u16_bytes [of 1 a c] u16_bytes [of 2 a c] u16_bytes [of 3 a c] by simp_all
  show ?thesis
    using assms(1,2)
    by (simp add: verifyElfHeader_def Let_def bytes w eqs elf_error_def elf_checks_def elf_reject_shown ascii_def) blast
qed

lemma demo_bytes:
  assumes "length cs < 100" "i < length cs"
  shows "vload8 (hmachine (heap (demo_kernel cs))) (0x5000 + of_nat i) = Some (cs ! i)"
proof -
  have "unat (0x5000 + of_nat i :: u32) = 0x5000 + i" using assms by (simp add: unat_word_ariths unat_of_nat32)
  then show ?thesis using assms by (simp add: vload8_def xlate_def demo_kernel_def)
qed

subsection \<open>One segment\<close>

lemma resident_xlate:
  assumes "kspace L s" "entry_present (kentry L s (unat a div 4096))" "entry_frame (kentry L s (unat a div 4096)) = of_nat (unat a div 4096)"
    "unat a div 4096 < 262144"
  shows "xlate s a = Some a"
proof -
  have "unat a < 0x40000000" using assms(4) by simp
  moreover have "of_nat (unat a div 4096) * 4096 OR (a AND 0xFFF) = a"
  proof -
    have "of_nat (unat a div 4096) = drop_bit 12 a"
      by (metis of_nat_unat ucast_id unat_drop_12)
    then have "of_nat (unat a div 4096) * 4096 = push_bit 12 (drop_bit 12 a)" by (simp add: push_bit_12)
    moreover have "a AND 0xFFF = take_bit 12 a" by (simp add: take_bit_eq_mask mask_eq_exp_minus_1)
    moreover have "push_bit 12 (drop_bit 12 a) OR take_bit 12 a = a" by (rule bit_word_eqI) (auto simp: bit_simps)
    ultimately show ?thesis by simp
  qed
  ultimately show ?thesis using xlate_kernel [OF assms(1)] assms(2,3) by simp
qed

lemma segment_size:
  assumes "0 < (n :: u16)"
  shows "unat (ucast n :: u32) = unat n" "0 < (ucast n :: u32)" "(ucast n :: u32) \<le> 0x40000000"
proof -
  have n: "unat n < 65536" using unsigned_less [of n, where ?'a = nat] by simp
  then show u: "unat (ucast n :: u32) = unat n" by (simp add: unsigned_ucast_eq take_bit_nat_eq_self)
  show "0 < (ucast n :: u32)" "(ucast n :: u32) \<le> 0x40000000"
    using assms n u by (simp_all add: word_less_nat_alt word_le_nat_alt)
qed

lemma page_start:
  fixes v :: u32
  shows "unat (v - v mod 4096) = unat v div 4096 * 4096" "v - v mod 4096 = of_nat (unat v div 4096) * 4096"
proof -
  have "unat (v - v mod 4096) = unat v - unat v mod 4096" by (simp add: unat_sub unat_mod word_le_nat_alt)
  also have "\<dots> = unat v div 4096 * 4096" by (simp add: minus_mod_eq_div_mult)
  finally show u: "unat (v - v mod 4096) = unat v div 4096 * 4096" .
  then have "v - v mod 4096 = of_nat (unat v div 4096 * 4096)" by (metis of_nat_unat ucast_id)
  then show "v - v mod 4096 = of_nat (unat v div 4096) * 4096" by simp
qed

lemma resident_self:
  assumes "kspace L s" "resident L s P" "unat a div 4096 \<in> P"
  shows "xlate s a = Some a"
  using assms by (intro resident_xlate) (auto simp: resident_def)

lemma vmemcpy_resident:
  assumes inv: "kspace L s" and q: "q + n \<le> 262144" and fr: "unat fr + n \<le> 1048576"
    and map: "\<forall>k < n. entry_present (kentry L s (q + k)) \<and> entry_frame (kentry L s (q + k)) = fr + of_nat k"
    and F: "F = {unat fr ..< unat fr + n}" "F \<inter> table_pages L = {}" "unat (cr3_reg s) div 4096 \<notin> F"
    and src: "\<forall>i < unat sz. unat (src + of_nat i) div 4096 < 262144 \<and> unat (src + of_nat i) div 4096 \<notin> F \<and>
       entry_present (kentry L s (unat (src + of_nat i) div 4096)) \<and>
       entry_frame (kentry L s (unat (src + of_nat i) div 4096)) = of_nat (unat (src + of_nat i) div 4096)"
    and sz: "unat sz \<le> n * 4096"
  shows "\<exists>s'. vmemcpy (of_nat q * 4096) src sz s = Some s' \<and> frames_differ L F s s' \<and>
    (\<forall>i < unat sz. vload8 s' (of_nat q * 4096 + of_nat i) = Some (ram s (src + of_nat i)))"
proof -
  have L: "layout_ok L" using inv by (simp add: kspace_def)
  have ke: "kentry L t r = kentry L s r" if "frames_differ L F s t" "r < 262144" for t r
    by (rule kentry_frames [OF L that])
  have K: "kspace L t" if "frames_differ L F s t" for t by (rule kspace_frames [OF inv that F(3)])
  have xd: "xlate t (of_nat q * 4096 + of_nat i) = Some (fr * 4096 + of_nat i)" if "frames_differ L F s t" "i < n * 4096" for t i
    using map q ke [OF that(1)] by (intro xlate_range [OF K [OF that(1)] q that(2)]) simp
  have xs: "xlate t (src + of_nat i) = Some (src + of_nat i)" if "frames_differ L F s t" "i < unat sz" for t i
    using src that(2) ke [OF that(1)] by (intro resident_xlate [OF K [OF that(1)]]) simp_all
  have dst: "unat (fr * 4096 + of_nat i) = unat fr * 4096 + i" "unat (fr * 4096 + of_nat i) div 4096 \<in> F" if "i < n * 4096" for i
    using unat_frame_byte [OF fr that] that by (simp_all add: F(1))
  have "\<exists>s'. vmemcpy (of_nat q * 4096) src sz s = Some s' \<and> (frames_differ L F s s' \<and> (\<forall>i < unat sz. ram s' (fr * 4096 + of_nat i) = ram s (src + of_nat i)))"
    unfolding vmemcpy_def
  proof (rule for_rangeM_inv [where P = "\<lambda>m t. frames_differ L F s t \<and> (\<forall>i < m. ram t (fr * 4096 + of_nat i) = ram s (src + of_nat i))"])
    show "frames_differ L F s s \<and> (\<forall>i < 0. ram s (fr * 4096 + of_nat i) = ram s (src + of_nat i))"
      using F(2) by (simp add: frames_differ_def)
  next
    fix m t assume m: "m < unat sz" and P: "frames_differ L F s t \<and> (\<forall>i < m. ram t (fr * 4096 + of_nat i) = ram s (src + of_nat i))"
    have mn: "m < n * 4096" using m sz by simp
    have same: "ram t (src + of_nat m) = ram s (src + of_nat m)" using P src m by (simp add: frames_differ_def)
    let ?t = "t\<lparr>ram := (ram t)(fr * 4096 + of_nat m := ram s (src + of_nat m))\<rparr>"
    have "frames_differ L F s ?t" using P dst(2) [OF mn] by (auto simp: frames_differ_def)
    moreover have "ram ?t (fr * 4096 + of_nat i) = ram s (src + of_nat i)" if "i < Suc m" for i
      using P that dst(1) [of i] dst(1) [OF mn] mn by (auto simp: less_Suc_eq)
    ultimately show "\<exists>s'. (do { b \<leftarrow> vload8 t (src + of_nat m); vstore8 (of_nat q * 4096 + of_nat m) b t }) = Some s' \<and>
        frames_differ L F s s' \<and> (\<forall>i < Suc m. ram s' (fr * 4096 + of_nat i) = ram s (src + of_nat i))"
      using xs [OF _ m] xd [OF _ mn] P same by (simp add: vload8_def vstore8_def)
  qed
  then show ?thesis using xd sz by (auto simp: vload8_def)
qed

lemma store32_resident:
  assumes "f = unat a div 4096" "unat a mod 4 = 0" "f \<notin> table_pages L"
  shows "frames_differ L {f} s (s\<lparr>ram := store32 (ram s) a w\<rparr>)"
proof -
  define o4 where "o4 = (of_nat (unat a mod 4096) :: u32)"
  have o4: "unat o4 = unat a mod 4096" by (simp add: o4_def unat_of_nat take_bit_nat_eq_self)
  have "unat a mod 4096 mod 4 = 0" using assms(2) by (simp add: mod_mod_cancel)
  then obtain j where "unat a mod 4096 = 4 * j" by auto
  then have "unat o4 \<le> 4092" using o4 mod_less_divisor [of 4096 "unat a"] by simp
  moreover have "a = of_nat (f * 4096 + unat a mod 4096)" unfolding assms(1) by (metis div_mult_mod_eq of_nat_unat ucast_id)
  then have "of_nat f * 4096 + o4 = a" by (simp add: o4_def)
  moreover have "f < 1048576" using unsigned_less [of a, where ?'a = nat] by (simp add: assms(1))
  ultimately show ?thesis using store32_frame [of f L o4 s w] assms(3) by simp
qed

lemma resident_frames:
  assumes "mm_inv L (kernelPageDirectory L) s" "resident L s P" "frames_differ L F s s'"
  shows "resident L s' P"
proof -
  have L: "layout_ok L" using assms(1) by (simp add: mm_inv_def kspace_def)
  then show ?thesis
    using assms(2,3) kentry_frames [OF L assms(3)] mm_inv_directory_page(1) [OF assms(1)]
    by (auto simp: resident_def frames_differ_def)
qed

lemma load32_page_cong:
  assumes "unat a mod 4 = 0" "\<And>b. unat b div 4096 = unat a div 4096 \<Longrightarrow> m b = m' b"
  shows "load32 m a = load32 m' a"
proof (rule load32_cong)
  fix j :: u32 assume j: "j < 4"
  obtain k where k: "unat a = 4 * k" using assms(1) by auto
  have "unat j < 4" using j by (simp add: word_less_nat_alt)
  then have "(4 * k + unat j) div 4 div 1024 = 4 * k div 4 div 1024" by simp
  then have "(4 * k + unat j) div 4096 = 4 * k div 4096" by (simp only: div_mult2_eq [symmetric]) simp
  then have "unat (a + j) div 4096 = unat a div 4096" using aligned4_offset [OF assms(1) j] k by simp
  then show "m (a + j) = m' (a + j)" by (rule assms(2))
qed

lemma resident_not_table: "resident L s P \<Longrightarrow> unat a div 4096 \<in> P \<Longrightarrow> unat a div 4096 \<notin> table_pages L"
  by (auto simp: resident_def)

lemma mm_inv_frames:
  assumes inv: "mm_inv L pd s" and fd: "frames_differ L F s s'" and F: "unat (cr3_reg s) div 4096 \<notin> F"
    "unat (kentry L s (unat pd div 4096)) div 4096 \<notin> F"
  shows "mm_inv L pd s'"
proof -
  have K: "kspace L s" "pd_ok L s pd" "layout_ok L" using inv by (auto simp: mm_inv_def kspace_def)
  have "kentry L s' (unat pd div 4096) = kentry L s (unat pd div 4096)"
    by (rule kentry_frames [OF K(3) fd mm_inv_directory_page(1) [OF inv]])
  then show ?thesis
    using inv kspace_frames [OF K(1) fd F(1)] pd_ok_frames [OF K(3,2) fd F(2)] fd by (simp add: mm_inv_def frames_differ_def)
qed

text \<open>The header's address field is rewritten in place; the address space stays as it is.\<close>

lemma rewrite_header:
  assumes inv: "mm_inv L (kernelPageDirectory L) s" and P: "resident L s P" and a: "unat a div 4096 \<in> P" "unat a mod 4 = 0"
    and s1_def: "s1 = s\<lparr>ram := store32 (ram s) a w\<rparr>"
  shows "vstore32 a w s = Some s1" "mm_inv L (kernelPageDirectory L) s1" "resident L s1 P"
proof -
  let ?pd = "kernelPageDirectory L" and ?f = "unat a div 4096"
  have K: "kspace L s" using inv by (simp add: mm_inv_def)
  show "vstore32 a w s = Some s1" using resident_self [OF K P a(1)] by (simp add: vstore32_def s1_def)
  have f: "?f \<notin> table_pages L" "?f \<noteq> unat (cr3_reg s) div 4096" "?f \<noteq> unat (kentry L s (unat ?pd div 4096)) div 4096"
    using P a(1) unfolding resident_def by blast+
  have fd: "frames_differ L {?f} s s1" unfolding s1_def by (rule store32_resident [OF refl a(2) f(1)])
  show "mm_inv L ?pd s1" using mm_inv_frames [OF inv fd] f(2,3) by simp
  show "resident L s1 P" by (rule resident_frames [OF inv P fd])
qed

lemma memoryMap_segment:
  assumes inv: "mm_inv L (kernelPageDirectory L) s"
    and v0: "unat v0 = q * 4096" and tgt: "q + unat (num_pages sz) \<le> 262144"
      "{q ..< q + unat (num_pages sz)} \<inter> reserved_pages L = {}"
    and mem: "physicalAllocate (num_pages sz) (memManData s) = Some (pa, d)" "pa \<noteq> 0"
      "unat (TotalMemory (memManData s) div PAGE_SIZE) + unat (num_pages sz) \<le> 1048568"
  shows "\<exists>f s'. memoryMap (kernelPageDirectory L) v0 sz False s = Some s' \<and>
    segment_mapped L q (unat (num_pages sz)) f s s'"
proof -
  let ?pd = "kernelPageDirectory L"
  define np where "np = num_pages sz"
  obtain f where f: "first_fit (used_pages (memManData s)) (unat (TotalMemory (memManData s) div PAGE_SIZE)) (unat np) f"
      "unat pa = f * 4096" "f + unat np \<le> NPAGES" "range_set f (unat np) True (memManData s) d"
    using mem(2) by (rule_tac phys_alloc_cases [OF mem(3,1)]) (auto simp: np_def)
  define t where "t = s\<lparr>memManData := d\<rparr>"
  have reg: "ram t = ram s" "cr3_reg t = cr3_reg s" "paging t = paging s" "memManData t = d" by (simp_all add: t_def)
  note irr = regs_irrelevant [OF reg(1-3)]
  have Kt: "kspace L t" "pd_ok L t ?pd" using inv irr by (simp_all add: mm_inv_def)
  have pre: "unat v0 mod 4096 = 0" "unat v0 div 4096 + unat np \<le> 262144" "unat pa div 4096 + unat np \<le> 1048576"
    "\<forall>p \<in> {unat v0 div 4096 ..< unat v0 div 4096 + unat np}. p \<notin> reserved_pages L \<and> p \<noteq> unat ?pd div 4096"
    using v0 tgt f(2,3) by (auto simp: np_def reserved_pages_def)
  have "MAP_FUEL = Suc 7" by (simp add: MAP_FUEL_def)
  then obtain s' where s': "VirtualMap MAP_FUEL ?pd v0 pa np False t = Some s'" "kspace L s'" "pd_ok L s' ?pd"
      "mapped L q (unat np) (drop_bit 12 pa) False t s'"
    using VirtualMap_kernel [OF Kt pre, of 7 False] v0 by auto
  have fr: "unat (drop_bit 12 pa) = f" "drop_bit 12 pa = of_nat f"
    using f(2) by (simp add: unat_drop_12) (metis f(2) nonzero_mult_div_cancel_right of_nat_unat ucast_id unat_drop_12 zero_neq_numeral)
  have other: "memManData s' = d" "cr3_reg s' = cr3_reg s" "\<forall>a. unat a div 4096 \<notin> table_pages L \<longrightarrow> ram s' a = ram s a"
    "\<forall>r < 262144. r \<notin> {q ..< q + unat np} \<longrightarrow> kentry L s' r = kentry L s r"
    using s'(4) reg irr(3) by (auto simp: mapped_def)
  have entries: "\<forall>k < unat np. entry_present (kentry L s' (q + k)) \<and> entry_frame (kentry L s' (q + k)) = of_nat f + of_nat k"
    using mapped_entries [OF s'(4)] tgt(1) fr f(3) by (simp add: np_def)
  have "segment_mapped L q (unat np) f s s'"
    unfolding segment_mapped_def using s'(2,3) f(1,3,4) other entries by (auto simp: range_set_def)
  moreover have "memoryMap ?pd v0 sz False s = Some s'" using mem(1) s'(1) by (simp add: memoryMap_def np_def t_def)
  ultimately show ?thesis unfolding np_def by blast
qed

lemma segment_mapped_keeps:
  assumes inv: "mm_inv L (kernelPageDirectory L) s" and P: "resident L s P" and seg: "segment_mapped L q n f s s'"
    and tgt: "{q ..< q + n} \<inter> (P \<union> reserved_pages L) = {}"
  shows "mm_inv L (kernelPageDirectory L) s'" "resident L s' P"
proof -
  let ?p = "unat (kernelPageDirectory L) div 4096"
  have "?p \<in> reserved_pages L" by (simp add: reserved_pages_def)
  then have "?p \<notin> {q ..< q + n}" using tgt by blast
  then have pd: "kentry L s' ?p = kentry L s ?p" using seg mm_inv_directory_page(1) [OF inv] unfolding segment_mapped_def by blast
  have S: "kspace L s'" "pd_ok L s' (kernelPageDirectory L)" "cr3_reg s' = cr3_reg s" "used_pages (memManData s) \<subseteq> used_pages (memManData s')"
    using seg by (auto simp: segment_mapped_def)
  then show "mm_inv L (kernelPageDirectory L) s'" using inv pd unfolding mm_inv_def by auto
  have "kentry L s' p = kentry L s p" if "p \<in> P" for p
  proof -
    have "p \<notin> {q ..< q + n}" using tgt that by blast
    moreover have "p < 262144" using P that by (simp add: resident_def)
    ultimately show ?thesis using seg unfolding segment_mapped_def by blast
  qed
  then show "resident L s' P" using P S(3,4) pd unfolding resident_def by auto
qed

lemma vmemcpy_segment:
  assumes inv: "mm_inv L (kernelPageDirectory L) s" and P: "resident L s P" and seg: "segment_mapped L q n f s s2"
    and tgt: "{q ..< q + n} \<inter> (P \<union> reserved_pages L) = {}" "q + n \<le> 262144"
    and src: "\<forall>i < unat sz. unat (src + of_nat i) div 4096 \<in> P" and sz: "unat sz \<le> n * 4096"
  shows "\<exists>s'. vmemcpy (of_nat q * 4096) src sz s2 = Some s' \<and> frames_differ L {f ..< f + n} s2 s' \<and>
    (\<forall>i < unat sz. vload8 s' (of_nat q * 4096 + of_nat i) = Some (ram s (src + of_nat i)))"
proof -
  note P2 = segment_mapped_keeps(2) [OF inv P seg tgt(1)]
  have f: "unat (of_nat f :: u32) = f" using seg by (intro unat_of_nat32) (simp add: segment_mapped_def)
  have new: "{f ..< f + n} \<inter> used_pages (memManData s) = {}" using seg by (simp add: segment_mapped_def first_fit_def)
  have F: "{f ..< f + n} \<inter> table_pages L = {}" "unat (cr3_reg s2) div 4096 \<notin> {f ..< f + n}" "\<And>p. p \<in> P \<Longrightarrow> p \<notin> {f ..< f + n}"
    using seg inv P new by (auto simp: segment_mapped_def mm_inv_def resident_def)
  have "kspace L s2" "unat (of_nat f :: u32) + n \<le> 1048576"
    "\<forall>k < n. entry_present (kentry L s2 (q + k)) \<and> entry_frame (kentry L s2 (q + k)) = of_nat f + of_nat k"
    using seg f by (simp_all add: segment_mapped_def)
  moreover have "\<forall>i < unat sz. unat (src + of_nat i) div 4096 < 262144 \<and> unat (src + of_nat i) div 4096 \<notin> {f ..< f + n} \<and>
       entry_present (kentry L s2 (unat (src + of_nat i) div 4096)) \<and>
       entry_frame (kentry L s2 (unat (src + of_nat i) div 4096)) = of_nat (unat (src + of_nat i) div 4096)"
    using src P2 F(3) unfolding resident_def by blast
  ultimately obtain s' where s': "vmemcpy (of_nat q * 4096) src sz s2 = Some s'" "frames_differ L {f ..< f + n} s2 s'"
      "\<forall>i < unat sz. vload8 s' (of_nat q * 4096 + of_nat i) = Some (ram s2 (src + of_nat i))"
    using vmemcpy_resident [OF _ tgt(2), of L s2 "of_nat f" "{f ..< f + n}" sz src] F(1,2) sz f by auto
  moreover have "ram s2 (src + of_nat i) = ram s (src + of_nat i)" if "i < unat sz" for i
    using seg src that resident_not_table [OF P, of "src + of_nat i"] unfolding segment_mapped_def by blast
  ultimately show ?thesis by auto
qed

text \<open>The fields of the program header after the header was rewritten and the pages were mapped.\<close>

lemma header_loads:
  assumes inv: "mm_inv L (kernelPageDirectory L) s" and P: "resident L s P"
    and pages: "unat (ph + 4) div 4096 \<in> P" "unat (ph + 8) div 4096 \<in> P" "unat (ph + 16) div 4096 \<in> P" "unat (ph + 17) div 4096 \<in> P"
    and al: "unat (ph + 4) mod 4 = 0" "unat (ph + 8) mod 4 = 0"
    and seg: "vload32 s (ph + 4) = Some off" "vload16 s (ph + 16) = Some n"
    and s1: "kspace L s1" "resident L s1 P" and s2: "kspace L s2" "resident L s2 P" "segment_mapped L q m f s1 s2"
    and s1_def: "s1 = s\<lparr>ram := store32 (ram s) (ph + 8) v0\<rparr>"
  shows "vload16 s1 (ph + 16) = Some n" "vload32 s1 (ph + 8) = Some v0" "vload32 s2 (ph + 4) = Some off"
    "vload32 s2 (ph + 8) = Some v0" "vload16 s2 (ph + 16) = Some n"
proof -
  have "kspace L s" using inv by (simp add: mm_inv_def)
  note self = resident_self [OF this P] resident_self [OF s1] resident_self [OF s2(1,2)]
  have at2: "ram s2 a = ram s1 a" if "unat a div 4096 \<in> P" for a
    using s2(3) resident_not_table [OF P that] unfolding segment_mapped_def by blast
  have words: "load32 (ram s2) a = load32 (ram s1) a" if "unat a mod 4 = 0" "unat a div 4096 \<in> P" for a
    using at2 that by (intro load32_page_cong) simp_all
  have "ph + 4 \<noteq> ph + 8" by simp
  then have off: "load32 (ram s1) (ph + 4) = off" using seg(1) self(1) [OF pages(1)] al by (simp add: vload32_def s1_def)
  have addr: "load32 (ram s1) (ph + 8) = v0" by (simp add: s1_def)
  have bytes: "ram s1 (ph + 16) = ram s (ph + 16)" "ram s1 (ph + 17) = ram s (ph + 17)"
    by (simp_all add: s1_def store32_apply add.assoc)
  have "ucast (ram s (ph + 16)) OR push_bit 8 (ucast (ram s (ph + 17))) = n"
    using seg(2) self(1) [OF pages(3)] self(1) [OF pages(4)] by (simp add: vload16_def vload8_def add.assoc)
  then show "vload16 s1 (ph + 16) = Some n" "vload16 s2 (ph + 16) = Some n"
    using self(2,3) at2 pages bytes by (simp_all add: vload16_def vload8_def add.assoc)
  show "vload32 s1 (ph + 8) = Some v0" "vload32 s2 (ph + 4) = Some off" "vload32 s2 (ph + 8) = Some v0"
    using self(2,3) pages words al off addr by (simp_all add: vload32_def)
qed

lemma segment_copied:
  assumes inv: "mm_inv L (kernelPageDirectory L) s1" and P: "resident L s1 P" and seg: "segment_mapped L q n f s1 s2"
    and tgt: "{q ..< q + n} \<inter> (P \<union> reserved_pages L) = {}" "q + n \<le> 262144"
    and fd: "frames_differ L {f ..< f + n} s2 s'" and s: "memManData s = memManData s1" "cr3_reg s = cr3_reg s1" "\<And>r. r < 262144 \<Longrightarrow> kentry L s1 r = kentry L s r"
  shows "segment_loaded L P q n f (ram s1) s s'"
proof -
  let ?p = "unat (kernelPageDirectory L) div 4096"
  note k2 = segment_mapped_keeps [OF inv P seg tgt(1)]
  have L: "layout_ok L" using inv by (simp add: mm_inv_def kspace_def)
  have new: "{f ..< f + n} \<inter> used_pages (memManData s1) = {}" using seg by (simp add: segment_mapped_def first_fit_def)
  have ke: "kentry L s' r = kentry L s2 r" if "r < 262144" for r by (rule kentry_frames [OF L fd that])
  have "?p \<in> reserved_pages L" by (simp add: reserved_pages_def)
  then have "?p \<notin> {q ..< q + n}" using tgt by blast
  then have "kentry L s2 ?p = kentry L s1 ?p" using seg mm_inv_directory_page(1) [OF inv] unfolding segment_mapped_def by blast
  then have "unat (cr3_reg s2) div 4096 \<notin> {f ..< f + n}" "unat (kentry L s2 ?p) div 4096 \<notin> {f ..< f + n}"
    using inv new seg by (auto simp: mm_inv_def segment_mapped_def)
  then have "mm_inv L (kernelPageDirectory L) s'" by (rule mm_inv_frames [OF k2(1) fd])
  moreover have "resident L s' P" by (rule resident_frames [OF k2 fd])
  moreover have "ram s' a = ram s1 a" if "unat a div 4096 \<in> used_pages (memManData s1) - table_pages L" for a
  proof -
    have "unat a div 4096 \<notin> {f ..< f + n}" "unat a div 4096 \<notin> table_pages L" using that new by blast+
    then show ?thesis using fd seg unfolding frames_differ_def segment_mapped_def by metis
  qed
  moreover have "entry_present (kentry L s' (q + k)) \<and> entry_frame (kentry L s' (q + k)) = of_nat f + of_nat k" if "k < n" for k
    using seg ke [of "q + k"] tgt(2) that by (simp add: segment_mapped_def)
  moreover have "kentry L s' r = kentry L s r" if "r < 262144" "r \<notin> {q ..< q + n}" for r
    using seg ke [OF that(1)] s(3) [OF that(1)] that unfolding segment_mapped_def by metis
  ultimately show ?thesis
    using seg fd s(1,2) unfolding segment_loaded_def by (simp add: segment_mapped_def frames_differ_def)
qed

lemma load_segment_turn:
  assumes inv: "mm_inv L (kernelPageDirectory L) s" and P: "resident L s P"
    and hdr: "vload32 s (elf + 28) = Some phoff" "vload16 s (elf + 42) = Some phentsize"
    and ph: "ph = elf + phoff + ucast phentsize * sec" "unat ph mod 4 = 0"
      "{unat (ph + 4) div 4096, unat (ph + 8) div 4096, unat (ph + 16) div 4096, unat (ph + 17) div 4096} \<subseteq> P"
    and seg: "vload32 s (ph + 4) = Some off" "vload32 s (ph + 8) = Some v" "vload16 s (ph + 16) = Some n" "0 < n"
    and target: "unat v div 4096 + unat (num_pages (ucast n)) \<le> 262144"
      "{unat v div 4096 ..< unat v div 4096 + unat (num_pages (ucast n))} \<inter> (P \<union> reserved_pages L) = {}"
    and data: "\<forall>i < unat n. unat (elf + off + of_nat i) div 4096 \<in> P"
    and mem: "physicalAllocate (num_pages (ucast n)) (memManData s) = Some (pa, d)" "pa \<noteq> 0"
      "unat (TotalMemory (memManData s) div PAGE_SIZE) + unat (num_pages (ucast n)) \<le> 1048568"
    and m: "m = store32 (ram s) (ph + 8) (v - v mod PAGE_SIZE)"
  shows "\<exists>f s'. load_segment (kernelPageDirectory L) elf sec s = Some s' \<and>
    segment_loaded L P (unat v div 4096) (unat (num_pages (ucast n))) f m s s' \<and>
    (\<forall>i < unat n. vload8 s' (v - v mod PAGE_SIZE + of_nat i) = Some (m (elf + off + of_nat i)))"
proof -
  let ?pd = "kernelPageDirectory L" and ?sz = "ucast n :: u32" and ?n = "unat (num_pages (ucast n))"
  define q v0 where "q = unat v div 4096" and "v0 = v - v mod PAGE_SIZE"
  note sz = segment_size [OF seg(4)]
  have v0: "unat v0 = q * 4096" "v0 = of_nat q * 4096" using page_start [of v] by (simp_all add: v0_def q_def)
  have pages: "unat (ph + 4) div 4096 \<in> P" "unat (ph + 8) div 4096 \<in> P" "unat (ph + 16) div 4096 \<in> P" "unat (ph + 17) div 4096 \<in> P"
    using ph(3) by simp_all
  have al: "unat (ph + 4) mod 4 = 0" "unat (ph + 8) mod 4 = 0"
    using ph(2) by (simp_all add: unat_word_ariths mod_eq_0_iff_dvd dvd_mod)
  define s1 where "s1 = s\<lparr>ram := store32 (ram s) (ph + 8) v0\<rparr>"
  note s1 = rewrite_header [OF inv P pages(2) al(2) s1_def]
  have d1: "memManData s1 = memManData s" "ram s1 = m" "cr3_reg s = cr3_reg s1" by (simp_all add: s1_def m v0_def)
  have tgt: "{q ..< q + ?n} \<inter> (P \<union> reserved_pages L) = {}" "q + ?n \<le> 262144" using target by (simp_all add: q_def)
  obtain f s2 where s2: "memoryMap ?pd v0 ?sz False s1 = Some s2" "segment_mapped L q ?n f s1 s2"
    using memoryMap_segment [OF s1(2) v0(1), of ?sz pa d] tgt mem d1(1) by auto
  note k2 = segment_mapped_keeps [OF s1(2,3) s2(2) tgt(1)]
  obtain s' where s': "vmemcpy v0 (elf + off) ?sz s2 = Some s'" "frames_differ L {f ..< f + ?n} s2 s'"
      "\<forall>i < unat n. vload8 s' (v0 + of_nat i) = Some (m (elf + off + of_nat i))"
    using vmemcpy_segment [OF s1(2,3) s2(2) tgt, of ?sz "elf + off"] data num_pages_bounds(2) [OF sz(2,3)] d1 sz(1) unfolding v0(2) by auto
  have K: "kspace L s1" "kspace L s2" "layout_ok L" using s1(2) k2(1) by (auto simp: mm_inv_def kspace_def)
  have ke1: "kentry L s1 r = kentry L s r" if "r < 262144" for r
    using kentry_frames [OF K(3) store32_resident [OF refl al(2) resident_not_table [OF P pages(2)]] that] by (simp add: s1_def)
  have "vload16 s1 (ph + 16) = Some n" "vload32 s1 (ph + 8) = Some v0" "vload32 s2 (ph + 4) = Some off"
      "vload32 s2 (ph + 8) = Some v0" "vload16 s2 (ph + 16) = Some n"
    using header_loads [OF inv P pages al seg(1,3) K(1) s1(3) K(2) k2(2) s2(2) s1_def] by simp_all
  then have "load_segment ?pd elf sec s = Some s'"
    using hdr seg(2) s1(1) s2(1) s'(1) by (simp add: load_segment_def ph(1) [symmetric] flip: v0_def)
  moreover have "segment_loaded L P q ?n f m s s'"
    using segment_copied [OF s1(2,3) s2(2) tgt s'(2) d1(1) [symmetric] d1(3) ke1] by (simp add: d1(2))
  ultimately show ?thesis using s'(3) unfolding q_def v0_def by blast
qed

subsection \<open>All segments\<close>

lemma loadableD:
  assumes "loadable L P m elf"
  shows "unat elf mod 4 = 0" "unat (load32 m (elf + 28)) mod 4 = 0" "unat (load16 m (elf + 42)) mod 4 = 0"
    "52 \<le> unat (load32 m (elf + 28))" "32 \<le> unat (load16 m (elf + 42))"
    "unat elf + unat (load32 m (elf + 28)) + unat (load16 m (elf + 42)) * phnum m elf < 2 ^ 32"
    "i < 52 \<Longrightarrow> unat (elf + of_nat i) div 4096 \<in> P"
    "j < phnum m elf \<Longrightarrow> i < 32 \<Longrightarrow> unat (phdr m elf j + of_nat i) div 4096 \<in> P"
    "j < phnum m elf \<Longrightarrow> 0 < seg_size m elf j"
    "j < phnum m elf \<Longrightarrow> i < unat (seg_size m elf j) \<Longrightarrow> unat (seg_data m elf j + of_nat i) div 4096 \<in> P"
    "j < phnum m elf \<Longrightarrow> seg_page m elf j + seg_count m elf j \<le> 262144"
    "j < phnum m elf \<Longrightarrow> seg_pages m elf j \<inter> (P \<union> reserved_pages L) = {}"
    "j < phnum m elf \<Longrightarrow> i < j \<Longrightarrow> seg_pages m elf i \<inter> seg_pages m elf j = {}"
  using assms unfolding loadable_def Let_def by blast+

lemma unat_phdr:
  assumes "loadable L P m elf" "j < phnum m elf" "i < 32"
  shows "unat (phdr m elf j + of_nat i) = unat elf + unat (load32 m (elf + 28)) + unat (load16 m (elf + 42)) * j + i"
proof -
  note D = loadableD [OF assms(1)]
  have z: "unat (ucast (load16 m (elf + 42)) :: u32) = unat (load16 m (elf + 42))" using D(5) by (intro segment_size) (simp add: word_less_nat_alt)
  have "unat (load16 m (elf + 42)) * Suc j \<le> unat (load16 m (elf + 42)) * phnum m elf"
    using assms(2) by (intro mult_le_mono2) simp
  then have b: "unat elf + unat (load32 m (elf + 28)) + unat (load16 m (elf + 42)) * j + i < 4294967296"
    using D(5,6) assms(3) by simp
  have "j < 65536" using assms(2) unsigned_less [of "load16 m (elf + 44)", where ?'a = nat] by (simp add: phnum_def)
  then have "unat (of_nat j :: u32) = j" "unat (of_nat i :: u32) = i" using assms(3) by (simp_all add: unat_of_nat32)
  moreover have "phdr m elf j + of_nat i = of_nat (unat elf + unat (load32 m (elf + 28)) + unat (load16 m (elf + 42)) * j + i)"
    using z unfolding phdr_def by (simp add: of_nat_unat)
  ultimately show ?thesis using unat_of_nat32 [of "unat elf + unat (load32 m (elf + 28)) + unat (load16 m (elf + 42)) * j + i"] b by simp
qed

lemma phdr_inj:
  assumes "loadable L P m elf" "j < phnum m elf" "i < 32" "j' < phnum m elf" "i' < 32"
    "phdr m elf j + of_nat i = phdr m elf j' + of_nat i'"
  shows "j = j' \<and> i = i'"
proof -
  define Z where "Z = unat (load16 m (elf + 42))"
  have Z: "i < Z" "i' < Z" using loadableD(5) [OF assms(1)] assms(3,5) by (simp_all add: Z_def)
  have "Z * j + i = Z * j' + i'" using unat_phdr [OF assms(1-3)] unat_phdr [OF assms(1,4,5)] assms(6) by (simp add: Z_def)
  then have "(Z * j + i) div Z = (Z * j' + i') div Z" "(Z * j + i) mod Z = (Z * j' + i') mod Z" by simp_all
  then show ?thesis using Z by simp
qed

lemma rewritten_mono: "k \<le> k' \<Longrightarrow> rewritten m elf k \<subseteq> rewritten m elf k'"
  by (force simp: rewritten_def)

lemma header_field_kept:
  assumes "loadable L P m elf" "k \<le> phnum m elf"
  shows "i < 52 \<Longrightarrow> elf + of_nat i \<notin> rewritten m elf k"
    "k \<le> j \<Longrightarrow> j < phnum m elf \<Longrightarrow> i < 32 \<Longrightarrow> phdr m elf j + of_nat i \<notin> rewritten m elf k"
proof -
  show "elf + of_nat i \<notin> rewritten m elf k" if "i < 52"
  proof
    assume "elf + of_nat i \<in> rewritten m elf k"
    then obtain j l where j: "j < k" "l < 12" "elf + of_nat i = phdr m elf j + of_nat l" unfolding rewritten_def by blast
    have "unat elf + i < 4294967296" using that loadableD(4,6) [OF assms(1)] by simp
    then have "unat (elf + of_nat i) = unat elf + i" by (simp add: unat_word_ariths unat_of_nat32 that)
    moreover have "unat elf + 52 \<le> unat (phdr m elf j + of_nat l)"
      using unat_phdr [OF assms(1), of j l] loadableD(4) [OF assms(1)] j(1,2) assms(2) by simp
    ultimately show False using j(3) that by simp
  qed
  show "phdr m elf j + of_nat i \<notin> rewritten m elf k" if "k \<le> j" "j < phnum m elf" "i < 32"
  proof
    assume "phdr m elf j + of_nat i \<in> rewritten m elf k"
    then obtain j' l where j': "j' < k" "l < 12" "phdr m elf j + of_nat i = phdr m elf j' + of_nat l" unfolding rewritten_def by blast
    then show False using phdr_inj [OF assms(1) that(2,3), of j' l] that(1) assms(2) by simp
  qed
qed

lemma load32_bytewise:
  assumes "\<And>i. c \<le> i \<Longrightarrow> i < c + 4 \<Longrightarrow> m (a + of_nat i) = m' (a + of_nat i)"
  shows "load32 m (a + of_nat c) = load32 m' (a + of_nat c)"
  using assms [of c] assms [of "c + 1"] assms [of "c + 2"] assms [of "c + 3"] by (simp add: load32_def ac_simps)

lemma load16_bytewise:
  assumes "\<And>i. c \<le> i \<Longrightarrow> i < c + 2 \<Longrightarrow> m (a + of_nat i) = m' (a + of_nat i)"
  shows "load16 m (a + of_nat c) = load16 m' (a + of_nat c)"
  using assms [of c] assms [of "c + 1"] by (simp add: load16_def ac_simps)

text \<open>The tables read the same in every turn, as far as the loader has not come yet.\<close>

lemma tables_kept:
  assumes ok: "loadable L P m elf" and k: "k \<le> phnum m elf"
    and same: "\<And>a. unat a div 4096 \<in> P \<Longrightarrow> a \<notin> rewritten m elf k \<Longrightarrow> m' a = m a"
  shows "load32 m' (elf + 28) = load32 m (elf + 28)" "load16 m' (elf + 42) = load16 m (elf + 42)" "phnum m' elf = phnum m elf"
    "phdr m' elf j = phdr m elf j"
    "k < phnum m elf \<Longrightarrow> load32 m' (phdr m elf k + 4) = load32 m (phdr m elf k + 4)"
    "k < phnum m elf \<Longrightarrow> load32 m' (phdr m elf k + 8) = load32 m (phdr m elf k + 8)"
    "k < phnum m elf \<Longrightarrow> load16 m' (phdr m elf k + 16) = load16 m (phdr m elf k + 16)"
proof -
  have h: "m' (elf + of_nat i) = m (elf + of_nat i)" if "i < 52" for i
    using same loadableD(7) [OF ok that] header_field_kept(1) [OF ok k that] by blast
  have p: "m' (phdr m elf k + of_nat i) = m (phdr m elf k + of_nat i)" if "k < phnum m elf" "i < 32" for i
    using same loadableD(8) [OF ok that] header_field_kept(2) [OF ok k le_refl that] by blast
  show o: "load32 m' (elf + 28) = load32 m (elf + 28)" "load16 m' (elf + 42) = load16 m (elf + 42)"
    using load32_bytewise [of 28 m' elf m] load16_bytewise [of 42 m' elf m] h by simp_all
  show "phnum m' elf = phnum m elf" using load16_bytewise [of 44 m' elf m] h by (simp add: phnum_def)
  show "phdr m' elf j = phdr m elf j" by (simp add: phdr_def o)
  assume "k < phnum m elf"
  note p = p [OF this]
  show "load32 m' (phdr m elf k + 4) = load32 m (phdr m elf k + 4)" "load32 m' (phdr m elf k + 8) = load32 m (phdr m elf k + 8)"
    "load16 m' (phdr m elf k + 16) = load16 m (phdr m elf k + 16)"
    using load32_bytewise [of 4 m' "phdr m elf k" m] load32_bytewise [of 8 m' "phdr m elf k" m] load16_bytewise [of 16 m' "phdr m elf k" m] p
    by simp_all
qed

lemma vload_resident:
  assumes "kspace L s" "resident L s P" "unat a div 4096 \<in> P"
  shows "vload32 s a = Some (load32 (ram s) a)" "unat (a + 1) div 4096 \<in> P \<Longrightarrow> vload16 s a = Some (load16 (ram s) a)"
  using resident_self [OF assms(1,2)] assms(3) by (simp_all add: vload32_def vload16_def vload8_def load16_def)

text \<open>A byte reads as before when its page leads to the same frame and that was left alone.\<close>

lemma vload8_kept:
  assumes K: "kspace L t" "kspace L t'" and va: "unat va div 4096 < 262144" and e: "kentry L t' (unat va div 4096) = kentry L t (unat va div 4096)"
    and same: "\<And>a. unat a div 4096 = unat (entry_frame (kentry L t (unat va div 4096))) \<Longrightarrow> ram t' a = ram t a"
  shows "vload8 t' va = vload8 t va"
proof -
  define fr x where "fr = entry_frame (kentry L t (unat va div 4096))" and "x = unat va mod 4096"
  have fr: "unat fr + 1 \<le> 1048576"
    using unsigned_less [of "kentry L t (unat va div 4096)", where ?'a = nat] by (simp add: fr_def entry_frame_def unat_drop_12)
  have x: "x < 4096" "unat (of_nat x :: u32) < 4096" using unat_of_nat32 [of x] by (simp_all add: x_def)
  have "(of_nat (unat va) :: u32) = of_nat (unat va div 4096 * 4096 + x)" unfolding x_def by (simp only: div_mult_mod_eq)
  then have split: "va = of_nat (unat va div 4096) * 4096 + of_nat x"
    by (simp only: of_nat_add of_nat_mult of_nat_numeral of_nat_unat ucast_id)
  have base: "unat (of_nat (unat va div 4096) * 4096 :: u32) mod 4096 = 0" using page_number_address(1) [OF va] by simp
  have pa: "fr * 4096 OR (va AND 0xFFF) = fr * 4096 + of_nat x"
    using frame_or_offset [OF base x(2), of fr] by (simp only: split [symmetric])
  have "unat (fr * 4096 + of_nat x) = unat fr * 4096 + x" using x(1) by (intro unat_frame_byte [OF fr]) simp
  then have "unat (fr * 4096 + of_nat x) div 4096 = unat fr" using x(1) by simp
  then have "ram t' (fr * 4096 + of_nat x) = ram t (fr * 4096 + of_nat x)" using same unfolding fr_def by blast
  moreover have "unat va < 0x40000000" using va by simp
  ultimately show ?thesis using xlate_kernel [OF K(1)] xlate_kernel [OF K(2)] e pa by (simp add: vload8_def fr_def)
qed

lemma phys_alloc_room:
  assumes "0 \<in> used_pages d" "unat (TotalMemory d div PAGE_SIZE) + unat n \<le> 1048568" "0 < n"
    and "q < unat (TotalMemory d div PAGE_SIZE)" "{q ..< q + unat n} \<inter> used_pages d = {}"
  shows "\<exists>pa d'. physicalAllocate n d = Some (pa, d') \<and> pa \<noteq> 0"
proof -
  obtain pa d' where pa: "physicalAllocate n d = Some (pa, d')" using phys.alloc_total [OF assms(1-3)] by blast
  have "pa \<noteq> 0"
    using assms(2) pa
  proof (cases rule: phys_alloc_cases)
    case (1 p)
    then show ?thesis using first_fit_not_0 [OF 1(1) assms(1,3)] by auto
  next
    case 2
    then show ?thesis using assms(4,5) by blast
  qed
  then show ?thesis using pa by blast
qed

lemma shorter_run:
  assumes "{F ..< F + (n + r)} \<inter> U = {}" "F \<le> G" "G + l \<le> F + (n + r)"
  shows "{G ..< G + l} \<inter> (U :: nat set) = {}"
proof -
  have "{G ..< G + l} \<subseteq> {F ..< F + (n + r)}" using assms(2,3) by auto
  then show ?thesis using assms(1) by blast
qed

text \<open>Taking the first run that fits out of a longer one leaves room for what is still to come.\<close>

lemma first_fit_leaves_room:
  assumes "first_fit U N n f" "{F ..< F + (n + r)} \<inter> U = {}" "F + (n + r) \<le> N"
  shows "\<exists>F'. F' + r \<le> N \<and> {F' ..< F' + r} \<inter> (U \<union> {f ..< f + n}) = {}"
proof -
  have "{F ..< F + n} \<inter> U = {}" by (rule shorter_run [OF assms(2)]) simp_all
  then have "f \<le> F" using assms(1) unfolding first_fit_def by (meson not_le)
  then have le: "max F (f + n) + r \<le> F + (n + r)" by simp
  moreover have "{max F (f + n) ..< max F (f + n) + r} \<inter> U = {}" by (rule shorter_run [OF assms(2) _ le]) simp
  then have "{max F (f + n) ..< max F (f + n) + r} \<inter> (U \<union> {f ..< f + n}) = {}" by auto
  ultimately show ?thesis using assms(3) by (intro exI [of _ "max F (f + n)"]) simp
qed

lemma seg_range:
  assumes "loadable L P m elf" "j < phnum m elf" "i < unat (seg_size m elf j)"
  shows "i < seg_count m elf j * 4096" "unat (of_nat (seg_page m elf j) * 4096 + of_nat i :: u32) div 4096 = seg_page m elf j + i div 4096"
    "seg_page m elf j + i div 4096 \<in> seg_pages m elf j" "seg_page m elf j + i div 4096 < 262144"
proof -
  note sz = segment_size [OF loadableD(9) [OF assms(1,2)]]
  show i: "i < seg_count m elf j * 4096"
    using num_pages_bounds(2) [OF sz(2,3)] assms(3) sz(1) by (simp add: seg_count_def)
  then show p: "seg_page m elf j + i div 4096 \<in> seg_pages m elf j"
    by (auto simp: seg_pages_def intro: less_mult_imp_div_less)
  then show "seg_page m elf j + i div 4096 < 262144" using loadableD(11) [OF assms(1,2)] by (auto simp: seg_pages_def)
  have "seg_page m elf j * 4096 + i < 0x40000000" using loadableD(11) [OF assms(1,2)] i by linarith
  then have "unat (of_nat (seg_page m elf j) * 4096 + of_nat i :: u32) = seg_page m elf j * 4096 + i"
    using unat_of_nat32 [of "seg_page m elf j * 4096 + i"] by simp
  then show "unat (of_nat (seg_page m elf j) * 4096 + of_nat i :: u32) div 4096 = seg_page m elf j + i div 4096" by simp
qed

lemma loaded_uptoD:
  assumes "loaded_upto L P m elf k t"
  shows "mm_inv L (kernelPageDirectory L) t" "resident L t P" "unat (TotalMemory (memManData t) div PAGE_SIZE) \<le> 786424"
    "\<exists>F. F + (\<Sum>j = k ..< phnum m elf. seg_count m elf j) \<le> unat (TotalMemory (memManData t) div PAGE_SIZE) \<and>
       {F ..< F + (\<Sum>j = k ..< phnum m elf. seg_count m elf j)} \<inter> used_pages (memManData t) = {}"
    "unat a div 4096 \<in> P \<Longrightarrow> a \<notin> rewritten m elf k \<Longrightarrow> ram t a = m a"
    "j < k \<Longrightarrow> r \<in> seg_pages m elf j \<Longrightarrow> entry_present (kentry L t r) \<and>
       unat (entry_frame (kentry L t r)) \<in> used_pages (memManData t) - table_pages L - P"
    "j < k \<Longrightarrow> i < unat (seg_size m elf j) \<Longrightarrow> seg_data m elf j + of_nat i \<notin> rewritten m elf (phnum m elf) \<Longrightarrow>
       vload8 t (of_nat (seg_page m elf j) * 4096 + of_nat i) = Some (m (seg_data m elf j + of_nat i))"
  using assms unfolding loaded_upto_def by blast+

text \<open>One turn, from the tables of the file.\<close>

lemma load_turn:
  assumes ok: "loadable L P m elf" and k: "k < phnum m elf" and t: "loaded_upto L P m elf k t"
    and m': "m' = store32 (ram t) (phdr m elf k + 8) (seg_addr m elf k - seg_addr m elf k mod PAGE_SIZE)"
  shows "\<exists>f t'. load_segment (kernelPageDirectory L) elf (of_nat k) t = Some t' \<and>
    segment_loaded L P (seg_page m elf k) (seg_count m elf k) f m' t t' \<and>
    (\<forall>i < unat (seg_size m elf k). vload8 t' (of_nat (seg_page m elf k) * 4096 + of_nat i) = Some (m' (seg_data m elf k + of_nat i)))"
proof -
  note T = loaded_uptoD [OF t] and D = loadableD [OF ok]
  have K: "kspace L t" using T(1) by (simp add: mm_inv_def)
  note same = tables_kept [OF ok less_imp_le [OF k] T(5)]
  have pg: "unat (elf + 28) div 4096 \<in> P" "unat (elf + 42) div 4096 \<in> P" "unat (elf + 43) div 4096 \<in> P"
    "unat (phdr m elf k + 4) div 4096 \<in> P" "unat (phdr m elf k + 8) div 4096 \<in> P"
    "unat (phdr m elf k + 16) div 4096 \<in> P" "unat (phdr m elf k + 17) div 4096 \<in> P"
    using D(7) [of 28] D(7) [of 42] D(7) [of 43] D(8) [OF k, of 4] D(8) [OF k, of 8] D(8) [OF k, of 16] D(8) [OF k, of 17] by simp_all
  note ld = vload_resident [OF K T(2)]
  have hdr: "vload32 t (elf + 28) = Some (load32 m (elf + 28))" "vload16 t (elf + 42) = Some (load16 m (elf + 42))"
    "vload32 t (phdr m elf k + 4) = Some (load32 m (phdr m elf k + 4))" "vload32 t (phdr m elf k + 8) = Some (seg_addr m elf k)"
    "vload16 t (phdr m elf k + 16) = Some (seg_size m elf k)"
    using ld pg same k by (simp_all add: seg_addr_def seg_size_def add.assoc)
  have "unat (load16 m (elf + 42)) * k mod 4 = 0" using D(3) by (metis mod_mult_left_eq mult_zero_left mod_0)
  then have al: "unat (phdr m elf k) mod 4 = 0"
    using unat_phdr [OF ok k, of 0] D(1,2) by (simp add: mod_eq_0_iff_dvd dvd_add)
  note sz = segment_size [OF D(9) [OF k]]
  note n = num_pages_bounds [OF sz(2,3)]
  have sum: "(\<Sum>j = k ..< phnum m elf. seg_count m elf j) = seg_count m elf k + (\<Sum>j = Suc k ..< phnum m elf. seg_count m elf j)"
    using k by (simp add: sum.atLeast_Suc_lessThan)
  have pos: "0 < seg_count m elf k" using n(1) by (simp add: seg_count_def word_less_nat_alt)
  obtain F where F: "F + (seg_count m elf k + (\<Sum>j = Suc k ..< phnum m elf. seg_count m elf j)) \<le> unat (TotalMemory (memManData t) div PAGE_SIZE)"
      "{F ..< F + (seg_count m elf k + (\<Sum>j = Suc k ..< phnum m elf. seg_count m elf j))} \<inter> used_pages (memManData t) = {}"
    using T(4) unfolding sum by blast
  have fit: "F < unat (TotalMemory (memManData t) div PAGE_SIZE)" "{F ..< F + seg_count m elf k} \<inter> used_pages (memManData t) = {}"
    using F(1) pos shorter_run [OF F(2), of F "seg_count m elf k"] by simp_all
  have total: "unat (TotalMemory (memManData t) div PAGE_SIZE) + unat (num_pages (ucast (seg_size m elf k))) \<le> 1048568" using T(3) n(3) by simp
  have "0 \<in> used_pages (memManData t)" using T(1) by (simp add: mm_inv_def)
  then obtain pa d where pa: "physicalAllocate (num_pages (ucast (seg_size m elf k))) (memManData t) = Some (pa, d)" "pa \<noteq> 0"
    using phys_alloc_room [OF _ total n(1) fit(1)] fit(2) unfolding seg_count_def by blast
  have ph: "phdr m elf k = elf + load32 m (elf + 28) + ucast (load16 m (elf + 42)) * of_nat k" by (simp add: phdr_def)
  show ?thesis
    using load_segment_turn [OF T(1,2) hdr(1,2) ph al _ hdr(3,4,5) D(9) [OF k] _ _ _ pa total m'] pg
      D(10,11,12) [OF k] page_start(2) [of "seg_addr m elf k"]
    by (simp add: seg_page_def seg_count_def seg_pages_def seg_data_def)
qed

lemma segment_loadedD:
  assumes "segment_loaded L P q n f m s s'"
  shows "mm_inv L (kernelPageDirectory L) s'" "resident L s' P" "TotalMemory (memManData s') = TotalMemory (memManData s)"
    "first_fit (used_pages (memManData s)) (unat (TotalMemory (memManData s) div PAGE_SIZE)) n f" "f + n \<le> 1048568"
    "used_pages (memManData s') = used_pages (memManData s) \<union> {f ..< f + n}"
    "l < n \<Longrightarrow> entry_present (kentry L s' (q + l)) \<and> entry_frame (kentry L s' (q + l)) = of_nat f + of_nat l"
    "r < 262144 \<Longrightarrow> r \<notin> {q ..< q + n} \<Longrightarrow> kentry L s' r = kentry L s r"
    "unat a div 4096 \<in> used_pages (memManData s) - table_pages L \<Longrightarrow> ram s' a = m a"
  using assms unfolding segment_loaded_def by blast+

lemma grown_refl [simp]: "grown Q L s s"
  by (simp add: grown_def)

lemma grown_trans: "grown Q L s t \<Longrightarrow> grown Q' L t u \<Longrightarrow> grown (Q \<union> Q') L s u"
  unfolding grown_def by auto

lemma segment_grown: "segment_loaded L P q n f m s s' \<Longrightarrow> grown {q ..< q + n} L s s'"
  unfolding segment_loaded_def grown_def by blast

lemma store_outside_rewritten:
  assumes "a \<notin> rewritten m elf (Suc k)"
  shows "store32 b (phdr m elf k + 8) w a = b a"
proof -
  have "phdr m elf k + of_nat i \<in> rewritten m elf (Suc k)" if "8 \<le> i" "i < 12" for i using that by (auto simp: rewritten_def)
  from this [of 8] this [of 9] this [of 10] this [of 11] show ?thesis
    using assms by (auto simp: store32_apply add.assoc)
qed

text \<open>A turn keeps the pages of the earlier segments and adds its own.\<close>

lemma placed_step:
  assumes ok: "loadable L P m elf" and k: "k < phnum m elf" and t: "loaded_upto L P m elf k t"
    and seg: "segment_loaded L P (seg_page m elf k) (seg_count m elf k) f m' t t'" and j: "j < Suc k" "r \<in> seg_pages m elf j"
  shows "entry_present (kentry L t' r) \<and> unat (entry_frame (kentry L t' r)) \<in> used_pages (memManData t') - table_pages L - P"
proof (cases "j = k")
  case True
  note T = loaded_uptoD [OF t] and S = segment_loadedD [OF seg]
  obtain l where l: "r = seg_page m elf k + l" "l < seg_count m elf k" using j(2) True by (auto simp: seg_pages_def le_iff_add)
  then have "unat (of_nat f + of_nat l :: u32) = f + l" using S(5) unat_of_nat32 [of "f + l"] by simp
  moreover have "f + l \<in> {f ..< f + seg_count m elf k}" using l(2) by simp
  then have "f + l \<in> used_pages (memManData t')" "f + l \<notin> used_pages (memManData t)"
    using S(4,6) unfolding first_fit_def by blast+
  moreover have "table_pages L \<subseteq> used_pages (memManData t)" "P \<subseteq> used_pages (memManData t)"
    using T(1,2) by (auto simp: mm_inv_def resident_def)
  ultimately show ?thesis using S(7) [OF l(2)] unfolding l(1) by auto
next
  case False
  then have jk: "j < k" "j < phnum m elf" using j(1) k by simp_all
  have "r \<notin> seg_pages m elf k" "r < 262144"
    using loadableD(13) [OF ok k jk(1)] j(2) loadableD(11) [OF ok jk(2)] by (auto simp: seg_pages_def)
  then show ?thesis
    using loaded_uptoD(6) [OF t jk(1) j(2)] segment_loadedD(6,8) [OF seg] unfolding seg_pages_def by auto
qed

lemma bytes_kept:
  assumes ok: "loadable L P m elf" and k: "k < phnum m elf" and t: "loaded_upto L P m elf k t"
    and seg: "segment_loaded L P (seg_page m elf k) (seg_count m elf k) f (store32 (ram t) (phdr m elf k + 8) w) t t'"
    and j: "j < k" "i < unat (seg_size m elf j)"
  shows "vload8 t' (of_nat (seg_page m elf j) * 4096 + of_nat i) = vload8 t (of_nat (seg_page m elf j) * 4096 + of_nat i)"
proof (rule vload8_kept)
  note T = loaded_uptoD [OF t] and S = segment_loadedD [OF seg]
  have "j < phnum m elf" using j(1) k by simp
  note r = seg_range [OF ok this j(2)]
  have "seg_page m elf j + i div 4096 \<notin> seg_pages m elf k" using loadableD(13) [OF ok k j(1)] r(3) by blast
  note e = S(8) [OF r(4) this [unfolded seg_pages_def]] and old = T(6) [OF j(1) r(3)]
  show "kspace L t" "kspace L t'" using T(1) S(1) by (simp_all add: mm_inv_def)
  show "unat (of_nat (seg_page m elf j) * 4096 + of_nat i :: u32) div 4096 < 262144"
    "kentry L t' (unat (of_nat (seg_page m elf j) * 4096 + of_nat i :: u32) div 4096) =
     kentry L t (unat (of_nat (seg_page m elf j) * 4096 + of_nat i :: u32) div 4096)"
    using r e by simp_all
  fix a :: u32 assume "unat a div 4096 = unat (entry_frame (kentry L t (unat (of_nat (seg_page m elf j) * 4096 + of_nat i :: u32) div 4096)))"
  then have a: "unat a div 4096 \<in> used_pages (memManData t) - table_pages L" "unat a div 4096 \<notin> P" using old r(2) by auto
  have "a \<notin> rewritten m elf (Suc k)" using a(2) loadableD(8) [OF ok] k by (auto simp: rewritten_def)
  then show "ram t' a = ram t a" using S(9) [OF a(1)] store_outside_rewritten by simp
qed

lemma loaded_upto_step:
  assumes ok: "loadable L P m elf" and k: "k < phnum m elf" and t: "loaded_upto L P m elf k t"
  shows "\<exists>t'. load_segment (kernelPageDirectory L) elf (of_nat k) t = Some t' \<and> loaded_upto L P m elf (Suc k) t' \<and>
    grown (seg_pages m elf k) L t t'"
proof -
  define w where "w = seg_addr m elf k - seg_addr m elf k mod PAGE_SIZE"
  define m' where "m' = store32 (ram t) (phdr m elf k + 8) w"
  note T = loaded_uptoD [OF t] and D = loadableD [OF ok]
  obtain f t' where t': "load_segment (kernelPageDirectory L) elf (of_nat k) t = Some t'"
      "segment_loaded L P (seg_page m elf k) (seg_count m elf k) f m' t t'"
      "\<forall>i < unat (seg_size m elf k). vload8 t' (of_nat (seg_page m elf k) * 4096 + of_nat i) = Some (m' (seg_data m elf k + of_nat i))"
    using load_turn [OF ok k t m'_def [unfolded w_def]] by blast
  note S = segment_loadedD [OF t'(2)]
  have in_file: "m' a = m a" if "unat a div 4096 \<in> P" "a \<notin> rewritten m elf (Suc k)" for a
    using store_outside_rewritten [OF that(2)] T(5) [OF that(1)] that(2) rewritten_mono [of k "Suc k" m elf] by (auto simp: m'_def)
  have sum: "(\<Sum>j = k ..< phnum m elf. seg_count m elf j) = seg_count m elf k + (\<Sum>j = Suc k ..< phnum m elf. seg_count m elf j)"
    using k by (simp add: sum.atLeast_Suc_lessThan)
  have room: "\<exists>F. F + (\<Sum>j = Suc k ..< phnum m elf. seg_count m elf j) \<le> unat (TotalMemory (memManData t') div PAGE_SIZE) \<and>
       {F ..< F + (\<Sum>j = Suc k ..< phnum m elf. seg_count m elf j)} \<inter> used_pages (memManData t') = {}"
    using T(4) first_fit_leaves_room [OF S(4)] unfolding sum S(3,6) by blast
  have unchanged: "ram t' a = m a" if "unat a div 4096 \<in> P" "a \<notin> rewritten m elf (Suc k)" for a
    using S(9) [of a] in_file [OF that] T(2) that(1) by (simp add: resident_def)
  have bytes: "vload8 t' (of_nat (seg_page m elf j) * 4096 + of_nat i) = Some (m (seg_data m elf j + of_nat i))"
    if j: "j < Suc k" "i < unat (seg_size m elf j)" "seg_data m elf j + of_nat i \<notin> rewritten m elf (phnum m elf)" for j i
  proof (cases "j = k")
    case True
    have "seg_data m elf k + of_nat i \<notin> rewritten m elf (Suc k)"
      using j(3) True rewritten_mono [of "Suc k" "phnum m elf" m elf] k by auto
    then show ?thesis using t'(3) j(2) D(10) [OF k] in_file unfolding True by simp
  next
    case False
    then show ?thesis using bytes_kept [OF ok k t t'(2) [unfolded m'_def] _ j(2)] T(7) [OF _ j(2,3)] j(1) by simp
  qed
  have "loaded_upto L P m elf (Suc k) t'"
    unfolding loaded_upto_def using S(1,2) T(3) room unchanged placed_step [OF ok k t t'(2)] bytes by (simp add: S(3))
  then show ?thesis using t'(1) segment_grown [OF t'(2)] unfolding seg_pages_def by blast
qed

lemma sless_small:
  assumes "k < 65536"
  shows "(of_nat k :: u32) <s ucast (n :: u16) \<longleftrightarrow> k < unat n"
proof -
  have n: "unat (ucast n :: u32) = unat n" "unat n < 65536"
    using unsigned_less [of n, where ?'a = nat] by (simp_all add: unsigned_ucast_eq take_bit_nat_eq_self)
  have "sint (of_nat k :: u32) = int k" "sint (ucast n :: u32) = int (unat n)"
    using sint_small [of "of_nat k"] sint_small [of "ucast n"] assms n by (simp_all add: unat_of_nat32)
  then show ?thesis by (simp only: word_sless_alt of_nat_less_iff)
qed

lemma phnum_loads:
  assumes ok: "loadable L P m elf" and "k \<le> phnum m elf" "loaded_upto L P m elf k t"
  shows "vload16 t (elf + 44) = Some (load16 m (elf + 44))"
proof -
  note T = loaded_uptoD [OF assms(3)]
  have "phnum (ram t) elf = phnum m elf" by (rule tables_kept(3) [OF ok assms(2) T(5)])
  then have "load16 (ram t) (elf + 44) = load16 m (elf + 44)" by (simp only: phnum_def word_unat_eq_iff)
  moreover have "kspace L t" using T(1) by (simp add: mm_inv_def)
  ultimately show ?thesis
    using vload_resident(2) [OF _ T(2), of "elf + 44"] loadableD(7) [OF ok, of 44] loadableD(7) [OF ok, of 45] by (simp add: add.assoc)
qed

lemma load_segments_from:
  assumes ok: "loadable L P m elf" and "k \<le> phnum m elf" "loaded_upto L P m elf k t"
  shows "\<exists>t'. load_segments (kernelPageDirectory L) elf (of_nat k) t = Some t' \<and> loaded_upto L P m elf (phnum m elf) t' \<and>
    grown (\<Union>j \<in> {k ..< phnum m elf}. seg_pages m elf j) L t t'"
  using assms(2,3)
proof (induction "phnum m elf - k" arbitrary: k t)
  case (0 k t)
  have "phnum m elf < 65536" using unsigned_less [of "load16 m (elf + 44)", where ?'a = nat] by (simp add: phnum_def)
  then have "k = phnum m elf" "k < 65536" using 0 by simp_all
  then show ?case
    using phnum_loads [OF ok 0(2,3)] sless_small [of k] 0(3) by (subst load_segments.simps) (auto simp: phnum_def)
next
  case (Suc d k t)
  have "phnum m elf < 65536" using unsigned_less [of "load16 m (elf + 44)", where ?'a = nat] by (simp add: phnum_def)
  then have k: "k < phnum m elf" "k < 65536" using Suc.hyps(2) by simp_all
  have d: "d = phnum m elf - Suc k" using Suc.hyps(2) by simp
  obtain t1 where t1: "load_segment (kernelPageDirectory L) elf (of_nat k) t = Some t1" "loaded_upto L P m elf (Suc k) t1"
      "grown (seg_pages m elf k) L t t1"
    using loaded_upto_step [OF ok k(1) Suc.prems(2)] by blast
  have "load_segments (kernelPageDirectory L) elf (of_nat k) t = load_segments (kernelPageDirectory L) elf (of_nat (Suc k)) t1"
    using phnum_loads [OF ok Suc.prems] sless_small [OF k(2)] k(1) t1(1)
    by (subst load_segments.simps) (simp add: phnum_def add.commute)
  moreover obtain t' where t': "load_segments (kernelPageDirectory L) elf (of_nat (Suc k)) t1 = Some t'" "loaded_upto L P m elf (phnum m elf) t'"
      "grown (\<Union>j \<in> {Suc k ..< phnum m elf}. seg_pages m elf j) L t1 t'"
    using Suc.hyps(1) [of "Suc k" t1] d k(1) t1(2) by auto
  moreover have "{k ..< phnum m elf} = insert k {Suc k ..< phnum m elf}" using k(1) by auto
  then have "(\<Union>j \<in> {k ..< phnum m elf}. seg_pages m elf j) = seg_pages m elf k \<union> (\<Union>j \<in> {Suc k ..< phnum m elf}. seg_pages m elf j)" by simp
  ultimately show ?case using grown_trans [OF t1(3) t'(3)] by simp
qed

subsection \<open>The example module\<close>

lemma module_inv:
  "mm_inv boot_layout (kernelPageDirectory boot_layout) module_machine"
  "resident boot_layout module_machine {0x280}"
proof -
  let ?L = boot_layout and ?s = "put_entry boot_layout 0x280 (set_entry 0 False 0x280) boot_machine"
  have pd: "kernelPageDirectory ?L = 0x200000" by (simp add: boot_layout_def)
  note inv = boot_inv [unfolded mm_inv_def]
  have K: "kspace ?L boot_machine" "pd_ok ?L boot_machine 0x200000" "layout_ok ?L" using inv by (simp_all add: kspace_def)
  have K1: "kspace ?L ?s" "pd_ok ?L ?s 0x200000"
    using kspace_put_entry [OF K(1), of 640] pd_ok_put_entry [OF K(3,2), of 640] by (simp_all add: boot_pages)
  have fd: "frames_differ ?L {0x280} ?s module_machine"
    by (simp add: frames_differ_def module_machine_def Let_def boot_pages)
  have ke: "kentry ?L module_machine p = (if p = 0x280 then set_entry 0 False 0x280 else kentry ?L boot_machine p)" if "p < 262144" for p
    using kentry_frames [OF K(3) fd that] kentry_put_entry [OF K(3) _ that, of 640] by simp
  have k512: "kentry ?L boot_machine 512 = 0x200003"
    using boot_entries(3) by (simp add: kentry_def kentry_addr_def boot_machine_def boot_layout_def)
  have rest: "memManData module_machine = memManData boot_machine" "cr3_reg module_machine = 0x200000" "cr3_reg ?s = 0x200000"
    by (simp_all add: module_machine_def Let_def) (simp_all add: boot_machine_def)
  have "kspace ?L module_machine" using kspace_frames [OF K1(1) fd] rest(3) by simp
  moreover have "pd_ok ?L module_machine 0x200000"
    using pd_ok_frames [OF K(3) K1(2) fd] kentry_put_entry [OF K(3), of 640 512] k512 by simp
  ultimately show "mm_inv ?L (kernelPageDirectory ?L) module_machine"
    using inv ke [of 512] unfolding mm_inv_def pd by (simp add: rest boot_machine_def)
  show "resident ?L module_machine {0x280}"
    by (simp add: boot_frames resident_def ke pd k512 rest boot_pages)
qed

lemma module_page:
  assumes "i < 4096"
  shows "unat (0x280000 + of_nat i :: u32) div 4096 = 0x280" "ram module_machine (0x280000 + of_nat i) = module_byte i"
proof -
  have "unat (0x280000 + of_nat i :: u32) = 0x280 * 4096 + i" using assms by (simp add: unat_word_ariths unat_of_nat32)
  then have page: "unat (0x280000 + of_nat i :: u32) div 4096 = 0x280" "unat (0x280000 + of_nat i :: u32) mod 4096 = i"
    using assms by (simp_all only: div_mult_self3 mod_mult_self3) simp_all
  then show "ram module_machine (0x280000 + of_nat i) = module_byte i" by (simp add: module_machine_def Let_def)
  show "unat (0x280000 + of_nat i :: u32) div 4096 = 0x280" by (rule page(1))
qed

lemma module_words:
  assumes "i < 4092"
  shows "load32 (ram module_machine) (0x280000 + of_nat i) = ucast (module_byte i) OR push_bit 8 (ucast (module_byte (i + 1))) OR
      push_bit 16 (ucast (module_byte (i + 2))) OR push_bit 24 (ucast (module_byte (i + 3)))"
    "load16 (ram module_machine) (0x280000 + of_nat i) = ucast (module_byte i) OR push_bit 8 (ucast (module_byte (i + 1)))"
  using module_page(2) [of i] module_page(2) [of "i + 1"] module_page(2) [of "i + 2"] module_page(2) [of "i + 3"] assms
  by (simp_all add: load32_def load16_def ac_simps)

lemma module_header:
  "load32 (ram module_machine) 0x28001C = 52" "load16 (ram module_machine) 0x28002A = 32" "load16 (ram module_machine) 0x28002C = 2"
  "load32 (ram module_machine) 0x280038 = 0x80" "load32 (ram module_machine) 0x28003C = 0x600123" "load16 (ram module_machine) 0x280044 = 4"
  "load32 (ram module_machine) 0x280058 = 0x90" "load32 (ram module_machine) 0x28005C = 0x700000" "load16 (ram module_machine) 0x280064 = 3"
  using module_words [of 28] module_words [of 42] module_words [of 44] module_words [of 56] module_words [of 60] module_words [of 68]
    module_words [of 88] module_words [of 92] module_words [of 100]
  by (simp_all add: module_byte_def)

lemma module_segments:
  "phnum (ram module_machine) 0x280000 = 2"
  "phdr (ram module_machine) 0x280000 0 = 0x280034" "phdr (ram module_machine) 0x280000 (Suc 0) = 0x280054"
  "seg_data (ram module_machine) 0x280000 0 = 0x280080" "seg_data (ram module_machine) 0x280000 (Suc 0) = 0x280090"
  "seg_addr (ram module_machine) 0x280000 0 = 0x600123" "seg_addr (ram module_machine) 0x280000 (Suc 0) = 0x700000"
  "seg_size (ram module_machine) 0x280000 0 = 4" "seg_size (ram module_machine) 0x280000 (Suc 0) = 3"
  "seg_page (ram module_machine) 0x280000 0 = 0x600" "seg_page (ram module_machine) 0x280000 (Suc 0) = 0x700"
  "seg_count (ram module_machine) 0x280000 0 = 1" "seg_count (ram module_machine) 0x280000 (Suc 0) = 1"
  by (simp_all add: phnum_def phdr_def seg_data_def seg_addr_def seg_size_def seg_page_def seg_count_def module_header num_pages_def PAGE_ALIGN_def)

lemma module_loadable: "loadable boot_layout {0x280} (ram module_machine) 0x280000"
proof -
  have in_page: "unat (0x280034 + of_nat i :: u32) div 4096 = 0x280" "unat (0x280054 + of_nat i :: u32) div 4096 = 0x280"
    "unat (0x280080 + of_nat i :: u32) div 4096 = 0x280" "unat (0x280090 + of_nat i :: u32) div 4096 = 0x280" if "i < 32" for i
    using module_page(1) [of "52 + i"] module_page(1) [of "84 + i"] module_page(1) [of "128 + i"] module_page(1) [of "144 + i"] that
    by (simp_all add: add.assoc [symmetric])
  show ?thesis
    unfolding loadable_def Let_def using module_page(1) in_page
    by (auto simp: module_segments module_header boot_pages seg_pages_def less_2_cases_iff)
qed

lemma module_rewritten:
  assumes "a \<in> rewritten (ram module_machine) 0x280000 2"
  shows "unat a < 0x280060"
proof -
  obtain j i where "a = phdr (ram module_machine) 0x280000 j + of_nat i" "j < 2" "i < 12" using assms by (auto simp: rewritten_def)
  then show ?thesis using unat_phdr [OF module_loadable, of j i] by (simp add: module_segments(1) module_header)
qed

section \<open>Properties\<close>

text \<open>
  Property C26: \<open>verifyElfHeader\<close> decides by the first twenty bytes of the file. A 32-bit little-endian
  i386 file of version 1 that is relocatable or executable passes and nothing is written; of any other
  file the first check that fails in the order of the code is reported with \<open>printk\<close>, and \<open>load\<close>
  returns false having done nothing else.
\<close>

theorem elf_header_checked:
  assumes "header \<noteq> 0" and "buf \<noteq> 0" and "\<forall>i < 20. vload8 (hmachine (heap k)) (header + of_nat i) = Some (bs ! i)"
  shows "case elf_error bs of
      None \<Rightarrow> verifyElfHeader fp buf header k = Some (True, k)
    | Some msg \<Rightarrow> verifyElfHeader fp buf header k = Some (False, shown buf (ascii msg @ [10]) k) \<and>
        load fp buf L header len k = Some (False, shown buf (ascii msg @ [10]) k)"
  using verifyElfHeader_result [OF assms] by (simp add: load_def split: option.splits)

theorem elf_header_checked_witness:
  "verifyElfHeader blank_fpu 0x900 0x5000 (demo_kernel elf_file) = Some (True, demo_kernel elf_file) \<and>
   load blank_fpu 0x900 boot_layout 0x5000 20 (demo_kernel (elf_file[4 := 2])) =
     Some (False, shown 0x900 (ascii ''Unsupported ELF File Class.'' @ [10]) (demo_kernel (elf_file[4 := 2])))"
proof -
  have len: "length elf_file = 20" by (simp add: elf_file_def)
  have "elf_error elf_file = None" "elf_error (elf_file[4 := 2]) = Some ''Unsupported ELF File Class.''"
    by (simp_all add: elf_error_def elf_checks_def elf_file_def)
  then show ?thesis
    using elf_header_checked [where header = "0x5000" and buf = "0x900" and k = "demo_kernel elf_file" and bs = elf_file]
      elf_header_checked [where header = "0x5000" and buf = "0x900" and k = "demo_kernel (elf_file[4 := 2])" and bs = "elf_file[4 := 2]"]
      demo_bytes [of elf_file] demo_bytes [of "elf_file[4 := 2]"] by (simp add: len)
qed

text \<open>
  Property C23: the loop of \<open>load\<close> over the program headers of a file in memory returns, if there is one
  free run of frames for all segments. In the end every byte of every segment is found at the address
  it was meant for, rounded down to its page: from the start of the page of \<open>m_vaddr\<close> on, not from
  \<open>m_vaddr\<close> itself. Later turns neither overwrite nor unmap what earlier ones placed, the kernel's
  address space stays well formed, and the file itself changes only in the address words of its
  program headers, which the loader rounds down in place.
\<close>

theorem load_places_segments:
  assumes "mm_inv L (kernelPageDirectory L) s" and "resident L s P" and "loadable L P (ram s) elf"
    and "unat (TotalMemory (memManData s) div PAGE_SIZE) \<le> 786424"
    and "F + (\<Sum>j < phnum (ram s) elf. seg_count (ram s) elf j) \<le> unat (TotalMemory (memManData s) div PAGE_SIZE)"
    and "{F ..< F + (\<Sum>j < phnum (ram s) elf. seg_count (ram s) elf j)} \<inter> used_pages (memManData s) = {}"
  shows "\<exists>s'. load_segments (kernelPageDirectory L) elf 0 s = Some s' \<and> mm_inv L (kernelPageDirectory L) s' \<and>
    (\<forall>a. unat a div 4096 \<in> P \<and> a \<notin> rewritten (ram s) elf (phnum (ram s) elf) \<longrightarrow> vload8 s' a = vload8 s a) \<and>
    (\<forall>j < phnum (ram s) elf. \<forall>i < unat (seg_size (ram s) elf j).
       seg_data (ram s) elf j + of_nat i \<notin> rewritten (ram s) elf (phnum (ram s) elf) \<longrightarrow>
       vload8 s' (seg_addr (ram s) elf j - seg_addr (ram s) elf j mod PAGE_SIZE + of_nat i) = vload8 s (seg_data (ram s) elf j + of_nat i))"
proof -
  have "loaded_upto L P (ram s) elf 0 s"
    using assms(1,2,4-) by (auto simp: loaded_upto_def lessThan_atLeast0)
  then obtain s' where s': "load_segments (kernelPageDirectory L) elf 0 s = Some s'" "loaded_upto L P (ram s) elf (phnum (ram s) elf) s'"
    using load_segments_from [OF assms(3), of 0 s] by auto
  note T = loaded_uptoD [OF s'(2)]
  have "kspace L s" "kspace L s'" using assms(1) T(1) by (simp_all add: mm_inv_def)
  then have at: "vload8 s a = Some (ram s a)" "vload8 s' a = Some (ram s' a)" if "unat a div 4096 \<in> P" for a
    using resident_self assms(2) T(2) that by (simp_all add: vload8_def)
  show ?thesis
    using s'(1) T(1,5,7) at loadableD(10) [OF assms(3)] page_start(2) by (auto simp: seg_page_def)
qed

theorem load_places_segments_witness:
  "\<exists>s'. load_segments 0x200000 0x280000 0 module_machine = Some s' \<and> vload8 s' 0x600001 = Some 20 \<and> vload8 s' 0x700002 = Some 70"
proof -
  let ?m = "ram module_machine"
  have T: "unat (TotalMemory (memManData module_machine) div PAGE_SIZE) = 4096" by (simp add: module_machine_def Let_def boot_machine_def)
  have U: "used_pages (memManData module_machine) = {..< 1024}" using boot_frames by (simp add: module_machine_def Let_def)
  have free: "{1024 ..< 1024 + 2} \<inter> used_pages (memManData module_machine) = {}" by (auto simp: U)
  have sum: "(\<Sum>j < phnum ?m 0x280000. seg_count ?m 0x280000 j) = 2"
    by (simp add: module_segments lessThan_Suc numeral_2_eq_2)
  have "\<exists>s'. load_segments (kernelPageDirectory boot_layout) 0x280000 0 module_machine = Some s' \<and>
      (\<forall>j < phnum ?m 0x280000. \<forall>i < unat (seg_size ?m 0x280000 j).
         seg_data ?m 0x280000 j + of_nat i \<notin> rewritten ?m 0x280000 (phnum ?m 0x280000) \<longrightarrow>
         vload8 s' (seg_addr ?m 0x280000 j - seg_addr ?m 0x280000 j mod PAGE_SIZE + of_nat i) = vload8 module_machine (seg_data ?m 0x280000 j + of_nat i))"
    using load_places_segments [OF module_inv module_loadable, of 1024, unfolded sum, OF _ _ free] T by auto
  then obtain s' where s': "load_segments 0x200000 0x280000 0 module_machine = Some s'"
      "\<And>j i. j < 2 \<Longrightarrow> i < unat (seg_size ?m 0x280000 j) \<Longrightarrow> seg_data ?m 0x280000 j + of_nat i \<notin> rewritten ?m 0x280000 2 \<Longrightarrow>
         vload8 s' (seg_addr ?m 0x280000 j - seg_addr ?m 0x280000 j mod PAGE_SIZE + of_nat i) = vload8 module_machine (seg_data ?m 0x280000 j + of_nat i)"
    unfolding module_segments(1) boot_layout_def by auto
  have "0x280081 \<notin> rewritten ?m 0x280000 2" "0x280092 \<notin> rewritten ?m 0x280000 2"
    using module_rewritten [of "0x280081"] module_rewritten [of "0x280092"] by auto
  moreover have "kspace boot_layout module_machine" using module_inv(1) by (simp add: mm_inv_def)
  then have "vload8 module_machine 0x280081 = Some 20" "vload8 module_machine 0x280092 = Some 70"
    using resident_self [OF _ module_inv(2), of "0x280081"] resident_self [OF _ module_inv(2), of "0x280092"] module_page(2) [of 129] module_page(2) [of 146]
    by (simp_all add: vload8_def module_byte_def)
  ultimately show ?thesis using s'(1) s'(2) [of 0 1] s'(2) [of 1 2] by (auto simp: module_segments)
qed

end
