(* ===== verification/Boot_Memory.thy ===== *)
theory Boot_Memory
  imports Boot
begin

text \<open>
  What \<open>Multiboot::loadMemoryMap\<close> makes of the boot loader's map of memory: which pages the physical
  allocator may use afterwards, and the maps it cannot take.
\<close>

section \<open>Specification\<close>

text \<open>The entries of a map that begins at \<open>a\<close> and ends at \<open>limit\<close>, below the middle of the address space.\<close>

datatype mmap_entry = Entry (entry_size: u32) (entry_base: u64) (entry_length: u64) (entry_type: u32)

fun memory_map :: "machine \<Rightarrow> u32 \<Rightarrow> addr \<Rightarrow> mmap_entry list \<Rightarrow> bool" where
  "memory_map s limit a [] \<longleftrightarrow> limit \<le> a \<and> a < 0x80000000"
| "memory_map s limit a (e # es) \<longleftrightarrow> a < limit \<and> a < 0x80000000 \<and>
     vload32 s a = Some (entry_size e) \<and> vload64 s (a + 4) = Some (entry_base e) \<and>
     vload64 s (a + 12) = Some (entry_length e) \<and> vload32 s (a + 20) = Some (entry_type e) \<and>
     memory_map s limit (a + entry_size e + 4) es"

text \<open>The entries of usable memory.\<close>

definition usable :: "mmap_entry list \<Rightarrow> mmap_entry list" where
  "usable es = filter (\<lambda>e. entry_type e = 1) es"

text \<open>A region of at least a page that ends below the pages the bitmap has no bits for.\<close>

definition below_end :: "mmap_entry \<Rightarrow> bool" where
  "below_end e \<longleftrightarrow> 4096 \<le> unat (entry_length e) \<and> unat (entry_base e) + unat (entry_length e) \<le> 0xFFFF8000"

text \<open>
  The pages of a region that are freed and the bytes that are counted: from the first page boundary
  on, as many pages as the length holds, one fewer when the region does not begin at a boundary.
\<close>

definition region_count :: "mmap_entry \<Rightarrow> nat" where
  "region_count e = unat (entry_length e) div 4096 - (if 4096 dvd unat (entry_base e) then 0 else 1)"

definition region_pages :: "mmap_entry \<Rightarrow> nat set" where
  "region_pages e = (let p = (unat (entry_base e) + 4095) div 4096 in {p ..< p + region_count e})"

definition region_length :: "mmap_entry \<Rightarrow> nat" where
  "region_length e = unat (entry_length e) - unat (entry_length e) mod 4096 -
     (if 4096 dvd unat (entry_base e) then 0 else 4096 - unat (entry_base e) mod 4096)"

section \<open>Facts\<close>

lemma unat_ucast_low: "unat (w :: u64) < 4294967296 \<Longrightarrow> unat (ucast w :: u32) = unat w"
  by (simp add: unsigned_ucast_eq take_bit_nat_eq_self)

lemma page_up:
  assumes "b = 4096 * B + r" "r < (4096 :: nat)"
  shows "(b + 4095) div 4096 = (if r = 0 then B else B + 1)"
proof (cases r)
  case (Suc r')
  then have "b + 4095 = 4096 * (B + 1) + r'" "r' < 4096" using assms by simp_all
  then have "(b + 4095) div 4096 = B + 1" by simp
  then show ?thesis using Suc by simp
qed (simp add: assms)

text \<open>The words of \<open>usable_region\<close> do not wrap when the region holds a page.\<close>

lemma usable_region_words:
  assumes "4096 \<le> unat wl" "unat wb + unat wl \<le> 4294934528" "usable_region wb wl = (start, len)"
  shows "unat start = (if 4096 dvd unat wb then unat wb else unat wb + (4096 - unat wb mod 4096))"
    "unat len = unat wl - unat wl mod 4096 - (if 4096 dvd unat wb then 0 else 4096 - unat wb mod 4096)"
proof -
  have st: "start = (if 0 < wb mod 4096 then wb + (4096 - wb mod 4096) else wb)"
    and ln: "len = (if 0 < wb mod 4096 then wl - (4096 - wb mod 4096) else wl) - wl mod 4096"
    using assms(3) by (auto simp: usable_region_def Let_def split: if_splits)
  have bm: "unat (wb mod 4096) = unat wb mod 4096" "unat (wl mod 4096) = unat wl mod 4096" by (simp_all add: unat_mod)
  have pos: "0 < wb mod 4096 \<longleftrightarrow> \<not> 4096 dvd unat wb"
    using bm(1) by (simp add: word_less_nat_alt dvd_eq_mod_eq_0)
  have up: "unat (4096 - wb mod 4096) = 4096 - unat wb mod 4096"
    by (subst unat_sub) (simp_all add: word_le_nat_alt unat_mod)
  have "unat (wb + (4096 - wb mod 4096)) = unat wb + (4096 - unat wb mod 4096)"
    using assms(1,2) by (subst unat_word_ariths) (simp add: up)
  then show "unat start = (if 4096 dvd unat wb then unat wb else unat wb + (4096 - unat wb mod 4096))"
    by (cases "4096 dvd unat wb") (simp_all only: st pos if_True if_False simp_thms)
  have "unat wl = unat wl div 4096 * 4096 + unat wl mod 4096" "1 \<le> unat wl div 4096" using assms(1) by simp_all
  then have k: "unat wl mod 4096 + 4096 \<le> unat wl" by linarith
  show "unat len = unat wl - unat wl mod 4096 - (if 4096 dvd unat wb then 0 else 4096 - unat wb mod 4096)"
  proof (cases "4096 dvd unat wb")
    case True
    then have "len = wl - wl mod 4096" by (simp only: ln pos if_False simp_thms)
    then show ?thesis using True k by (simp add: unat_sub word_le_nat_alt unat_mod)
  next
    case False
    have "unat (wl - (4096 - wb mod 4096)) = unat wl - (4096 - unat wb mod 4096)"
      using up k by (subst unat_sub) (simp_all add: word_le_nat_alt)
    moreover have "len = wl - (4096 - wb mod 4096) - wl mod 4096"
      using False by (simp only: ln pos if_True simp_thms)
    ultimately show ?thesis using False bm k by (simp add: unat_sub word_le_nat_alt add.commute)
  qed
qed

lemma usable_region_bounds:
  assumes "below_end e" "usable_region (ucast (entry_base e)) (ucast (entry_length e)) = (start, len)"
  shows "unat start div 4096 = (unat (entry_base e) + 4095) div 4096" "unat len = region_length e"
    "unat (len div PAGE_SIZE) = region_count e"
    "(unat (entry_base e) + 4095) div 4096 + region_count e \<le> NPAGES"
proof -
  define b l where "b = unat (entry_base e)" and "l = unat (entry_length e)"
  have l: "4096 \<le> l" "b + l \<le> 4294934528"
    using assms(1) by (simp_all add: below_end_def word_le_nat_alt b_def l_def)
  have w: "unat (ucast (entry_base e) :: u32) = b" "unat (ucast (entry_length e) :: u32) = l"
    using l by (simp_all add: b_def l_def unat_ucast_low)
  have "unat start = (if 4096 dvd b then b else b + (4096 - b mod 4096))"
    and n: "unat len = l - l mod 4096 - (if 4096 dvd b then 0 else 4096 - b mod 4096)"
    using usable_region_words [OF _ _ assms(2)] l unfolding w by blast+
  moreover define B q r where "B = b div 4096" and "q = l div 4096" and "r = b mod 4096"
  have bl: "b = 4096 * B + r" "l = 4096 * q + l mod 4096" "r < 4096" "l mod 4096 < 4096" "4096 dvd b \<longleftrightarrow> r = 0"
    by (simp_all add: B_def q_def r_def dvd_eq_mod_eq_0)
  have q: "1 \<le> q" using l(1) by (simp add: q_def)
  note up_page = page_up [OF bl(1,3)]
  ultimately have "unat start = 4096 * (if r = 0 then B else B + 1)" using bl(1,3,5) by (simp add: r_def [symmetric])
  then show "unat start div 4096 = (unat (entry_base e) + 4095) div 4096"
    using up_page by (simp add: b_def [symmetric])
  show "unat len = region_length e" using n by (simp only: region_length_def b_def l_def)
  have c: "region_count e = q - (if r = 0 then 0 else 1)"
    by (simp only: region_count_def b_def [symmetric] l_def [symmetric] q_def bl(5))
  have "l - l mod 4096 = 4096 * q" by (simp add: q_def minus_mod_eq_mult_div)
  moreover obtain q' where "q = Suc q'" using q by (cases q) auto
  ultimately have "unat len = 4096 * (q - (if r = 0 then 0 else 1)) + r"
    using n bl(3) by (simp add: bl(5) r_def [symmetric])
  then have "unat len div 4096 = q - (if r = 0 then 0 else 1)" using bl(3) by simp
  then show "unat (len div PAGE_SIZE) = region_count e" by (simp only: c unat_div) simp
  show "(unat (entry_base e) + 4095) div 4096 + region_count e \<le> NPAGES"
    using up_page c l(2) bl q by (simp only: b_def [symmetric] split: if_splits)
qed

lemma xlate_memManData [simp]: "xlate (s\<lparr>memManData := d\<rparr>) a = xlate s a"
  by (simp add: xlate_def Let_def)

lemma vload_memManData [simp]:
  "vload32 (s\<lparr>memManData := d\<rparr>) a = vload32 s a" "vload64 (s\<lparr>memManData := d\<rparr>) a = vload64 s a"
  by (simp_all add: vload64_def vload32_def)

lemma memory_map_memManData [simp]: "memory_map (s\<lparr>memManData := d\<rparr>) limit a es = memory_map s limit a es"
  by (induction es arbitrary: a) simp_all

lemma scast_low: "a < 0x80000000 \<Longrightarrow> (scast a :: u64) < ucast limit \<longleftrightarrow> (a :: u32) < limit"
proof -
  assume "a < 0x80000000"
  then have "unat a < 2 ^ 31" by (simp add: word_less_nat_alt)
  then have "sint a = uint a" using sint_small [of a] by simp
  then have "(scast a :: u64) = ucast a" by (simp only: scast_eq ucast_eq)
  moreover have "unat (ucast w :: u64) = unat w" for w :: u32
    using unsigned_less [of w, where ?'a = nat] by (simp add: unsigned_ucast_eq take_bit_nat_eq_self)
  ultimately show ?thesis by (simp only: word_less_nat_alt)
qed

text \<open>Of the pages \<open>P\<close> those in use are freed, and the counter goes down by their size.\<close>

definition frees :: "nat set \<Rightarrow> MemoryManagerData \<Rightarrow> MemoryManagerData \<Rightarrow> bool" where
  "frees P d d' \<longleftrightarrow> TotalMemory d' = TotalMemory d \<and> used_pages d' = used_pages d - P \<and>
     UsedMemory d' = UsedMemory d - PAGE_SIZE * of_nat (card (used_pages d \<inter> P))"

lemma of_nat_card_diff:
  "finite A \<Longrightarrow> (of_nat (card (A - P)) :: 'a::ring_1) = of_nat (card A) - of_nat (card (A \<inter> P))"
  by (simp add: card_Diff_subset_Int card_mono of_nat_diff)

lemma range_set_frees: "range_set p k False d d' \<Longrightarrow> frees {p ..< p + k} d d'"
  using of_nat_card_diff [of "used_pages d" "{p ..< p + k}", where ?'a = "32 word"]
  by (simp add: range_set_def frees_def right_diff_distrib)

lemma frees_trans:
  assumes "frees P d d1" "frees Q d1 d2"
  shows "frees (P \<union> Q) d d2"
proof -
  have "card (used_pages d \<inter> (P \<union> Q)) = card (used_pages d \<inter> P) + card ((used_pages d - P) \<inter> Q)"
    by (subst card_Un_disjoint [symmetric]) (auto intro: arg_cong [where f = card])
  then show ?thesis using assms by (auto simp: frees_def distrib_left)
qed

lemma loadMemoryMap_loop_prefix:
  assumes "memory_map s limit a (es @ es')" "\<forall>e \<in> set (usable es). below_end e"
  shows "\<exists>d' a'. loadMemoryMap_loop limit a t s =
       loadMemoryMap_loop limit a' (t + of_nat (\<Sum>e \<leftarrow> usable es. region_length e)) (s\<lparr>memManData := d'\<rparr>) \<and>
     memory_map s limit a' es' \<and> frees (\<Union>e \<in> set (usable es). region_pages e) (memManData s) d'"
  using assms
proof (induction es arbitrary: a t s)
  case Nil
  then show ?case
    by (intro exI [of _ "memManData s"] exI [of _ a]) (simp add: usable_def frees_def)
next
  case (Cons e es)
  let ?next = "a + entry_size e + 4"
  have head: "(scast a :: u64) < ucast limit" "vload32 s a = Some (entry_size e)" "vload64 s (a + 4) = Some (entry_base e)"
    "vload64 s (a + 12) = Some (entry_length e)" "vload32 s (a + 20) = Some (entry_type e)"
    "memory_map s limit ?next (es @ es')"
    using Cons.prems(1) by (simp_all add: scast_low)
  show ?case
  proof (cases "entry_type e = 1")
    case False
    then have "loadMemoryMap_loop limit a t s = loadMemoryMap_loop limit ?next t s"
      using head by (subst loadMemoryMap_loop.simps) simp
    with Cons.IH [OF head(6), of t] Cons.prems(2) False show ?thesis by (simp add: usable_def)
  next
    case True
    then have us: "usable (e # es) = e # usable es" by (simp add: usable_def)
    then have below: "below_end e" using Cons.prems(2) by simp
    obtain start len where region: "usable_region (ucast (entry_base e)) (ucast (entry_length e)) = (start, len)"
      by fastforce
    note bounds = usable_region_bounds [OF below region]
    obtain d1 where d1: "physicalFree start (len div PAGE_SIZE) (memManData s) = Some d1"
        "frees (region_pages e) (memManData s) d1"
      using physicalFree_range [of start "len div PAGE_SIZE" "memManData s"] bounds range_set_frees
      unfolding region_pages_def Let_def by fastforce
    have len: "len = of_nat (region_length e)" using bounds(2) by (metis of_nat_unat ucast_id)
    have step: "loadMemoryMap_loop limit a t s = loadMemoryMap_loop limit ?next (t + len) (s\<lparr>memManData := d1\<rparr>)"
      using head True region d1(1) by (subst loadMemoryMap_loop.simps) simp
    obtain d2 a' where d2: "loadMemoryMap_loop limit ?next (t + len) (s\<lparr>memManData := d1\<rparr>) =
          loadMemoryMap_loop limit a' (t + len + of_nat (\<Sum>e \<leftarrow> usable es. region_length e)) (s\<lparr>memManData := d2\<rparr>)"
        "memory_map s limit a' es'" "frees (\<Union>e \<in> set (usable es). region_pages e) d1 d2"
      using Cons.IH [of "s\<lparr>memManData := d1\<rparr>" ?next "t + len"] head(6) Cons.prems(2) us by auto
    show ?thesis unfolding us
      using step d2(1,2) len frees_trans [OF d1(2) d2(3)]
      by (intro exI [of _ d2] exI [of _ a']) (simp add: algebra_simps)
  qed
qed

lemma loadMemoryMap_loop_end: "memory_map s limit a [] \<Longrightarrow> loadMemoryMap_loop limit a t s' = Some (t, s')"
  by (subst loadMemoryMap_loop.simps) (simp add: scast_low leD)

lemma region_pages_inside:
  assumes "p \<in> region_pages e"
  shows "unat (entry_base e) \<le> p * 4096 \<and> (p + 1) * 4096 \<le> unat (entry_base e) + unat (entry_length e)"
proof -
  let ?b = "unat (entry_base e)" and ?l = "unat (entry_length e)"
  have p: "(?b + 4095) div 4096 \<le> p" "p < (?b + 4095) div 4096 + region_count e"
    using assms by (auto simp: region_pages_def Let_def)
  then have "?b \<le> p * 4096" by simp
  moreover have "(p + 1) * 4096 \<le> ?b + ?l"
  proof (cases "4096 dvd ?b")
    case True
    then obtain B where B: "?b = 4096 * B" by blast
    with p(2) have "p < B + ?l div 4096" by (simp add: region_count_def)
    then have "(p + 1) * 4096 \<le> (B + ?l div 4096) * 4096" by simp
    also have "\<dots> \<le> ?b + ?l" using B div_times_less_eq_dividend [of ?l 4096] by (simp add: distrib_right)
    finally show ?thesis .
  next
    case False
    have "(?b + 4095) div 4096 \<le> ?b div 4096 + 1"
      using div_le_mono [of "?b + 4095" "?b + 4096" 4096] by simp
    with False p have "p + 1 \<le> ?b div 4096 + ?l div 4096" by (simp add: region_count_def)
    then have "(p + 1) * 4096 \<le> (?b div 4096 + ?l div 4096) * 4096" by (rule mult_le_mono1)
    also have "\<dots> \<le> ?b + ?l"
      using div_times_less_eq_dividend [of ?l 4096] div_times_less_eq_dividend [of ?b 4096]
      by (simp only: distrib_right add_mono)
    finally show ?thesis .
  qed
  ultimately show ?thesis ..
qed

lemma region_pages_almost_all:
  assumes "unat (entry_base e) \<le> p * 4096" "(p + 2) * 4096 \<le> unat (entry_base e) + unat (entry_length e)"
  shows "p \<in> region_pages e"
proof -
  define b l B q rb rl where "b = unat (entry_base e)" and "l = unat (entry_length e)" and "B = b div 4096"
    and "q = l div 4096" and "rb = b mod 4096" and "rl = l mod 4096"
  have bl: "b = 4096 * B + rb" "l = 4096 * q + rl" "rb < 4096" "rl < 4096"
    by (simp_all add: B_def q_def rb_def rl_def)
  have p: "b \<le> p * 4096" "(p + 2) * 4096 \<le> b + l" using assms by (simp_all add: b_def l_def)
  have up: "(b + 4095) div 4096 = (if rb = 0 then B else B + 1)"
  proof (cases rb)
    case (Suc r)
    then have "b + 4095 = 4096 * (B + 1) + r" "r < 4096" using bl(1,3) by simp_all
    then show ?thesis using Suc by simp
  qed (use bl(1) in simp)
  have count: "region_count e = q - (if rb = 0 then 0 else 1)"
    by (simp add: region_count_def q_def rb_def b_def l_def dvd_eq_mod_eq_0)
  have "(b + 4095) div 4096 \<le> p \<and> p < (b + 4095) div 4096 + region_count e"
    unfolding up count using p bl by (cases "rb = 0") auto
  then show ?thesis by (simp add: region_pages_def Let_def b_def)
qed

lemma short_region_wraps:
  assumes "unat base mod 4096 \<noteq> 0" "sz < PAGE_SIZE" "usable_region base sz = (start, len)"
  shows "unat (len div PAGE_SIZE) = 1048575"
proof -
  define r where "r = base mod PAGE_SIZE"
  have r: "0 < unat r" "unat r < 4096" "0 < r" using assms(1) by (simp_all add: r_def unat_mod word_less_nat_alt)
  have "sz mod PAGE_SIZE = sz" using assms(2) by (simp add: word_arith_nat_mod word_less_nat_alt)
  then have "len = - (PAGE_SIZE - r)"
    using assms(3) r(3) by (auto simp: usable_region_def Let_def r_def [symmetric] split: if_splits)
  then have "len = r - PAGE_SIZE" by simp
  then have "unat len = 4294967296 - 4096 + unat r" using r(2) by (simp add: unat_sub_if' )
  then have "unat len div 4096 = 1048575" using r by simp
  then show ?thesis by (simp add: unat_div)
qed

lemma all_pages_overrun:
  assumes "unat n = 1048575"
  shows "physicalFree a n d = None"
proof -
  define j where "j = NPAGES - unat a div 4096"
  have a: "unat a div 4096 < 1048576" using unsigned_less [of a, where ?'a = nat] by simp
  have "unat ((a + of_nat j * PAGE_SIZE) div PAGE_SIZE) = unat a div 4096 + j"
    using a by (intro page_of_offset) (simp add: j_def)
  then have "\<not> unat ((a + of_nat j * PAGE_SIZE) div PAGE_SIZE) < NPAGES" by (simp add: j_def)
  then have "PHYSICAL_ALLOCATOR_IS_USED d (a + of_nat j * PAGE_SIZE) = None" for d
    using is_used_page [OF refl, of d "a + of_nat j * PAGE_SIZE"] by simp
  then show ?thesis unfolding physicalFree_def
    by (intro for_rangeM_None [where j = j]) (simp_all add: assms j_def)
qed

text \<open>A machine with a boot loader's map of two regions of usable memory around a reserved one.\<close>

definition table_machine :: "u32 list \<Rightarrow> machine" where
  "table_machine ws = \<lparr>ram = (\<lambda>a. if 0x500 \<le> a \<and> unat a < 0x500 + 4 * length ws
       then ucast (drop_bit (8 * (unat a mod 4)) (ws ! ((unat a - 0x500) div 4))) else 0),
     memManData = \<lparr>TotalMemory = 0, UsedMemory = 0, PhysicalAllocation = (\<lambda>_. 0xFF)\<rparr>,
     cr3_reg = 0, paging = False, interrupts = False\<rparr>"

definition pc_multiboot :: "u32 \<Rightarrow> MultibootInfo" where
  "pc_multiboot len = \<lparr>mb_flags = 0, memLower = 0, mumUpper = 0, bootDevice = 0, cmdLine = 0, modsCount = 0,
     modsAddress = 0, mmapLength = len, mmapAddress = 0x500\<rparr>"

definition pc_entries :: "mmap_entry list" where
  "pc_entries = [Entry 20 0 0x9FC00 1, Entry 20 0x9FC00 0x60400 2, Entry 20 0x100000 0x1000000 1]"

definition pc_table :: "u32 list" where
  "pc_table = [20, 0, 0, 0x9FC00, 0, 1, 20, 0x9FC00, 0, 0x60400, 0, 2, 20, 0x100000, 0, 0x1000000, 0, 1]"

definition pc_machine :: machine where
  "pc_machine = table_machine pc_table"

lemma pc_memory_map: "memory_map pc_machine 0x548 0x500 pc_entries"
  by (simp add: pc_entries_def pc_machine_def pc_table_def table_machine_def vload64_def vload32_def xlate_def load32_def)

lemma pc_usable:
  "usable pc_entries = [Entry 20 0 0x9FC00 1, Entry 20 0x100000 0x1000000 1]"
  "(\<Union>e \<in> set (usable pc_entries). region_pages e) = {0 ..< 159} \<union> {256 ..< 4352}"
  "(\<Sum>e \<leftarrow> usable pc_entries. region_length e) = 0x109F000" "\<forall>e \<in> set (usable pc_entries). below_end e"
proof -
  show us: "usable pc_entries = [Entry 20 0 0x9FC00 1, Entry 20 0x100000 0x1000000 1]"
    by (simp add: usable_def pc_entries_def)
  show "(\<Union>e \<in> set (usable pc_entries). region_pages e) = {0 ..< 159} \<union> {256 ..< 4352}"
    by (simp add: us region_pages_def region_count_def)
  show "(\<Sum>e \<leftarrow> usable pc_entries. region_length e) = 0x109F000" by (simp add: us region_length_def)
  show "\<forall>e \<in> set (usable pc_entries). below_end e" by (simp add: us below_end_def)
qed

section \<open>Properties\<close>

text \<open>
  Property C17: \<open>loadMemoryMap\<close> returns for every map whose usable regions have at least a page and end
  below \<open>0xFFFF8000\<close>. It frees pages of usable regions only, each of them wholly inside its region,
  and leaves out at most the last whole page of a region; the total is the sum of the lengths it
  cut the regions to, and the count of used memory goes down by a page for each page freed.
\<close>

theorem loadMemoryMap_frees_usable:
  assumes "memory_map s (mmapAddress mb + mmapLength mb) (mmapAddress mb) es"
    and "\<forall>e \<in> set (usable es). below_end e"
  shows "\<exists>d'. loadMemoryMap mb s = Some (of_nat (\<Sum>e \<leftarrow> usable es. region_length e), s\<lparr>memManData := d'\<rparr>) \<and>
     used_pages d' = used_pages (memManData s) - (\<Union>e \<in> set (usable es). region_pages e) \<and>
     UsedMemory d' = UsedMemory (memManData s) - PAGE_SIZE * of_nat (card (used_pages (memManData s) - used_pages d')) \<and>
     (\<forall>e \<in> set (usable es). \<forall>p.
        (p \<in> region_pages e \<longrightarrow>
           unat (entry_base e) \<le> p * 4096 \<and> (p + 1) * 4096 \<le> unat (entry_base e) + unat (entry_length e)) \<and>
        (unat (entry_base e) \<le> p * 4096 \<and> (p + 2) * 4096 \<le> unat (entry_base e) + unat (entry_length e) \<longrightarrow>
           p \<in> region_pages e))"
proof -
  obtain d' where "loadMemoryMap mb s = Some (of_nat (\<Sum>e \<leftarrow> usable es. region_length e), s\<lparr>memManData := d'\<rparr>)"
      "frees (\<Union>e \<in> set (usable es). region_pages e) (memManData s) d'"
    using loadMemoryMap_loop_prefix [of s _ _ es "[]", OF _ assms(2), of _ _ 0] assms(1) loadMemoryMap_loop_end
    unfolding loadMemoryMap_def by fastforce
  moreover from this(2) have "used_pages (memManData s) - used_pages d' =
      used_pages (memManData s) \<inter> (\<Union>e \<in> set (usable es). region_pages e)"
    by (auto simp: frees_def)
  ultimately show ?thesis
    using region_pages_inside region_pages_almost_all by (intro exI [of _ d']) (simp add: frees_def)
qed

theorem loadMemoryMap_frees_usable_witness:
  "\<exists>d'. loadMemoryMap (pc_multiboot 72) pc_machine = Some (0x109F000, pc_machine\<lparr>memManData := d'\<rparr>) \<and>
     used_pages d' = used_pages (memManData pc_machine) - ({0 ..< 159} \<union> {256 ..< 4352})"
proof -
  have tot: "(of_nat (\<Sum>e \<leftarrow> usable pc_entries. region_length e) :: u32) = 0x109F000" by (simp only: pc_usable(3)) simp
  have "memory_map pc_machine (mmapAddress (pc_multiboot 72) + mmapLength (pc_multiboot 72))
      (mmapAddress (pc_multiboot 72)) pc_entries"
    using pc_memory_map by (simp add: pc_multiboot_def)
  then show ?thesis
    using loadMemoryMap_frees_usable [of pc_machine "pc_multiboot 72" pc_entries] pc_usable(4) unfolding pc_usable(2) tot by blast
qed

text \<open>
  Property C39: a usable region that begins inside a page and is shorter than a page makes the length
  wrap below zero, so that \<open>physicalFree\<close> is asked for all of the address space and runs past the end
  of the bitmap.
\<close>

theorem short_region_stops_boot:
  assumes "memory_map s (mmapAddress mb + mmapLength mb) (mmapAddress mb) (es @ e # es')"
    and "\<forall>e \<in> set (usable es). below_end e"
    and "entry_type e = 1" "\<not> 4096 dvd unat (entry_base e)" "unat (entry_length e) < 4096"
  shows "loadMemoryMap mb s = None"
proof -
  let ?limit = "mmapAddress mb + mmapLength mb"
  obtain d a t where loop: "loadMemoryMap mb s = loadMemoryMap_loop ?limit a t (s\<lparr>memManData := d\<rparr>)"
      "memory_map s ?limit a (e # es')"
    using loadMemoryMap_loop_prefix [OF assms(1,2), of 0] unfolding loadMemoryMap_def by auto
  obtain start len where region: "usable_region (ucast (entry_base e)) (ucast (entry_length e)) = (start, len)"
    by fastforce
  have "unat (ucast (entry_base e) :: u32) mod 4096 \<noteq> 0"
    using assms(4) by (simp add: dvd_eq_mod_eq_0 unsigned_ucast_eq take_bit_eq_mod mod_mod_cancel)
  moreover have "(ucast (entry_length e) :: u32) < PAGE_SIZE"
    using assms(5) by (simp add: word_less_nat_alt unat_ucast_low)
  ultimately have "physicalFree start (len div PAGE_SIZE) d = None"
    using region by (intro all_pages_overrun short_region_wraps)
  then show ?thesis
    using loop assms(3) region by (simp add: scast_low loadMemoryMap_loop.simps)
qed

theorem short_region_stops_boot_witness:
  "loadMemoryMap (pc_multiboot 24) (table_machine [20, 0x9FC00, 0, 0x400, 0, 1]) = None"
  by (rule short_region_stops_boot [where es = "[]" and e = "Entry 20 0x9FC00 0x400 1" and es' = "[]"])
    (simp_all add: pc_multiboot_def table_machine_def vload64_def vload32_def xlate_def load32_def usable_def)
end
