(* ===== verification/Boot_Paging.thy ===== *)
theory Boot_Paging
  imports Boot_Memory
begin

text \<open>
  \<open>MemoryManager::init\<close>: from the machine the boot loader hands over, with paging off, to the kernel's
  address space. The facts follow the code: the kernel's tables in its directory, the identity
  mappings of the image, of low memory and of the modules, and at last paging.
\<close>

section \<open>Before paging\<close>

text \<open>Before paging is on, with the kernel's tables already in its directory.\<close>

definition direct :: "layout \<Rightarrow> machine \<Rightarrow> bool" where
  "direct L s \<longleftrightarrow> layout_ok L \<and> \<not> paging s \<and> dir_at L s (kernelPageDirectory L)"

text \<open>
  The pages \<open>A\<close> were mapped to themselves and taken, as \<open>identityMap\<close> does; all else is as it was.
\<close>

definition balance :: "MemoryManagerData \<Rightarrow> u32" where
  "balance d = UsedMemory d - PAGE_SIZE * of_nat (card (used_pages d))"

definition identity_mapped :: "layout \<Rightarrow> nat set \<Rightarrow> machine \<Rightarrow> machine \<Rightarrow> bool" where
  "identity_mapped L A s s' \<longleftrightarrow> direct L s' \<and> cr3_reg s' = cr3_reg s \<and>
     used_pages (memManData s') = used_pages (memManData s) \<union> A \<and>
     TotalMemory (memManData s') = TotalMemory (memManData s) \<and> balance (memManData s') = balance (memManData s) \<and>
     (\<forall>p < 262144. if p \<in> A then entry_present (kentry L s' p) \<and> entry_frame (kentry L s' p) = of_nat p
        else kentry L s' p = kentry L s p) \<and>
     (\<forall>a. unat a div 4096 \<notin> reserved_pages L \<longrightarrow> ram s' a = ram s a)"

lemma range_set_balance: "range_set p k u d d' \<Longrightarrow> balance d' = balance d"
  by (simp add: range_set_def balance_def algebra_simps)

lemma xlate_direct: "\<not> paging s \<Longrightarrow> xlate s a = Some a"
  by (simp add: xlate_def)

lemma load_direct: "\<not> paging s \<Longrightarrow> vload32 s a = Some (load32 (ram s) a)"
  "\<not> paging s \<Longrightarrow> vstore32 a w s = Some (s\<lparr>ram := store32 (ram s) a w\<rparr>)"
  by (simp_all add: vload32_def vstore32_def xlate_direct)

lemma direct_walk:
  assumes "direct L s" "unat va < 0x40000000"
  shows "\<exists>e. vload32 s (GetPageDirectoryEntry (kernelPageDirectory L) va) = Some e \<and> entry_present e"
    "GetPageTableEntry s (kernelPageDirectory L) va = Some (kentry_addr L (unat va div 4096))"
  using assms kernel_entry_addr [of L s "kernelPageDirectory L" va]
  by (simp_all add: direct_def load_direct GetPageDirectoryEntry_def GetPageTableEntry_def GetPageTable_def)

interpretation direct: directory_walk L "kernelPageDirectory L" "direct L" "\<lambda>_ _. True" for L
  by unfold_locales
    (use direct_walk in \<open>auto simp: direct_def load_direct kentry_def put_entry_def [symmetric] dir_at_put_entry\<close>)

lemma identity_mapped_refl: "direct L s \<Longrightarrow> identity_mapped L {} s s"
  by (simp add: identity_mapped_def)

lemma identity_mapped_trans:
  assumes "identity_mapped L A s t" "identity_mapped L B t u"
  shows "identity_mapped L (A \<union> B) s u"
  using assms unfolding identity_mapped_def by (auto split: if_splits)

lemma unat_page_count:
  assumes "unat sz + 4096 \<le> 4294967295"
  shows "unat (PAGE_ALIGN sz div PAGE_SIZE) = unat sz div 4096 + 1"
proof -
  have "unat (sz mod 4096) = unat sz mod 4096" by (simp add: unat_mod)
  moreover have "unat (sz + 4096) = unat sz + 4096" using assms by (simp add: unat_word_ariths)
  ultimately have "unat (PAGE_ALIGN sz) = unat sz + 4096 - unat sz mod 4096"
    unfolding PAGE_ALIGN_def by (subst unat_sub) (simp_all add: word_le_nat_alt)
  also have "\<dots> = (unat sz div 4096 + 1) * 4096"
    using minus_mod_eq_div_mult [of "unat sz" 4096] mod_less_eq_dividend [of "unat sz" 4096] by (simp only: diff_add_assoc2 distrib_right mult_1)
  finally show ?thesis by (simp only: unat_div) simp
qed

lemma identityMap_direct:
  assumes s: "direct L s" and sz: "unat sz + 4096 \<le> 4294967295" and range: "unat a div 4096 + (unat sz div 4096 + 1) \<le> 262144"
  shows "\<exists>s'. identityMap (Suc (Suc fuel)) (kernelPageDirectory L) a sz s = Some s' \<and>
    identity_mapped L {unat a div 4096 ..< unat a div 4096 + (unat sz div 4096 + 1)} s s' \<and> interrupts s'"
proof -
  let ?n = "PAGE_ALIGN sz div PAGE_SIZE" and ?p = "unat a div 4096"
  note n = unat_page_count [OF sz]
  obtain d where d: "physicalAllocateAt a ?n (memManData s) = Some d" "range_set ?p (unat ?n) True (memManData s) d"
    using physicalAllocateAt_range [of a ?n "memManData s"] range n by auto
  define t where "t = (atomicEnable s)\<lparr>memManData := d\<rparr>"
  have t: "ram t = ram s" "cr3_reg t = cr3_reg s" "paging t = paging s" "memManData t = d" by (simp_all add: t_def atomicEnable_def)
  have ke: "kentry L t p = kentry L s p" for p using t by (simp add: kentry_def)
  have "direct L t" using s t by (simp add: direct_def dir_at_def)
  then obtain s' where s': "VirtualMap (Suc fuel) (kernelPageDirectory L) a a ?n False t = Some s'" "direct L s'"
      "mapped L ?p (unat ?n) (drop_bit 12 a) False t s'"
    using direct.VirtualMap_writes [of L t a ?n a fuel False] range n by auto
  have fr: "drop_bit 12 a + (of_nat p - of_nat ?p) = of_nat p" "unat (of_nat p :: u32) < 1048576" if "p < 262144" for p
  proof -
    have "drop_bit 12 a = of_nat ?p" by (metis of_nat_unat ucast_id unat_drop_12)
    then show "drop_bit 12 a + (of_nat p - of_nat ?p) = of_nat p" by simp
    show "unat (of_nat p :: u32) < 1048576" using that by (simp add: unat_of_nat32)
  qed
  have "identity_mapped L {?p ..< ?p + unat ?n} s (atomicDisable s')"
    using s'(2,3) d(2) t ke fr range_set_balance [OF d(2)]
    by (auto simp: identity_mapped_def mapped_def range_set_def direct_def dir_at_def kentry_def atomicDisable_def reserved_pages_def)
  moreover have "identityMap (Suc (Suc fuel)) (kernelPageDirectory L) a sz s = Some (atomicDisable s')"
    using d(1) s'(1) by (simp add: Let_def t_def atomicEnable_def del: VirtualMap.simps)
  ultimately show ?thesis unfolding n by (auto simp: atomicDisable_def)
qed

lemma pd_page:
  assumes "layout_ok L"
  shows "kernelPageDirectory L = of_nat (unat (kernelPageDirectory L) div 4096) * 4096" (is ?eq)
    "unat (kernelPageDirectory L) div 4096 < 262144" "unat (kernelPageDirectory L) div 4096 \<notin> table_pages L"
proof -
  let ?pd = "unat (kernelPageDirectory L)" and ?pt = "unat (kernelPageTable L)"
  have al: "?pd mod 4096 = 0" "?pt mod 4096 = 0" "?pd + 0x1000 \<le> 0x40000000"
    "?pd + 0x1000 \<le> ?pt \<or> ?pt + 0x100000 \<le> ?pd" using assms by (simp_all add: layout_ok_def)
  obtain p where p: "?pd = p * 4096" using al(1) by auto
  obtain t where t: "?pt = t * 4096" using al(2) by auto
  have "drop_bit 12 (kernelPageDirectory L) = of_nat (?pd div 4096)" by (metis of_nat_unat ucast_id unat_drop_12)
  then show ?eq using align_12 [OF al(1)] by simp
  show "?pd div 4096 < 262144" "?pd div 4096 \<notin> table_pages L" using al(3,4) unfolding table_pages_def p t by auto
qed

lemma mapKernelPageTable_direct:
  assumes L: "layout_ok L" and s: "\<not> paging s"
  shows "\<exists>s'. mapKernelPageTable L (kernelPageDirectory L) s = Some s' \<and> direct L s' \<and>
    frames_differ L {unat (kernelPageDirectory L) div 4096} s s'"
proof -
  let ?f = "unat (kernelPageDirectory L) div 4096"
  note pd = pd_page [OF L]
  have x: "xlate t (kernelPageDirectory L + 4 * of_nat k) = Some (of_nat ?f * 4096 + 4 * of_nat k)"
    if "frames_differ L {?f} s t" for t k
    using that s pd(1) by (simp add: frames_differ_def xlate_direct)
  have "?f < 1048576" using pd(2) by simp
  then show ?thesis
    using mapKernelPageTable_writes [OF L _ pd(3), of s, OF _ x] s L pd(1)
    by (auto simp: direct_def frames_differ_def)
qed

lemma identity_mapped_after:
  assumes "layout_ok L" "frames_differ L F s t" "F \<subseteq> reserved_pages L" "identity_mapped L A t u"
  shows "identity_mapped L A s u"
  using assms kentry_frames [OF assms(1,2)] unfolding identity_mapped_def frames_differ_def by auto

lemma kernel_extent:
  assumes "unat (start_symbol L) \<le> unat (kernel_end L)" "unat (kernel_end L) div 4096 + 2 \<le> 262144"
  defines "sz0 \<equiv> (kernel_end L - start_symbol L) + start_symbol L mod PAGE_SIZE"
  shows "unat (start_symbol L - start_symbol L mod PAGE_SIZE) div 4096 = unat (start_symbol L) div 4096"
    "unat (sz0 + (PAGE_SIZE - sz0 mod PAGE_SIZE)) = (unat (kernel_end L) div 4096 - unat (start_symbol L) div 4096 + 1) * 4096"
proof -
  define s e where "s = unat (start_symbol L)" and "e = unat (kernel_end L)"
  define q r where "q = s div 4096" and "r = s mod 4096"
  define q' r' where "q' = e div 4096" and "r' = e mod 4096"
  have s: "s = q * 4096 + r" "r < 4096" and e: "e = q' * 4096 + r'" "r' < 4096"
    by (simp_all add: q_def r_def q'_def r'_def)
  have le: "s \<le> e" "q' + 2 \<le> 262144" using assms(1,2) by (simp_all add: s_def e_def q'_def)
  then have qq: "q \<le> q'" by (simp add: q_def q'_def div_le_mono)
  have m: "unat (start_symbol L mod PAGE_SIZE) = r" by (simp add: unat_mod r_def s_def)
  then have "unat (start_symbol L - start_symbol L mod PAGE_SIZE) = q * 4096"
    using s by (subst unat_sub) (simp_all add: word_le_nat_alt s_def [symmetric])
  then show "unat (start_symbol L - start_symbol L mod PAGE_SIZE) div 4096 = unat (start_symbol L) div 4096"
    by (simp add: q_def s_def)
  have "unat (kernel_end L - start_symbol L) = e - s"
    using le(1) by (subst unat_sub) (simp_all add: word_le_nat_alt s_def e_def)
  then have z: "unat sz0 = (q' - q) * 4096 + r'"
    unfolding sz0_def using m le s e qq by (subst unat_word_ariths) (simp add: diff_mult_distrib)
  have zm: "unat (sz0 mod PAGE_SIZE) = r'" using e(2) by (simp add: unat_mod z)
  then have "unat (PAGE_SIZE - sz0 mod PAGE_SIZE) = 4096 - r'"
    using e(2) by (subst unat_sub) (simp_all add: word_le_nat_alt)
  then have "unat (sz0 + (PAGE_SIZE - sz0 mod PAGE_SIZE)) = (q' - q) * 4096 + r' + (4096 - r')"
    using z le(2) e(2) by (subst unat_word_ariths) simp
  then show "unat (sz0 + (PAGE_SIZE - sz0 mod PAGE_SIZE)) = (unat (kernel_end L) div 4096 - unat (start_symbol L) div 4096 + 1) * 4096"
    using e(2) by (simp add: q_def q'_def s_def e_def)
qed

lemma mapKernelMemory_direct:
  assumes L: "layout_ok L" and s: "\<not> paging s"
    and ext: "unat (start_symbol L) \<le> unat (kernel_end L)" "unat (kernel_end L) div 4096 + 2 \<le> 262144"
  shows "\<exists>s'. mapKernelMemory L s = Some s' \<and> interrupts s' \<and>
    identity_mapped L {unat (start_symbol L) div 4096 ..< unat (kernel_end L) div 4096 + 2} s s'"
proof -
  let ?pd = "kernelPageDirectory L"
  define st where "st = start_symbol L - start_symbol L mod PAGE_SIZE"
  define sz0 where "sz0 = (kernel_end L - start_symbol L) + start_symbol L mod PAGE_SIZE"
  define sz where "sz = sz0 + (PAGE_SIZE - sz0 mod PAGE_SIZE)"
  have st: "unat st div 4096 = unat (start_symbol L) div 4096"
    and sz: "unat sz = (unat (kernel_end L) div 4096 - unat (start_symbol L) div 4096 + 1) * 4096"
    using kernel_extent [OF ext] by (simp_all add: st_def sz_def sz0_def)
  have le: "unat (start_symbol L) div 4096 \<le> unat (kernel_end L) div 4096" by (rule div_le_mono [OF ext(1)])
  obtain t where t: "mapKernelPageTable L ?pd s = Some t" "direct L t" "frames_differ L {unat ?pd div 4096} s t"
    using mapKernelPageTable_direct [OF L s] by blast
  have n: "unat sz div 4096 + 1 = unat (kernel_end L) div 4096 + 2 - unat (start_symbol L) div 4096"
    unfolding sz using le by simp
  have "unat (kernel_end L) div 4096 - unat (start_symbol L) div 4096 + 1 \<le> 262143" using ext(2) by simp
  then have "unat sz \<le> 262143 * 4096" unfolding sz by (rule mult_le_mono1)
  then have "unat sz + 4096 \<le> 4294967295" by simp
  then obtain u where u: "identityMap (Suc (Suc 6)) ?pd st sz t = Some u" "interrupts u"
      "identity_mapped L {unat (start_symbol L) div 4096 ..< unat (kernel_end L) div 4096 + 2} t u"
    using identityMap_direct [OF t(2), of sz st 6] ext(2) le unfolding st n by auto
  have "mapKernelMemory L s = Some u"
    using t(1) u(1) by (simp add: mapKernelMemory_def Let_def MAP_FUEL_def st_def sz_def sz0_def eval_nat_numeral del: identityMap.simps)
  then show ?thesis using u(2) identity_mapped_after [OF L t(3) _ u(3)] by (auto simp: reserved_pages_def)
qed

section \<open>Modules\<close>

text \<open>The pages of a module that begins at \<open>fst m\<close> and ends at \<open>snd m\<close>.\<close>

definition module_pages :: "addr \<times> addr \<Rightarrow> nat set" where
  "module_pages m = {unat (fst m) div 4096 ..< unat (fst m) div 4096 + ((unat (snd m) - unat (fst m)) div 4096 + 1)}"

text \<open>
  The boot loader's table of modules: the modules lie in the kernel's gigabyte, the table does not lie
  where the kernel keeps its page tables.
\<close>

definition module_table :: "layout \<Rightarrow> memory \<Rightarrow> MultibootInfo \<Rightarrow> (addr \<times> addr) list \<Rightarrow> bool" where
  "module_table L m mb ms \<longleftrightarrow> length ms = unat (modsCount mb) \<and>
     (\<forall>i < length ms. let a = modsAddress mb + 16 * of_nat i
        in load32 m a = fst (ms ! i) \<and> load32 m (a + 4) = snd (ms ! i) \<and>
           unat (fst (ms ! i)) \<le> unat (snd (ms ! i)) \<and> module_pages (ms ! i) \<subseteq> {..< 262144} \<and>
           (\<forall>j < 8. unat (a + of_nat j) div 4096 \<notin> reserved_pages L))"

lemma module_table_word:
  assumes "module_table L m mb ms" "\<And>a. unat a div 4096 \<notin> reserved_pages L \<Longrightarrow> m' a = m a" "i < length ms"
  shows "load32 m' (modsAddress mb + 16 * of_nat i) = fst (ms ! i)" "load32 m' (modsAddress mb + 16 * of_nat i + 4) = snd (ms ! i)"
proof -
  let ?a = "modsAddress mb + 16 * of_nat i"
  have a: "load32 m ?a = fst (ms ! i)" "load32 m (?a + 4) = snd (ms ! i)"
    "\<And>j. j < 8 \<Longrightarrow> unat (?a + of_nat j) div 4096 \<notin> reserved_pages L"
    using assms(1,3) by (simp_all add: module_table_def Let_def)
  have eq: "m' (?a + j) = m (?a + j)" if "unat j < 8" for j :: u32
    using assms(2) a(3) [OF that] by simp
  have "load32 m' ?a = load32 m ?a" by (rule load32_cong, rule eq) (simp add: word_less_nat_alt)
  moreover have "load32 m' (?a + 4) = load32 m (?a + 4)"
    using eq [of 4] eq [of 5] eq [of 6] eq [of 7] by (simp add: load32_def add.assoc)
  ultimately show "load32 m' ?a = fst (ms ! i)" "load32 m' (?a + 4) = snd (ms ! i)" using a by simp_all
qed

lemma reserve_module:
  assumes s: "direct L s" and m: "unat st \<le> unat en" "module_pages (st, en) \<subseteq> {..< 262144}"
  shows "\<exists>d s'. physicalFree st ((en - st) div PAGE_SIZE) (memManData s) = Some d \<and>
    identityMap MAP_FUEL (kernelPageDirectory L) st (en - st) (s\<lparr>memManData := d\<rparr>) = Some s' \<and>
    identity_mapped L (module_pages (st, en)) s s' \<and> interrupts s'"
proof -
  let ?p = "unat st div 4096" and ?n = "(unat en - unat st) div 4096"
  have len: "unat (en - st) = unat en - unat st" using m(1) by (simp add: unat_sub word_le_nat_alt)
  have "?p + ?n \<in> module_pages (st, en)" by (simp add: module_pages_def)
  then have top: "?p + ?n < 262144" using m(2) by blast
  then obtain d where d: "physicalFree st ((en - st) div PAGE_SIZE) (memManData s) = Some d" "range_set ?p ?n False (memManData s) d"
    using physicalFree_range [of st "(en - st) div PAGE_SIZE" "memManData s"] by (auto simp: unat_div len)
  let ?t = "s\<lparr>memManData := d\<rparr>"
  have t: "direct L ?t" "\<And>p. kentry L ?t p = kentry L s p" using s by (simp_all add: direct_def dir_at_def kentry_def)
  have "unat en - unat st < 262144 * 4096" using top by (intro div_less_iff_less_mult [THEN iffD1]) simp_all
  then have "unat (en - st) + 4096 \<le> 4294967295" unfolding len by linarith
  then obtain s' where s': "identityMap (Suc (Suc 6)) (kernelPageDirectory L) st (en - st) ?t = Some s'" "interrupts s'"
      "identity_mapped L (module_pages (st, en)) ?t s'"
    using identityMap_direct [OF t(1), of "en - st" st 6] top unfolding len by (auto simp: module_pages_def)
  have "used_pages d \<union> module_pages (st, en) = used_pages (memManData s) \<union> module_pages (st, en)"
    using d(2) by (auto simp: range_set_def module_pages_def)
  then have "identity_mapped L (module_pages (st, en)) s s'"
    using s'(3) t(2) d(2) range_set_balance [OF d(2)] unfolding identity_mapped_def by (simp add: range_set_def)
  moreover have "MAP_FUEL = Suc (Suc 6)" by (simp add: MAP_FUEL_def)
  ultimately show ?thesis using d(1) s'(1,2) by metis
qed

lemma reserveModuleMemory_direct:
  assumes s: "direct L s" "interrupts s" and ms: "module_table L (ram s) mb ms"
  shows "\<exists>s'. reserveModuleMemory L mb s = Some s' \<and> identity_mapped L (\<Union>m \<in> set ms. module_pages m) s s' \<and> interrupts s'"
proof -
  let ?P = "\<lambda>k t. identity_mapped L (\<Union>m \<in> set (take k ms). module_pages m) s t \<and> interrupts t"
  let ?body = "\<lambda>moduleNum s. do {
       let module = modsAddress mb + 16 * moduleNum;
       modStart \<leftarrow> vload32 s module;
       modEnd \<leftarrow> vload32 s (module + 4);
       d \<leftarrow> physicalFree modStart ((modEnd - modStart) div PAGE_SIZE) (memManData s);
       identityMap MAP_FUEL (kernelPageDirectory L) modStart (modEnd - modStart) (s\<lparr>memManData := d\<rparr>)
     }"
  have len: "length ms = unat (modsCount mb)" using ms by (simp add: module_table_def)
  have "\<exists>t'. ?body (of_nat k) t = Some t' \<and> ?P (Suc k) t'" if k: "k < unat (modsCount mb)" and P: "?P k t" for k t
  proof -
    have k': "k < length ms" using k len by simp
    have t: "direct L t" "\<And>a. unat a div 4096 \<notin> reserved_pages L \<Longrightarrow> ram t a = ram s a"
      using P by (simp_all add: identity_mapped_def)
    note w = module_table_word [OF ms t(2) k']
    have m: "unat (fst (ms ! k)) \<le> unat (snd (ms ! k))" "module_pages (fst (ms ! k), snd (ms ! k)) \<subseteq> {..< 262144}"
      using ms k' by (simp_all add: module_table_def Let_def)
    obtain d t' where t': "physicalFree (fst (ms ! k)) ((snd (ms ! k) - fst (ms ! k)) div PAGE_SIZE) (memManData t) = Some d"
        "identityMap MAP_FUEL (kernelPageDirectory L) (fst (ms ! k)) (snd (ms ! k) - fst (ms ! k)) (t\<lparr>memManData := d\<rparr>) = Some t'"
        "identity_mapped L (module_pages (ms ! k)) t t'" "interrupts t'"
      using reserve_module [OF t(1) m] by auto
    have "\<not> paging t" using t(1) by (simp add: direct_def)
    then have "?body (of_nat k) t = Some t'" using t'(1,2) w by (simp add: load_direct)
    moreover have "(\<Union>m \<in> set (take (Suc k) ms). module_pages m) = (\<Union>m \<in> set (take k ms). module_pages m) \<union> module_pages (ms ! k)"
      using k' by (auto simp: take_Suc_conv_app_nth)
    ultimately show ?thesis using identity_mapped_trans [OF _ t'(3), of _ s] P t'(4) by simp
  qed
  then have "\<exists>s'. for_rangeM 0 (modsCount mb) ?body s = Some s' \<and> ?P (unat (modsCount mb)) s'"
    using for_rangeM_inv [of ?P s "modsCount mb" ?body] s identity_mapped_refl by simp
  then show ?thesis unfolding reserveModuleMemory_def len [symmetric] by simp
qed

text \<open>The first half of \<open>init\<close> in one step: everything below the end of the kernel's image, and the modules.\<close>

lemma map_low_memory:
  assumes L: "layout_ok L" and s: "\<not> paging s"
    and ext: "unat (start_symbol L) \<le> unat (kernel_end L)" "unat (kernel_end L) div 4096 + 2 \<le> 262144"
    and ms: "module_table L (ram s) mb ms"
  shows "\<exists>s2 s3 s4. mapKernelMemory L s = Some s2 \<and>
    identityMap MAP_FUEL (kernelPageDirectory L) 0 (start_symbol L) s2 = Some s3 \<and> reserveModuleMemory L mb s3 = Some s4 \<and>
    interrupts s4 \<and> identity_mapped L ({..< unat (kernel_end L) div 4096 + 2} \<union> (\<Union>m \<in> set ms. module_pages m)) s s4"
proof -
  let ?st = "unat (start_symbol L) div 4096" and ?en = "unat (kernel_end L) div 4096"
  obtain s2 where s2: "mapKernelMemory L s = Some s2" "identity_mapped L {?st ..< ?en + 2} s s2"
    using mapKernelMemory_direct [OF L s ext] by blast
  have le: "?st \<le> ?en" by (rule div_le_mono [OF ext(1)])
  have "unat (start_symbol L) < 262144 * 4096" using le ext(2) by (intro div_less_iff_less_mult [THEN iffD1]) simp_all
  then have sz: "unat (start_symbol L) + 4096 \<le> 4294967295" by linarith
  have fuel: "MAP_FUEL = Suc (Suc 6)" by (simp add: MAP_FUEL_def)
  have "direct L s2" using s2(2) by (simp add: identity_mapped_def)
  then obtain s3 where s3: "identityMap MAP_FUEL (kernelPageDirectory L) 0 (start_symbol L) s2 = Some s3" "interrupts s3"
      "identity_mapped L {0 ..< ?st + 1} s2 s3"
    using identityMap_direct [OF _ sz, of L s2 0 6] fuel le ext(2) by auto
  have join: "{a ..< b + 2} \<union> {0 ..< a + 1} = {..< b + 2}" if "a \<le> b" for a b :: nat using that by auto
  have low: "identity_mapped L {..< ?en + 2} s s3"
    using identity_mapped_trans [OF s2(2) s3(3)] unfolding join [OF le] .
  have "direct L s3" "module_table L (ram s3) mb ms"
    using low ms module_table_word [OF ms, of "ram s3"] by (auto simp: identity_mapped_def module_table_def Let_def)
  then obtain s4 where s4: "reserveModuleMemory L mb s3 = Some s4" "interrupts s4" "identity_mapped L (\<Union>m \<in> set ms. module_pages m) s3 s4"
    using reserveModuleMemory_direct s3(2) by blast
  show ?thesis using s2(1) s3(1) s4 identity_mapped_trans [OF low s4(3)] by blast
qed

section \<open>Paging on\<close>

text \<open>
  The layout the linker script gives: the tables and the directory are inside the image.
\<close>

definition image_ok :: "layout \<Rightarrow> bool" where
  "image_ok L \<longleftrightarrow> layout_ok L \<and> unat (start_symbol L) \<le> unat (kernel_end L) \<and>
     unat (kernelPageDirectory L) + 0x1000 \<le> unat (kernel_end L) \<and>
     unat (kernelPageTable L) + 0x100000 \<le> unat (kernel_end L) \<and> unat (kernel_end L) div 4096 + 2 \<le> 262144"

definition taken_pages :: "layout \<Rightarrow> (addr \<times> addr) list \<Rightarrow> nat set" where
  "taken_pages L ms = {..< unat (kernel_end L) div 4096 + 2} \<union> (\<Union>m \<in> set ms. module_pages m)"

lemma taken_pages_reserved:
  assumes "image_ok L"
  shows "insert 0 (reserved_pages L) \<subseteq> taken_pages L ms"
proof -
  let ?pd = "unat (kernelPageDirectory L)" and ?pt = "unat (kernelPageTable L)" and ?en = "unat (kernel_end L)"
  have L: "?pd + 0x1000 \<le> ?en" "?pt + 0x100000 \<le> ?en" using assms by (simp_all add: image_ok_def)
  have "?pd div 4096 \<le> ?en div 4096" using L(1) by (intro div_le_mono) simp
  moreover have "?pt div 4096 + 256 \<le> ?en div 4096" using div_le_mono [OF L(2), of 4096] by simp
  ultimately show ?thesis by (auto simp: taken_pages_def reserved_pages_def table_pages_def)
qed

text \<open>The pages \<open>A\<close> of the kernel's gigabyte translate to themselves, the others as they did.\<close>

definition mapped_in :: "layout \<Rightarrow> nat set \<Rightarrow> machine \<Rightarrow> machine \<Rightarrow> bool" where
  "mapped_in L A s s' \<longleftrightarrow> mm_inv L (kernelPageDirectory L) s' \<and> cr3_reg s' = kernelPageDirectory L \<and> interrupts s' \<and>
     (\<forall>a. unat a div 4096 \<in> A \<longrightarrow> xlate s' a = Some a) \<and>
     (\<forall>p < 262144. p \<notin> A \<longrightarrow> kentry L s' p = kentry L s p) \<and>
     (\<forall>a. unat a div 4096 \<notin> reserved_pages L \<longrightarrow> ram s' a = ram s a)"

lemma GetPhysicalAddress_direct:
  assumes s: "direct L s" and va: "unat va < 0x40000000"
    and e: "entry_frame (kentry L s (unat va div 4096)) = of_nat (unat va div 4096)"
  shows "GetPhysicalAddress s (kernelPageDirectory L) va = Some (of_nat (unat va div 4096) * 4096 + (va AND 0xFFF))"
proof -
  have "unat va div 4096 < 262144" using va by simp
  then show ?thesis
    using direct_walk(2) [OF s va] direct.reads [OF s] e by (simp add: GetPhysicalAddress_def)
qed

lemma enable_direct:
  assumes s: "identity_mapped L A s0 s" "interrupts s" and A: "insert 0 (reserved_pages L) \<subseteq> A" "A \<subseteq> {..< 262144}"
  shows "GetPhysicalAddress s (kernelPageDirectory L) (kernelPageDirectory L) = Some (kernelPageDirectory L) \<and>
    mapped_in L A s0 (enablePaging (changePageDirectory (kernelPageDirectory L) s))"
proof -
  let ?pd = "kernelPageDirectory L" and ?t = "enablePaging (changePageDirectory (kernelPageDirectory L) s)"
  have d: "direct L s" and L: "layout_ok L" using s by (simp_all add: identity_mapped_def direct_def)
  note pd = pd_page [OF L]
  have al: "unat ?pd mod 4096 = 0" "unat ?pd < 0x40000000" using L by (simp_all add: layout_ok_def)
  have ke: "entry_present (kentry L s p)" "entry_frame (kentry L s p) = of_nat p" if "p \<in> A" for p
    using s that A(2) by (auto simp: identity_mapped_def)
  have pdA: "unat ?pd div 4096 \<in> A" using A(1) by (auto simp: reserved_pages_def)
  have t: "kentry L ?t p = kentry L s p" "ram ?t = ram s" "memManData ?t = memManData s" "interrupts ?t = interrupts s"
      "cr3_reg ?t = ?pd" "paging ?t" for p
    by (simp_all add: kentry_def enablePaging_def changePageDirectory_def)
  have base: "push_bit 12 (entry_frame ?pd) = ?pd" using align_12 [OF al(1)] by (simp add: push_bit_12 entry_frame_def)
  have K: "kspace L ?t"
    using d A(1) ke t base by (auto simp: kspace_def direct_def dir_at_def)
  have pdok: "pd_ok L ?t ?pd"
    using d ke [OF pdA] t al pd(1) by (simp add: pd_ok_def push_bit_12 direct_def dir_at_def)
  have frame: "unat (kentry L s p) div 4096 = p" if "p \<in> A" for p
  proof -
    have "unat (entry_frame (kentry L s p)) = unat (kentry L s p) div 4096" by (simp add: entry_frame_def unat_drop_12)
    moreover have "p < 262144" using that A(2) by auto
    ultimately show ?thesis using ke(2) [OF that] by (simp add: unat_of_nat32)
  qed
  have "insert 0 (table_pages L) \<subseteq> A" "A \<subseteq> used_pages (memManData s)" using A(1) s(1) by (auto simp: reserved_pages_def identity_mapped_def)
  then have "mm_inv L ?pd ?t"
    using K pdok pdA frame [OF pdA] t unfolding mm_inv_def by auto
  moreover have "xlate ?t a = Some a" if a: "unat a div 4096 \<in> A" for a
  proof -
    have "unat a < 0x40000000" using a A(2) by (auto simp: div_less_iff_less_mult)
    then show ?thesis using xlate_kernel [OF K] ke [OF a] t(1) by (simp add: join_page)
  qed
  ultimately have "mapped_in L A s0 ?t" using s t by (simp add: mapped_in_def identity_mapped_def)
  moreover have "?pd AND 0xFFF = 0" using al(1) by (simp add: word_unat_eq_iff unat_low_bits)
  then have "GetPhysicalAddress s ?pd ?pd = Some ?pd"
    using GetPhysicalAddress_direct [OF d al(2) ke(2) [OF pdA]] pd(1) by simp
  ultimately show ?thesis by blast
qed

definition memory_message :: "u32 \<Rightarrow> u8 list" where
  "memory_message tot = ascii ''Total physical memory: '' @ decimal (tot div 1024 div 1024) @ ascii ''mb'' @ [13, 10]"

text \<open>Every page but the usable ones, after \<open>physicalAllocatorInit\<close>.\<close>

lemma frees_balance: "frees P d d' \<Longrightarrow> balance d' = balance d"
  using of_nat_card_diff [of "used_pages d" P, where ?'a = "32 word"]
  by (simp add: frees_def balance_def right_diff_distrib)

lemma physicalAllocatorInit_result:
  fixes k :: kernel
  defines "s \<equiv> hmachine (heap k)"
  assumes map: "memory_map s (mmapAddress mb + mmapLength mb) (mmapAddress mb) es" "\<forall>e \<in> set (usable es). below_end e"
    and buf: "buf \<noteq> 0"
  defines "tot \<equiv> of_nat (\<Sum>e \<leftarrow> usable es. region_length e)"
  shows "\<exists>d. physicalAllocatorInit fp buf mb k = Some (shown buf (memory_message tot) (upd_heap (\<lambda>h. h\<lparr>hmachine := s\<lparr>memManData := d\<rparr>\<rparr>) k)) \<and>
    used_pages d = {..< NPAGES} - (\<Union>e \<in> set (usable es). region_pages e) \<and> TotalMemory d = tot \<and> balance d = 0x8000"
proof -
  define d1 where "d1 = (memManData s)\<lparr>UsedMemory := 0, PhysicalAllocation := (\<lambda>i. if i < ALLOCATION_BYTES then 0xFF else PhysicalAllocation (memManData s) i)\<rparr>"
  have used1: "used_pages d1 = {..< NPAGES}"
  proof -
    have "page_used d1 p" if "p < NPAGES" for p
    proof -
      have "p mod 8 \<in> {0 ..< 8}" by simp
      then have "bit (0xFF :: u8) (p mod 8)" by (auto simp: atLeastLessThan_nat_numeral)
      moreover have "(of_nat (p div 8) :: u32) < ALLOCATION_BYTES"
        using that by (simp add: ALLOCATION_BYTES_eq word_less_nat_alt unat_of_nat32)
      ultimately show ?thesis by (simp add: page_used_def d1_def)
    qed
    then show ?thesis by (auto simp: used_pages_def)
  qed
  obtain d where d: "loadMemoryMap mb (s\<lparr>memManData := d1\<rparr>) = Some (tot, s\<lparr>memManData := d\<rparr>)"
      "frees (\<Union>e \<in> set (usable es). region_pages e) d1 d"
    using loadMemoryMap_loop_prefix [of "s\<lparr>memManData := d1\<rparr>" _ _ es "[]", OF _ map(2), of _ _ 0] map(1) loadMemoryMap_loop_end
    unfolding loadMemoryMap_def tot_def by fastforce
  let ?d = "d\<lparr>TotalMemory := tot\<rparr>"
  have up: "used_pages ?d = used_pages d" by (simp add: used_pages_def page_used_def)
  then have "used_pages ?d = {..< NPAGES} - (\<Union>e \<in> set (usable es). region_pages e)" using d(2) used1 by (simp add: frees_def)
  moreover have "balance ?d = 0x8000"
    using frees_balance [OF d(2)] up used1 by (simp add: balance_def) (simp add: d1_def)
  moreover have fmt: "ascii ''Total physical memory: %dmb'' @ [13, 10] = ascii ''Total physical memory: '' @ 37 # 100 # (ascii ''mb'' @ [13, 10])"
    by (simp add: ascii_def)
  have "kernel_printk fp buf (ascii ''Total physical memory: %dmb'' @ [13, 10]) [VWord (tot div 1024 div 1024)] k' =
      Some (shown buf (memory_message tot) k')" for k'
    unfolding fmt memory_message_def by (rule kernel_printk_decimal) (simp_all add: ascii_def buf)
  then have "physicalAllocatorInit fp buf mb k =
      Some (shown buf (memory_message tot) (upd_heap (\<lambda>h. h\<lparr>hmachine := s\<lparr>memManData := ?d\<rparr>\<rparr>) k))"
    unfolding physicalAllocatorInit_def Let_def s_def [symmetric] d1_def [symmetric] using d(1) by simp
  ultimately show ?thesis by (intro exI [of _ ?d]) simp
qed

section \<open>Initialisation\<close>

text \<open>What the memory manager's initialisation needs of the machine the boot loader hands over.\<close>

definition boot_ready :: "layout \<Rightarrow> MultibootInfo \<Rightarrow> mmap_entry list \<Rightarrow> (addr \<times> addr) list \<Rightarrow> machine \<Rightarrow> bool" where
  "boot_ready L mb es ms s \<longleftrightarrow> image_ok L \<and> \<not> paging s \<and>
     memory_map s (mmapAddress mb + mmapLength mb) (mmapAddress mb) es \<and> (\<forall>e \<in> set (usable es). below_end e) \<and>
     module_table L (ram s) mb ms"

text \<open>The machine after \<open>init\<close>; the count of used memory is too high by \<open>0x8000\<close>.\<close>

definition memory_ready :: "layout \<Rightarrow> mmap_entry list \<Rightarrow> (addr \<times> addr) list \<Rightarrow> machine \<Rightarrow> machine \<Rightarrow> bool" where
  "memory_ready L es ms s s' \<longleftrightarrow> mapped_in L (taken_pages L ms) s s' \<and>
     used_pages (memManData s') = ({..< NPAGES} - (\<Union>e \<in> set (usable es). region_pages e)) \<union> taken_pages L ms \<and>
     TotalMemory (memManData s') = of_nat (\<Sum>e \<leftarrow> usable es. region_length e) \<and>
     UsedMemory (memManData s') = PAGE_SIZE * of_nat (card (used_pages (memManData s'))) + 0x8000"

text \<open>The kernel after it: a message on the console, and the directory in use.\<close>

definition initialised :: "layout \<Rightarrow> addr \<Rightarrow> u32 \<Rightarrow> machine \<Rightarrow> kernel \<Rightarrow> kernel" where
  "initialised L buf tot s k = (shown buf (memory_message tot) k)\<lparr>heap := (heap k)\<lparr>hmachine := s,
     hsched := (hsched (heap k))\<lparr>cpu := (cpu (hsched (heap k)))\<lparr>cr3 := kernelPageDirectory L\<rparr>\<rparr>\<rparr>\<rparr>"

lemma taken_pages_bound:
  assumes "image_ok L" "module_table L m mb ms"
  shows "taken_pages L ms \<subseteq> {..< 262144}"
proof -
  have "module_pages x \<subseteq> {..< 262144}" if "x \<in> set ms" for x
    using that assms(2) by (auto simp: module_table_def Let_def in_set_conv_nth)
  then show ?thesis using assms(1) unfolding taken_pages_def image_ok_def by fastforce
qed

lemma memoryManager_init_ready:
  assumes ready: "boot_ready L mb es ms (hmachine (heap k))" and buf: "buf \<noteq> 0"
  shows "\<exists>s'. memoryManager_init fp buf L mb k = Some (initialised L buf (of_nat (\<Sum>e \<leftarrow> usable es. region_length e)) s' k) \<and>
    memory_ready L es ms (hmachine (heap k)) s'"
proof -
  let ?s = "hmachine (heap k)" and ?A = "taken_pages L ms" and ?pd = "kernelPageDirectory L"
  define tot where "tot = (of_nat (\<Sum>e \<leftarrow> usable es. region_length e) :: u32)"
  have img: "image_ok L" and np: "\<not> paging ?s" and mods: "module_table L (ram ?s) mb ms"
    and map: "memory_map ?s (mmapAddress mb + mmapLength mb) (mmapAddress mb) es" "\<forall>e \<in> set (usable es). below_end e"
    using ready by (auto simp: boot_ready_def)
  obtain d where d: "physicalAllocatorInit fp buf mb k =
        Some (shown buf (memory_message tot) (upd_heap (\<lambda>h. h\<lparr>hmachine := ?s\<lparr>memManData := d\<rparr>\<rparr>) k))"
      "used_pages d = {..< NPAGES} - (\<Union>e \<in> set (usable es). region_pages e)" "TotalMemory d = tot" "balance d = 0x8000"
    using physicalAllocatorInit_result [OF map buf] unfolding tot_def by blast
  let ?s1 = "?s\<lparr>memManData := d\<rparr>"
  have L: "layout_ok L" "unat (start_symbol L) \<le> unat (kernel_end L)" "unat (kernel_end L) div 4096 + 2 \<le> 262144"
    using img by (simp_all add: image_ok_def)
  obtain s2 s3 s4 where s: "mapKernelMemory L ?s1 = Some s2" "identityMap MAP_FUEL ?pd 0 (start_symbol L) s2 = Some s3"
      "reserveModuleMemory L mb s3 = Some s4" "interrupts s4" "identity_mapped L ?A ?s1 s4"
    using map_low_memory [OF L(1) _ L(2,3), of ?s1 mb ms] np mods unfolding taken_pages_def by auto
  let ?s5 = "enablePaging (changePageDirectory ?pd s4)"
  have on: "GetPhysicalAddress s4 ?pd ?pd = Some ?pd" "mapped_in L ?A ?s1 ?s5"
    using enable_direct [OF s(5,4) taken_pages_reserved [OF img] taken_pages_bound [OF img mods]] by auto
  have m: "memManData ?s5 = memManData s4" by (simp add: enablePaging_def changePageDirectory_def)
  have "mapped_in L ?A ?s ?s5" using on(2) by (simp add: mapped_in_def kentry_def)
  moreover have "used_pages (memManData ?s5) = ({..< NPAGES} - (\<Union>e \<in> set (usable es). region_pages e)) \<union> ?A"
      "TotalMemory (memManData ?s5) = tot" "balance (memManData ?s5) = 0x8000"
    using s(5) d(2-4) by (simp_all add: identity_mapped_def m)
  then have "UsedMemory (memManData ?s5) = PAGE_SIZE * of_nat (card (used_pages (memManData ?s5))) + 0x8000"
    by (simp add: balance_def algebra_simps)
  ultimately have "memory_ready L es ms ?s ?s5"
    using \<open>used_pages (memManData ?s5) = _\<close> \<open>TotalMemory (memManData ?s5) = tot\<close> by (simp add: memory_ready_def tot_def)
  moreover have "memoryManager_init fp buf L mb k = Some (initialised L buf tot ?s5 k)"
    using d(1) s(1-3) on(1) by (simp add: memoryManager_init_def initialised_def upd_heap_def shown_def)
  ultimately show ?thesis unfolding tot_def by blast
qed

text \<open>A machine with the map of memory above and one module, at five megabytes.\<close>

definition pc_loaded :: machine where
  "pc_loaded = table_machine (pc_table @ [0x500000, 0x501800, 0, 0])"

definition pc_info :: MultibootInfo where
  "pc_info = (pc_multiboot 72)\<lparr>modsCount := 1, modsAddress := 0x548\<rparr>"

definition pc_kernel :: kernel where
  "pc_kernel = (demo_kernel [])\<lparr>heap := boot_heap\<lparr>hmachine := pc_loaded\<rparr>\<rparr>"

lemma pc_taken: "taken_pages boot_layout [(0x500000, 0x501800)] = {..< 1026} \<union> {1280 ..< 1282}"
  by (simp add: taken_pages_def module_pages_def boot_layout_def)

lemma pc_ready: "boot_ready boot_layout pc_info pc_entries [(0x500000, 0x501800)] pc_loaded"
proof -
  have map: "memory_map pc_loaded (mmapAddress pc_info + mmapLength pc_info) (mmapAddress pc_info) pc_entries"
    by (simp add: pc_entries_def pc_loaded_def pc_info_def pc_multiboot_def pc_table_def table_machine_def vload64_def vload32_def
        xlate_def load32_def)
  have "unat (0x548 + of_nat j :: u32) div 4096 \<notin> reserved_pages boot_layout" if "j < 8" for j
  proof -
    have "unat (0x548 + of_nat j :: u32) = 0x548 + j" using that by (simp add: unat_word_ariths unat_of_nat32)
    then show ?thesis using that by (simp add: boot_pages)
  qed
  moreover have "load32 (ram pc_loaded) 0x548 = 0x500000" "load32 (ram pc_loaded) 0x54C = 0x501800"
    by (simp_all add: pc_loaded_def pc_table_def table_machine_def load32_def)
  moreover have "{1280 ..< 1282} \<subseteq> {..< 262144 :: nat}" by auto
  ultimately have "module_table boot_layout (ram pc_loaded) pc_info [(0x500000, 0x501800)]"
    by (simp add: module_table_def module_pages_def pc_info_def)
  moreover have "image_ok boot_layout" by (simp add: image_ok_def layout_ok_def boot_layout_def)
  moreover have "\<not> paging pc_loaded" by (simp add: pc_loaded_def table_machine_def)
  ultimately show ?thesis using map pc_usable(4) by (simp add: boot_ready_def)
qed

section \<open>Properties\<close>

text \<open>
  Property C5: whatever machine the boot loader hands over, with paging off, the image laid out as the
  linker script says, a map whose usable regions hold a page and end below the bitmap's end, and
  modules in the kernel's gigabyte: \<open>MemoryManager::init\<close> returns with paging on, in the kernel's
  directory, and with the invariant the memory manager keeps. Low memory, the image and the modules
  are mapped to themselves and their frames are in use; no other entry of the kernel's tables and no
  byte outside tables and directory has changed; every other frame is in use exactly if it
  is in no usable region. The counter of used memory is off by \<open>0x8000\<close>.
\<close>

theorem init_sets_up_paging:
  assumes "hmachine (heap k) = s" and "image_ok L" and "\<not> paging s" and "buf \<noteq> 0"
    and "memory_map s (mmapAddress mb + mmapLength mb) (mmapAddress mb) es" and "\<forall>e \<in> set (usable es). below_end e"
    and "module_table L (ram s) mb ms"
  shows "\<exists>k' s'. memoryManager_init fp buf L mb k = Some k' \<and> hmachine (heap k') = s' \<and>
    paging s' \<and> cr3_reg s' = kernelPageDirectory L \<and> mm_inv L (kernelPageDirectory L) s' \<and>
    (\<forall>a. unat a div 4096 \<in> taken_pages L ms \<longrightarrow> xlate s' a = Some a) \<and>
    (\<forall>p < 262144. p \<notin> taken_pages L ms \<longrightarrow> kentry L s' p = kentry L s p) \<and>
    (\<forall>a. unat a div 4096 \<notin> reserved_pages L \<longrightarrow> ram s' a = ram s a) \<and>
    used_pages (memManData s') = ({..< NPAGES} - (\<Union>e \<in> set (usable es). region_pages e)) \<union> taken_pages L ms \<and>
    TotalMemory (memManData s') = of_nat (\<Sum>e \<leftarrow> usable es. region_length e) \<and>
    UsedMemory (memManData s') = PAGE_SIZE * of_nat (card (used_pages (memManData s'))) + 0x8000"
proof -
  let ?tot = "of_nat (\<Sum>e \<leftarrow> usable es. region_length e)"
  have "boot_ready L mb es ms (hmachine (heap k))" using assms by (simp add: boot_ready_def)
  then obtain s' where s': "memoryManager_init fp buf L mb k = Some (initialised L buf ?tot s' k)" "memory_ready L es ms s s'"
    using memoryManager_init_ready assms(1,4) by blast
  have "hmachine (heap (initialised L buf ?tot s' k)) = s'" by (simp add: initialised_def)
  then show ?thesis
    using s' by (intro exI [of _ "initialised L buf ?tot s' k"] exI [of _ s'])
      (simp add: memory_ready_def mapped_in_def, simp add: mm_inv_def kspace_def)
qed

theorem init_sets_up_paging_witness:
  "\<exists>k' s'. memoryManager_init blank_fpu 0x900 boot_layout pc_info pc_kernel = Some k' \<and> hmachine (heap k') = s' \<and>
     mm_inv boot_layout 0x200000 s' \<and> xlate s' 0xB8000 = Some 0xB8000 \<and> xlate s' 0x501234 = Some 0x501234 \<and>
     1280 \<in> used_pages (memManData s') \<and> 1300 \<notin> used_pages (memManData s')"
proof -
  have "hmachine (heap pc_kernel) = pc_loaded" by (simp add: pc_kernel_def)
  moreover have "(0x900 :: addr) \<noteq> 0" by simp
  moreover have "kernelPageDirectory boot_layout = 0x200000" by (simp add: boot_layout_def)
  ultimately obtain k' s' where k': "memoryManager_init blank_fpu 0x900 boot_layout pc_info pc_kernel = Some k'"
      "hmachine (heap k') = s'" "mm_inv boot_layout 0x200000 s'"
      "\<forall>a. unat a div 4096 \<in> taken_pages boot_layout [(0x500000, 0x501800)] \<longrightarrow> xlate s' a = Some a"
      "used_pages (memManData s') = ({..< NPAGES} - ({0 ..< 159} \<union> {256 ..< 4352})) \<union> taken_pages boot_layout [(0x500000, 0x501800)]"
    using init_sets_up_paging [of pc_kernel pc_loaded boot_layout "0x900" pc_info pc_entries "[(0x500000, 0x501800)]" blank_fpu] pc_ready
    unfolding boot_ready_def pc_usable(2) by auto
  moreover have "xlate s' 0xB8000 = Some 0xB8000" "xlate s' 0x501234 = Some 0x501234" using k'(4) unfolding pc_taken by simp_all
  moreover have "1280 \<in> used_pages (memManData s')" "1300 \<notin> used_pages (memManData s')" unfolding k'(5) pc_taken by simp_all
  ultimately show ?thesis by blast
qed

end
