(* ===== verification/Kernel_Run.thy ===== *)
theory Kernel_Run
  imports Tasks
begin

text \<open>
  Runs of the kernel: the operations of the scheduler, the heap and the creation of tasks as the
  steps of one transition system, in any order, and the invariant they keep together.
\<close>

section \<open>What the operations leave alone\<close>

subsection \<open>Memory\<close>

text \<open>The memory manager never loads the directory register and never leaves paging.\<close>

definition same_mode :: "machine \<Rightarrow> machine \<Rightarrow> bool" where
  "same_mode s s' \<longleftrightarrow> cr3_reg s' = cr3_reg s \<and> paging s' = paging s"

lemma same_mode_refl [simp]: "same_mode s s"
  by (simp add: same_mode_def)

lemma same_mode_trans: "same_mode s t \<Longrightarrow> same_mode t u \<Longrightarrow> same_mode s u"
  by (simp add: same_mode_def)

lemma same_mode_update [simp]:
  "same_mode s (t\<lparr>memManData := d\<rparr>) = same_mode s t" "same_mode s (atomicEnable t) = same_mode s t"
  "same_mode s (atomicDisable t) = same_mode s t" "same_mode s (flushCurrentPageDirectory t) = same_mode s t"
  "same_mode (s\<lparr>memManData := d\<rparr>) t = same_mode s t" "same_mode (atomicEnable s) t = same_mode s t"
  "same_mode (atomicDisable s) t = same_mode s t"
  by (simp_all add: same_mode_def atomicEnable_def atomicDisable_def flushCurrentPageDirectory_def)

lemma store_mode:
  "vstore32 a w s = Some s' \<Longrightarrow> same_mode s s'" "vstore8 a b s = Some s' \<Longrightarrow> same_mode s s'"
  by (auto simp: vstore32_def vstore8_def same_mode_def)

lemma loop_mode:
  assumes "for_rangeM i n f s = Some s'" and "\<And>i s s'. f i s = Some s' \<Longrightarrow> same_mode s s'"
  shows "same_mode s s'"
  using assms(1) by (rule for_rangeM_rel [where R = same_mode]) (auto intro: same_mode_trans assms(2))

lemma map_mode:
  "(\<forall>pd va pa n u s s'. VirtualMap fuel pd va pa n u s = Some s' \<longrightarrow> same_mode s s') \<and>
   (\<forall>pd a sz s s'. identityMap fuel pd a sz s = Some s' \<longrightarrow> same_mode s s')"
proof (induction fuel)
  case (Suc fuel)
  have "same_mode s s'" if run: "VirtualMap (Suc fuel) pd va pa n u s = Some s'" for pd va pa n u s s'
  proof -
    from run obtain r where r: "for_rangeM 0 n (\<lambda>pageIndex (virtualAddress, physicalAddress, s). do {
          let pageDirectoryEntry = GetPageDirectoryEntry pd virtualAddress;
          pde \<leftarrow> vload32 s pageDirectoryEntry;
          s1 \<leftarrow> (if \<not> entry_present pde then do {
                 (pageTablePhysicalAddress, d) \<leftarrow> physicalAllocate 1 (memManData s);
                 s' \<leftarrow> identityMap fuel pd pageTablePhysicalAddress 0 (s\<lparr>memManData := d\<rparr>);
                 e \<leftarrow> vload32 s' pageDirectoryEntry;
                 vstore32 pageDirectoryEntry (set_entry e u (drop_bit 12 pageTablePhysicalAddress)) s'
               } else Some s);
          pageTableEntry \<leftarrow> GetPageTableEntry s1 pd virtualAddress;
          e \<leftarrow> vload32 s1 pageTableEntry;
          s2 \<leftarrow> vstore32 pageTableEntry (set_entry e u (drop_bit 12 physicalAddress)) s1;
          Some (virtualAddress + PAGE_SIZE, physicalAddress + PAGE_SIZE, s2)
        }) (va, pa, s) = Some r" "s' = flushCurrentPageDirectory (snd (snd r))"
      by (auto split: prod.splits)
    from r(1) have "same_mode (snd (snd (va, pa, s))) (snd (snd r))"
    proof (rule for_rangeM_rel [where R = "\<lambda>x y. same_mode (snd (snd x)) (snd (snd y))"])
      fix s t u :: "addr \<times> addr \<times> machine"
      show "same_mode (snd (snd s)) (snd (snd t)) \<Longrightarrow> same_mode (snd (snd t)) (snd (snd u)) \<Longrightarrow> same_mode (snd (snd s)) (snd (snd u))"
        by (rule same_mode_trans)
    qed (auto simp: bind_eq_Some_conv Let_def split: if_splits dest!: store_mode Suc.IH [THEN conjunct2, rule_format],
        simp_all add: same_mode_def)
    then show ?thesis using r(2) by simp
  qed
  moreover have "same_mode s s'" if "identityMap (Suc fuel) pd a sz s = Some s'" for pd a sz s s'
    using that by (auto simp: bind_eq_Some_conv Let_def dest!: Suc.IH [THEN conjunct1, rule_format])
  ultimately show ?case by blast
qed simp

lemmas VirtualMap_mode = map_mode [THEN conjunct1, rule_format]

lemma memoryAllocate_mode:
  assumes "memoryAllocate pd sz u s = Some (a, s')"
  shows "same_mode s s'"
proof -
  have clear: "same_mode t t'" if "vmemset p b n t = Some t'" for p b n t t'
    using that unfolding vmemset_def by (rule loop_mode) (rule store_mode(2))
  have alloc: "same_mode t t'" if "VirtualAllocate pd pa n u t = Some (va, t')" for pa n va t t'
    using that by (auto simp: VirtualAllocate_def Let_def bind_eq_Some_conv split: option.splits prod.splits dest!: VirtualMap_mode)
  show ?thesis
    using assms unfolding memoryAllocate_def Let_def
    by (auto simp: bind_eq_Some_conv split: if_splits dest!: clear alloc) (simp_all add: same_mode_def)
qed

lemma VirtualFree_loop_mode:
  assumes "VirtualFree_loop pd a limit s = Some s'"
  shows "same_mode s s'"
proof (rule VirtualFree_loop.raw_induct [OF _ assms, where P = "\<lambda>pd a limit s s'. same_mode s s'"])
  fix f pd a limit s s'
  assume IH: "\<And>pd a limit s s'. f pd a limit s = Some s' \<Longrightarrow> same_mode s s'"
    and run: "(if a < limit then do {
        a' \<leftarrow> GetPageTableEntry s pd a;
        s1 \<leftarrow> vstore32 a' 0 s;
        f pd (a + PAGE_SIZE) limit s1
      } else Some s) = Some s'"
  from run show "same_mode s s'"
    by (auto simp: bind_eq_Some_conv split: if_splits dest!: store_mode(1) IH elim: same_mode_trans)
qed

lemma memoryFree_mode:
  assumes "memoryFree pd a sz s = Some s'"
  shows "same_mode s s'"
proof -
  from assms obtain t where t: "for_rangeM 0 (sz div PAGE_SIZE) (\<lambda>i s. do {
          let virtual_address = a + i * PAGE_SIZE;
          present \<leftarrow> IsPagePresent s pd virtual_address;
          if present then do {
            p \<leftarrow> GetPhysicalAddress s pd virtual_address;
            d \<leftarrow> physicalFree p 1 (memManData s);
            VirtualFree pd virtual_address 1 (s\<lparr>memManData := d\<rparr>)
          } else Some s
        }) (atomicEnable s) = Some t" "s' = atomicDisable t"
    unfolding memoryFree_def by auto
  from t(1) have "same_mode (atomicEnable s) t"
    by (rule loop_mode)
      (auto simp: bind_eq_Some_conv VirtualFree_def Let_def split: if_splits dest!: VirtualFree_loop_mode)
  then show ?thesis using t(2) by simp
qed

subsection \<open>The heap\<close>

text \<open>The same for the heap, which also leaves the scheduler as it was but enabled.\<close>

definition heap_rest :: "kheap \<Rightarrow> kheap \<Rightarrow> bool" where
  "heap_rest h h' \<longleftrightarrow> hmachine h' = hmachine h \<and> hsched h' = hsched h"

lemma heap_rest_refl [simp]: "heap_rest h h"
  by (simp add: heap_rest_def)

lemma tag_ops_rest:
  "remove_tag t h = Some h' \<Longrightarrow> heap_rest h h'" "insert_tag t i h = Some h' \<Longrightarrow> heap_rest h h'"
  by (auto simp: remove_tag_def insert_tag_def heap_rest_def Let_def split: if_splits)

lemma melt_left_rest: "melt_left t h = (l, h') \<Longrightarrow> heap_rest h h'"
  by (auto simp: melt_left_def heap_rest_def Let_def split: if_splits)

lemma absorb_right_rest: "absorb_right t h = Some (l, h') \<Longrightarrow> heap_rest h h'"
  unfolding absorb_right_def Let_def
  by (auto simp: bind_eq_Some_conv dest!: tag_ops_rest(1) split: if_splits) (auto simp: heap_rest_def)

lemma melt_left_loop_rest:
  assumes "melt_left_loop t h = Some (x, h')"
  shows "heap_rest h h'"
proof -
  have "heap_rest h (snd (x, h'))"
  proof (rule melt_left_loop.raw_induct [OF _ assms, where P = "\<lambda>t h r. heap_rest h (snd r)"])
    fix f t h r
    assume IH: "\<And>t h r. f t h = Some r \<Longrightarrow> heap_rest h (snd r)"
      and run: "(if split_left (tags h t) \<noteq> 0 \<and> 0 \<le> tag_index (tags h (split_left (tags h t))) then do {
          let (left, h1) = melt_left t h;
          h2 \<leftarrow> remove_tag left h1;
          f left h2
        } else Some (t, h)) = Some r"
    from run show "heap_rest h (snd r)"
      by (auto simp: bind_eq_Some_conv split: if_splits prod.splits dest!: melt_left_rest tag_ops_rest(1) IH)
        (simp add: heap_rest_def)
  qed
  then show ?thesis by simp
qed

lemma melt_right_loop_rest:
  assumes "melt_right_loop t h = Some (x, h')"
  shows "heap_rest h h'"
proof -
  have "heap_rest h (snd (x, h'))"
  proof (rule melt_right_loop.raw_induct [OF _ assms, where P = "\<lambda>t h r. heap_rest h (snd r)"])
    fix f t h r
    assume IH: "\<And>t h r. f t h = Some r \<Longrightarrow> heap_rest h (snd r)"
      and run: "(if split_right (tags h t) \<noteq> 0 \<and> 0 \<le> tag_index (tags h (split_right (tags h t))) then do {
          (t', h1) \<leftarrow> absorb_right t h;
          f t' h1
        } else Some (t, h)) = Some r"
    from run show "heap_rest h (snd r)"
      by (auto simp: bind_eq_Some_conv split: if_splits dest!: absorb_right_rest IH) (simp add: heap_rest_def)
  qed
  then show ?thesis by simp
qed

lemma kmalloc_mode:
  assumes "kmalloc L sz h = Some (p, h')"
  shows "same_mode (hmachine h) (hmachine h')"
proof -
  let ?h1 = "kmalloc_init (liballoc_lock h)"
  have h1: "hmachine ?h1 = hmachine h" by (simp add: kmalloc_init_def)
  have new: "same_mode (hmachine ?h1) (hmachine h2)" if "allocate_new_tag L sz ?h1 = Some (t, h2)" for t h2
    using that by (auto simp: allocate_new_tag_def liballoc_alloc_def Let_def bind_eq_Some_conv split: if_splits dest!: memoryAllocate_mode)
  from assms show ?thesis
    unfolding kmalloc_def Let_def
    by (auto simp: bind_eq_Some_conv h1 heap_rest_def dest!: kmalloc_carve_machine new tag_ops_rest(1) split: if_splits)
qed

lemma kfree_rest:
  assumes "kfree L p h = Some h'"
  shows "same_mode (hmachine h) (hmachine h') \<and> (p \<noteq> 0 \<longrightarrow> hsched h' = sched_enable (hsched h)) \<and> (p = 0 \<longrightarrow> h' = h)"
proof -
  have lock: "sched_enable (hsched (liballoc_lock h)) = sched_enable (hsched h)"
    by (simp add: liballoc_lock_def sched_enable_def sched_disable_def)
  have free: "same_mode (hmachine g) (hmachine g') \<and> hsched g' = hsched g" if "liballoc_free L a n g = Some g'" for a n g g'
    using that by (auto simp: liballoc_free_def dest!: memoryFree_mode)
  from assms show ?thesis
    unfolding kfree_def Let_def
    by (auto simp: bind_eq_Some_conv liballoc_unlock_def lock split: if_splits
        dest!: melt_left_loop_rest melt_right_loop_rest free tag_ops_rest(2))
      (auto simp: heap_rest_def lock)
qed

subsection \<open>Room\<close>

lemma heap_live_off_live: "heap_live_off L Z h lv \<Longrightarrow> heap_live L h lv"
  unfolding heap_live_def heap_live_off_def heap_inv_def pages_ok_def by blast

text \<open>The blocks of the heap lie outside the pages that are off limits.\<close>

lemma heap_live_off_page:
  assumes live: "heap_live_off L Z h lv" and p: "lv p = Some n" "0 < n"
  shows "unat p div 4096 \<notin> Z"
proof -
  have "heap_inv L Z h (\<lambda>x. lv (x + sizeof_tag))" using live by (simp add: heap_live_off_def)
  from heap_payload [OF this, of "p - sizeof_tag" n] p(1)
  obtain C blk B where c: "heap_ok {} h C blk B" "p - sizeof_tag \<in> C" "payload (p, n) \<subseteq> span h (p - sizeof_tag)"
      "pages_ok L Z (hmachine h) B" by auto
  let ?b = "blk (p - sizeof_tag)"
  have b: "span h (p - sizeof_tag) \<subseteq> block ?b" "?b \<in> B"
    using heap_okD(1) [OF c(1)] c(2) by (auto simp: tiling_def chunk_ok_def)
  have "unat p \<in> payload (p, n)" using p(2) by (simp add: payload_def word_less_nat_alt)
  then have "unat p \<in> block ?b" using b(1) c(3) by blast
  moreover have "owns L (hmachine h) ?b" "block_pages ?b \<inter> Z = {}" using c(4) b(2) by (auto simp: pages_ok_def)
  moreover from this have "unat (fst ?b) = unat (fst ?b) div 4096 * 4096" by (auto simp: owns_def Let_def)
  ultimately have "unat p div 4096 \<in> block_pages ?b"
    by (auto simp: block_def block_pages_def less_eq_div_iff_mult_less_eq div_less_iff_less_mult add_mult_distrib)
  then show ?thesis using \<open>block_pages ?b \<inter> Z = {}\<close> by blast
qed

lemma kmalloc_machine:
  assumes "kmalloc L sz h = Some (p, h')"
  shows "hmachine h' = hmachine h \<or>
    (\<exists>a. memoryAllocate (kernelPageDirectory L) (new_block_pages sz * PAGE_SIZE) False (hmachine h) = Some (a, hmachine h'))"
proof -
  let ?h1 = "kmalloc_init (liballoc_lock h)"
  have h1: "hmachine ?h1 = hmachine h" by (simp add: kmalloc_init_def)
  have new: "\<exists>a. memoryAllocate (kernelPageDirectory L) (new_block_pages sz * PAGE_SIZE) False (hmachine h) = Some (a, hmachine h2)"
    if "allocate_new_tag L sz ?h1 = Some (t, h2)" for t h2
    using that h1 by (auto simp: allocate_new_tag_def liballoc_alloc_def Let_def bind_eq_Some_conv split: if_splits)
  from assms show ?thesis
    unfolding kmalloc_def Let_def
    by (auto simp: bind_eq_Some_conv h1 heap_rest_def dest!: kmalloc_carve_machine new tag_ops_rest(1) split: if_splits)
qed

text \<open>With sixteen pages to give, a small request succeeds, from a free list or from sixteen new pages.\<close>

lemma kmalloc_room:
  assumes live: "heap_live L h lv" and sz: "new_block_pages sz = 16" "unat sz \<le> 0x3FFFFFE0"
    and room: "memory_room L 16 (hmachine h)"
  shows "\<exists>p h'. kmalloc L sz h = Some (p, h') \<and> p \<noteq> 0 \<and> lv p = None \<and> heap_live L h' (lv(p \<mapsto> sz)) \<and>
    (hmachine h' = hmachine h \<or> (\<exists>q f. allocated L 16 q f (hmachine h) (hmachine h')))"
proof -
  note inv = heap_live_inv [OF live]
  have np: "num_pages 0x10000 = 16" by (simp add: num_pages_def)
  obtain q f s where s: "memoryAllocate (kernelPageDirectory L) 0x10000 False (hmachine h) = Some (of_nat q * 4096, s)"
      "allocated L 16 q f (hmachine h) s" "of_nat q * 4096 \<noteq> (0 :: u32)"
    using room_allocates [OF inv, of "0x10000"] room np by auto
  obtain p h' where p: "kmalloc L sz h = Some (p, h')" "p = 0 \<longrightarrow> (\<exists>s. memoryAllocate (kernelPageDirectory L) 0x10000 False (hmachine h) = Some (0, s))"
    using kmalloc_live [OF live [unfolded heap_live_defs] sz(2)] sz(1) by fastforce
  then have p0: "p \<noteq> 0" using s by auto
  then have "lv p = None" "heap_live L h' (lv(p \<mapsto> sz))" using kernel_heap.get_ok [OF live sz(2)] p(1) by auto
  moreover have "hmachine h' = hmachine h \<or> (\<exists>q f. allocated L 16 q f (hmachine h) (hmachine h'))"
    using kmalloc_machine [OF p(1)] sz(1) s by auto
  ultimately show ?thesis using p(1) p0 by blast
qed

section \<open>Runs\<close>

text \<open>
  The kernel with, for the record, the blocks its clients hold and the tasks started so far. A switch
  of tasks loads CR3, here kept with the rest of the processor.
\<close>

record run =
  rheap :: kheap
  held :: "addr \<rightharpoonup> u32"
  spawned :: "addr list"

definition reschedule :: "scheduler \<Rightarrow> kheap \<Rightarrow> kheap" where
  "reschedule sc h = h\<lparr>hsched := sc, hmachine := (hmachine h)\<lparr>cr3_reg := cr3 (cpu sc)\<rparr>\<rparr>"

text \<open>
  The steps: a timer interrupt, a task that goes to sleep, a request to the heap, the return of a
  block that is held, and the start of a task. A step is taken only if the code returns. A task is
  started only if its object and its stack were allocated, which \<open>createTask\<close> does not check; the
  static main task is not in the heap.
\<close>

inductive kernel_step :: "layout \<Rightarrow> run \<Rightarrow> run \<Rightarrow> bool" for L where
  tick: "scheduler_irqCallback (hsched (rheap r)) = Some sc \<Longrightarrow>
     kernel_step L r (r\<lparr>rheap := reschedule sc (rheap r)\<rparr>)"
| sleep: "sleep ms (hsched (rheap r)) = Some sc \<Longrightarrow> kernel_step L r (r\<lparr>rheap := reschedule sc (rheap r)\<rparr>)"
| alloc: "kmalloc L n (rheap r) = Some (p, h) \<Longrightarrow> unat n \<le> 0x3FFFFFE0 \<Longrightarrow>
     kernel_step L r (r\<lparr>rheap := h, held := (if p = 0 then held r else (held r)(p \<mapsto> n))\<rparr>)"
| free: "held r p = Some n \<Longrightarrow> kfree L p (rheap r) = Some h \<Longrightarrow>
     kernel_step L r (r\<lparr>rheap := h, held := (held r)(p := None)\<rparr>)"
| spawn: "createTask L False arg (rheap r) = Some (t, h) \<Longrightarrow> t \<noteq> 0 \<Longrightarrow> t \<noteq> mainTask (hsched (rheap r)) \<Longrightarrow>
     esp (regs (tasks (hsched h) t)) \<noteq> 0xFFC \<Longrightarrow>
     kernel_step L r (r\<lparr>rheap := h\<lparr>hsched := taskStart t entry_point (hsched h)\<rparr>, spawned := spawned r @ [t]\<rparr>)"

text \<open>All blocks in use: those of the clients and the task objects.\<close>

definition blocks :: "run \<Rightarrow> addr \<rightharpoonup> u32" where
  "blocks r p = (if p \<in> set (spawned r) then Some 92 else held r p)"

text \<open>
  The invariant: the heap is well formed with exactly these blocks in use, the tasks form a ring, and
  every task, the saved registers and the processor use the kernel's page directory.
\<close>

definition run_ok :: "layout \<Rightarrow> run \<Rightarrow> bool" where
  "run_ok L r \<longleftrightarrow>
     (let s = hsched (rheap r); pd = kernelPageDirectory L
      in heap_live L (rheap r) (blocks r) \<and> dom (held r) \<inter> set (spawned r) = {} \<and>
         ring s (mainTask s # spawned r) \<and> cr3_reg (hmachine (rheap r)) = pd \<and> cr3 (cpu s) = pd \<and>
         (\<forall>t \<in> set (mainTask s # spawned r). cr3 (regs (tasks s t)) = pd))"

lemma run_okD:
  assumes "run_ok L r"
  shows "heap_live L (rheap r) (blocks r)" "dom (held r) \<inter> set (spawned r) = {}"
    "ring (hsched (rheap r)) (mainTask (hsched (rheap r)) # spawned r)" "cr3_reg (hmachine (rheap r)) = kernelPageDirectory L"
    "cr3 (cpu (hsched (rheap r))) = kernelPageDirectory L"
    "\<And>t. t \<in> set (mainTask (hsched (rheap r)) # spawned r) \<Longrightarrow> cr3 (regs (tasks (hsched (rheap r)) t)) = kernelPageDirectory L"
  using assms by (auto simp: run_ok_def Let_def)

definition all_on :: "addr \<Rightarrow> scheduler \<Rightarrow> addr list \<Rightarrow> bool" where
  "all_on pd s ts \<longleftrightarrow> cr3 (cpu s) = pd \<and> (\<forall>t \<in> set ts. cr3 (regs (tasks s t)) = pd)"

lemma schedule_all_on:
  assumes "ring s ts" "schedule s = Some s'" "all_on pd s ts"
  shows "ring s' ts \<and> all_on pd s' ts \<and> mainTask s' = mainTask s"
proof (cases "schedulerEnabled s")
  case True
  from assms(1) show ?thesis
  proof (cases rule: goToNextTask_cases)
    case (found i k)
    let ?p = "ring_at ts i k"
    have "s' = switchTask (m_runningTask s) ?p ((upd_task ?p (\<lambda>t. t\<lparr>task_state := Running\<rparr>) s)\<lparr>m_runningTask := ?p\<rparr>)"
      using schedule_found [OF True found(7) ring_at_nonzero [OF assms(1)]] assms(2) by simp
    moreover have "?p \<in> set ts" using found(1) by (intro ring_at_mem) auto
    ultimately show ?thesis using assms(3) schedule_ring [OF assms(1,2)]
      by (auto simp: all_on_def switchTask_def Let_def upd_task_def)
  qed (use assms True in \<open>auto simp: schedule_def\<close>)
qed (use assms in \<open>auto simp: schedule_def\<close>)

lemma run_ok_reschedule:
  assumes ok: "run_ok L r" and sched: "schedule s = Some sc" and s: "ring s (mainTask s # spawned r)"
    "all_on (kernelPageDirectory L) s (mainTask s # spawned r)"
  shows "run_ok L (r\<lparr>rheap := reschedule sc (rheap r)\<rparr>)"
proof -
  let ?h = "rheap r" and ?h' = "reschedule sc (rheap r)"
  have sc: "ring sc (mainTask sc # spawned r)" "all_on (kernelPageDirectory L) sc (mainTask sc # spawned r)"
    using schedule_all_on [OF s(1) sched s(2)] by auto
  have "hmachine ?h' = hmachine ?h"
    using sc(2) run_okD(4) [OF ok] by (simp add: reschedule_def all_on_def)
  then have "heap_live L ?h' (blocks r)"
    using heap_live_machine [OF run_okD(1) [OF ok], of "hmachine ?h" ?h'] by (simp add: reschedule_def)
  moreover have "blocks (r\<lparr>rheap := h\<rparr>) = blocks r" for h by (simp add: blocks_def fun_eq_iff)
  ultimately show ?thesis
    using sc run_okD(2) [OF ok] by (simp add: run_ok_def Let_def reschedule_def all_on_def)
qed

subsection \<open>Every step keeps the invariant\<close>

lemma upd_regs_cpu [simp]: "cpu (hsched (upd_regs t f h)) = cpu (hsched h)"
  by (simp add: upd_regs_def upd_task_def)

lemma createTask_frame:
  assumes "createTask L False arg h = Some (t, h')"
  shows "same_mode (hmachine h) (hmachine h') \<and> cpu (hsched h') = cpu (hsched h) \<and> (\<exists>h1. kmalloc L 92 h = Some (t, h1))"
proof -
  from assms obtain h1 where h1: "kmalloc L 92 h = Some (t, h1)"
    by (auto simp: createTask_def bind_eq_Some_conv Let_def memoryAllocate_running_def)
  have "cpu (hsched h1) = cpu (hsched h)" by (simp add: kmalloc_sched [OF h1] sched_enable_def)
  moreover have "same_mode (hmachine h1) (hmachine h') \<and> cpu (hsched h') = cpu (hsched h1)"
    using assms h1
    by (auto simp: createTask_def bind_eq_Some_conv Let_def memoryAllocate_running_def upd_task_def
        dest!: memoryAllocate_mode store_mode(1) intro: same_mode_trans)
  ultimately show ?thesis using h1 kmalloc_mode [OF h1] same_mode_trans by auto
qed

text \<open>With seventeen pages to give, a task can be created.\<close>

lemma task_room:
  assumes live: "heap_live L h lv" and room: "memory_room L 17 (hmachine h)"
    and run: "cr3 (regs (getRunningTask (hsched h))) = kernelPageDirectory L"
  shows "\<exists>task stack h1 h'. kmalloc L 92 h = Some (task, h1) \<and> createTask L False arg h = Some (task, h') \<and> task \<noteq> 0 \<and> lv task = None \<and> stack \<noteq> 0 \<and>
    heap_live L h' (lv(task \<mapsto> 92)) \<and> task_ready L task stack arg h h'"
proof -
  have room16: "memory_room L 16 (hmachine h)" by (rule memory_room_mono [OF room]) simp
  obtain p h1 where k: "kmalloc L 92 h = Some (p, h1)" "p \<noteq> 0" "heap_live L h1 (lv(p \<mapsto> 92))"
      "hmachine h1 = hmachine h \<or> (\<exists>q f. allocated L 16 q f (hmachine h) (hmachine h1))"
    using kmalloc_room [OF live _ _ room16, of 92] by (auto simp: new_block_pages_def)
  note T = heap_live_inv(2) [OF live]
  have "memory_room L 1 (hmachine h1)" using k(4)
  proof (elim disjE exE)
    fix q f assume "allocated L 16 q f (hmachine h) (hmachine h1)"
    then show ?thesis using room_left [of L 16] room T by simp
  qed (use room memory_room_mono [of L 17 _ 1] in simp)
  moreover have "num_pages 0x1000 = 1" by (simp add: num_pages_def)
  ultimately have "memoryAllocate (kernelPageDirectory L) 0x1000 False (hmachine h1) \<noteq> Some (0, s1)" for s1
    using room_allocates [OF heap_live_inv [OF k(3)], of "0x1000"] by auto
  then show ?thesis
    using createTask_outcomes [OF live run, of arg] k(1,2) createTask_frame [of L arg h] by fastforce
qed

lemma createTask_no_stack:
  assumes "createTask L False arg h = Some (t, h')" "kmalloc L 92 h = Some (task, h1)"
    "cr3 (regs (getRunningTask (hsched h))) = kernelPageDirectory L"
    "memoryAllocate (kernelPageDirectory L) TASK_STACK_SIZE False (hmachine h1) = Some (0, s1)"
  shows "esp (regs (tasks (hsched h') t)) = 0xFFC"
proof -
  have "tasks (hsched h1) = tasks (hsched h)" "m_runningTask (hsched h1) = m_runningTask (hsched h)"
    by (simp_all add: kmalloc_sched [OF assms(2)] sched_enable_def)
  then show ?thesis using assms
    by (cases "m_runningTask (hsched h) = t") (auto simp: createTask_def bind_eq_Some_conv Let_def memoryAllocate_running_def getRunningTask_def upd_task_def)
qed

lemma ring_sched_enable [simp]: "ring (sched_enable s) ts = ring s ts" "all_on pd (sched_enable s) ts = all_on pd s ts"
  "mainTask (sched_enable s) = mainTask s"
  by (simp_all add: sched_enable_def ring_def all_on_def)

lemma run_okI:
  assumes "heap_live L (rheap r) (blocks r)" "dom (held r) \<inter> set (spawned r) = {}"
    "ring (hsched (rheap r)) (mainTask (hsched (rheap r)) # spawned r)" "cr3_reg (hmachine (rheap r)) = kernelPageDirectory L"
    "all_on (kernelPageDirectory L) (hsched (rheap r)) (mainTask (hsched (rheap r)) # spawned r)"
  shows "run_ok L r"
  using assms by (simp add: run_ok_def Let_def all_on_def)

lemma run_ok_all_on:
  "run_ok L r \<Longrightarrow> all_on (kernelPageDirectory L) (hsched (rheap r)) (mainTask (hsched (rheap r)) # spawned r)"
  by (auto simp: run_ok_def Let_def all_on_def)

lemma run_ok_alloc:
  assumes ok: "run_ok L r" and kmalloc: "kmalloc L n (rheap r) = Some (p, h)" "unat n \<le> 0x3FFFFFE0"
  shows "run_ok L (r\<lparr>rheap := h, held := (if p = 0 then held r else (held r)(p \<mapsto> n))\<rparr>)"
proof -
  let ?r = "r\<lparr>rheap := h, held := (if p = 0 then held r else (held r)(p \<mapsto> n))\<rparr>"
  have h: "p = 0 \<and> heap_live L h (blocks r) \<or> p \<noteq> 0 \<and> blocks r p = None \<and> heap_live L h ((blocks r)(p \<mapsto> n))"
    using kernel_heap.get_ok [OF run_okD(1) [OF ok] kmalloc(2)] kmalloc(1) by auto
  then have "blocks ?r = (if p = 0 then blocks r else (blocks r)(p \<mapsto> n))"
    by (auto simp: blocks_def fun_eq_iff split: if_splits)
  then have "heap_live L (rheap ?r) (blocks ?r)" using h by auto
  moreover have "dom (held ?r) \<inter> set (spawned ?r) = {}"
    using run_okD(2) [OF ok] h by (auto simp: blocks_def split: if_splits)
  moreover have "cr3_reg (hmachine h) = kernelPageDirectory L"
    using kmalloc_mode [OF kmalloc(1)] run_okD(4) [OF ok] by (simp add: same_mode_def)
  ultimately show ?thesis
    using run_okD(3) [OF ok] run_ok_all_on [OF ok] by (intro run_okI) (simp_all add: kmalloc_sched [OF kmalloc(1)])
qed

lemma run_ok_free:
  assumes ok: "run_ok L r" and p: "held r p = Some n" and kfree: "kfree L p (rheap r) = Some h"
  shows "run_ok L (r\<lparr>rheap := h, held := (held r)(p := None)\<rparr>)"
proof -
  let ?r = "r\<lparr>rheap := h, held := (held r)(p := None)\<rparr>"
  have np: "p \<notin> set (spawned r)" using run_okD(2) [OF ok] p by auto
  then have "heap_live L h ((blocks r)(p := None))"
    using kernel_heap.put_ok [OF run_okD(1) [OF ok], of p n] p kfree by (simp add: blocks_def)
  moreover have "blocks ?r = (blocks r)(p := None)" using np by (auto simp: blocks_def fun_eq_iff)
  moreover note rest = kfree_rest [OF kfree]
  have "hsched h = hsched (rheap r) \<or> hsched h = sched_enable (hsched (rheap r))" using rest by auto
  moreover have "cr3_reg (hmachine h) = kernelPageDirectory L" using rest run_okD(4) [OF ok] by (simp add: same_mode_def)
  moreover have "dom (held ?r) \<inter> set (spawned ?r) = {}" using run_okD(2) [OF ok] by auto
  ultimately show ?thesis
    using run_okD(3) [OF ok] run_ok_all_on [OF ok] by (intro run_okI) auto
qed

lemma all_on_taskStart:
  assumes "all_on pd s ts" "cr3 (regs (tasks s t)) = pd"
  shows "all_on pd (taskStart t e s) (ts @ [t])"
  using assms by (auto simp: all_on_def taskStart_def Let_def upd_task_def)

lemma run_ok_spawn:
  assumes ok: "run_ok L r" and create: "createTask L False arg (rheap r) = Some (t, h)"
    and t: "t \<noteq> 0" "t \<noteq> mainTask (hsched (rheap r))" and stack: "esp (regs (tasks (hsched h) t)) \<noteq> 0xFFC"
  shows "run_ok L (r\<lparr>rheap := h\<lparr>hsched := taskStart t e (hsched h)\<rparr>, spawned := spawned r @ [t]\<rparr>)"
proof -
  let ?s = "hsched (rheap r)" and ?pd = "kernelPageDirectory L"
  let ?r = "r\<lparr>rheap := h\<lparr>hsched := taskStart t e (hsched h)\<rparr>, spawned := spawned r @ [t]\<rparr>"
  let ?ts = "mainTask ?s # spawned r"
  note ring = run_okD(3) [OF ok] and on = run_ok_all_on [OF ok]
  have run: "cr3 (regs (getRunningTask ?s)) = ?pd"
    using ring on by (auto simp: getRunningTask_def ring_def all_on_def)
  note frame = createTask_frame [OF create]
  have made: "blocks r t = None" "heap_live L h ((blocks r)(t \<mapsto> 92))" "\<exists>stack. task_ready L t stack arg (rheap r) h"
    using createTask_outcomes [OF run_okD(1) [OF ok] run, of arg] create frame t(1) stack
      createTask_no_stack [OF create _ run] by auto
  have fresh: "t \<notin> set (spawned r)" "held r t = None" using made(1) by (auto simp: blocks_def split: if_splits)
  have s': "tasks (hsched h) a = tasks ?s a" if "a \<noteq> t" for a
    using made(3) that by (auto simp: task_ready_def Let_def)
  have fields: "mainTask (hsched h) = mainTask ?s" "m_runningTask (hsched h) = m_runningTask ?s" "m_taskTail (hsched h) = m_taskTail ?s"
      "cr3 (regs (tasks (hsched h) t)) = ?pd"
    using made(3) by (auto simp: task_ready_def Let_def)
  have tn: "t \<notin> set ?ts" using fresh(1) t(2) by simp
  then have same: "x \<in> set ?ts \<Longrightarrow> tasks (hsched h) x = tasks ?s x" for x using s' by metis
  have "ring (hsched h) ?ts"
    using ring fields same unfolding ring_def by (metis nth_mem)
  then have ring': "ring (taskStart t e (hsched h)) (?ts @ [t])" using taskStart_ring tn t(1) by blast
  have "all_on ?pd (hsched h) ?ts" using on same frame by (simp add: all_on_def)
  then have on': "all_on ?pd (taskStart t e (hsched h)) (?ts @ [t])" using all_on_taskStart fields(4) by blast
  have main: "mainTask (taskStart t e (hsched h)) = mainTask ?s"
    using fields(1) by (simp add: taskStart_def Let_def upd_task_def)
  have "blocks ?r = (blocks r)(t \<mapsto> 92)" by (auto simp: blocks_def fun_eq_iff)
  then have "heap_live L (rheap ?r) (blocks ?r)"
    using heap_live_machine [OF made(2), of "hmachine h" "h\<lparr>hsched := taskStart t e (hsched h)\<rparr>"] by simp
  moreover have "dom (held ?r) \<inter> set (spawned ?r) = {}" using run_okD(2) [OF ok] fresh(2) by auto
  moreover have "cr3_reg (hmachine h) = ?pd" using frame run_okD(4) [OF ok] by (simp add: same_mode_def)
  ultimately show ?thesis using ring' on' main by (intro run_okI) simp_all
qed

section \<open>The transition system\<close>

locale transition_system =
  fixes step :: "'s \<Rightarrow> 's \<Rightarrow> bool" and inv :: "'s \<Rightarrow> bool"
  assumes kept: "step s t \<Longrightarrow> inv s \<Longrightarrow> inv t"
begin

lemma reachable: "step\<^sup>*\<^sup>* s t \<Longrightarrow> inv s \<Longrightarrow> inv t"
  by (induction rule: rtranclp_induct) (auto intro: kept)

end

interpretation kernel_runs: transition_system "kernel_step L" "run_ok L"
proof
  fix r r' assume "kernel_step L r r'" and ok: "run_ok L r"
  then show "run_ok L r'"
  proof cases
    case (tick sc)
    have "ring ((hsched (rheap r))\<lparr>m_timeMs := u\<rparr>) (mainTask (hsched (rheap r)) # spawned r)" for u
      using run_okD(3) [OF ok] by (rule ring_time)
    then show ?thesis using tick run_ok_all_on [OF ok]
      by (auto intro!: run_ok_reschedule [OF ok] simp: scheduler_irqCallback_def all_on_def)
  next
    case (sleep ms sc)
    then show ?thesis using ring_upd_task [OF run_okD(3) [OF ok]] run_ok_all_on [OF ok]
      by (auto intro!: run_ok_reschedule [OF ok] simp: sleep_def all_on_def)
  next
    case (alloc n p h)
    then show ?thesis using run_ok_alloc [OF ok alloc(2,3)] by simp
  qed (use ok in \<open>auto intro: run_ok_free run_ok_spawn\<close>)
qed

lemma tick_returns_iff:
  assumes "ring s ts"
  shows "(\<exists>sc. scheduler_irqCallback s = Some sc) \<longleftrightarrow>
    \<not> schedulerEnabled s \<or> length ts = 1 \<or> (\<exists>t \<in> set ts. runnable (s\<lparr>m_timeMs := m_timeMs s + 1\<rparr>) t)"
proof -
  let ?s = "s\<lparr>m_timeMs := m_timeMs s + 1\<rparr>"
  have "ring ?s ts" using assms by (rule ring_time)
  then show ?thesis
  proof (cases rule: goToNextTask_cases)
    case (found i k)
    moreover have "ring_at ts i k \<in> set ts" using found(1) by (intro ring_at_mem) auto
    ultimately show ?thesis by (auto simp: scheduler_irqCallback_def schedule_def)
  qed (auto simp: scheduler_irqCallback_def schedule_def)
qed

lemma scheduler_start_ok:
  assumes live: "heap_live L (heap k) lv" and main: "mainTask (hsched (heap k)) \<noteq> 0"
      "next_task (tasks (hsched (heap k)) (mainTask (hsched (heap k)))) = 0"
    and mode: "cr3_reg (hmachine (heap k)) = kernelPageDirectory L" "cr3 (cpu (hsched (heap k))) = kernelPageDirectory L"
  shows "run_ok L \<lparr>rheap = heap (scheduler_start flags k), held = lv, spawned = []\<rparr>"
proof -
  let ?h = "heap (scheduler_start flags k)"
  have h: "hmachine ?h = hmachine (heap k)" "tags ?h = tags (heap k)" "l_freePages ?h = l_freePages (heap k)"
    "l_completePages ?h = l_completePages (heap k)" "l_initialized ?h = l_initialized (heap k)"
    by (simp_all add: scheduler_start_def upd_heap_def Let_def)
  have "heap_live L ?h lv" using heap_live_machine [OF live _ _ h(2-5,1)] by simp
  moreover have "blocks \<lparr>rheap = ?h, held = lv, spawned = []\<rparr> = lv" by (simp add: blocks_def fun_eq_iff)
  moreover have "ring (hsched ?h) [mainTask (hsched ?h)]" "all_on (kernelPageDirectory L) (hsched ?h) [mainTask (hsched ?h)]"
    using main mode by (simp_all add: ring_def all_on_def scheduler_start_def upd_heap_def Let_def upd_regs_def upd_task_def)
  ultimately show ?thesis using h(1) mode(1) by (intro run_okI) simp_all
qed

section \<open>Safety\<close>

text \<open>
  What holds of a kernel that runs: the tasks form a ring with the main task first; the processor is
  in the kernel's directory, whose first 256 entries still are the kernel's page tables, with the tables and the
  directory mapped to themselves (\<open>mm_inv\<close>); the blocks in use (task objects included) are pairwise disjoint and
  mapped; \<open>kmalloc\<close> returns, and so does \<open>kfree\<close> of a held block; and the next timer interrupt
  returns exactly if the scheduler is disabled, the main task is alone, or some task is running or due.
\<close>

definition kernel_safe :: "layout \<Rightarrow> run \<Rightarrow> bool" where
  "kernel_safe L r \<longleftrightarrow>
     (let h = rheap r; s = hsched (rheap r); ts = mainTask s # spawned r
      in ring s ts \<and>
         cr3_reg (hmachine h) = kernelPageDirectory L \<and> mm_inv L (kernelPageDirectory L) (hmachine h) \<and>
         (\<forall>p n q m. blocks r p = Some n \<and> blocks r q = Some m \<and> p \<noteq> q \<longrightarrow> payload (p, n) \<inter> payload (q, m) = {}) \<and>
         (\<forall>p n a. blocks r p = Some n \<and> unat a \<in> payload (p, n) \<longrightarrow> xlate (hmachine h) a \<noteq> None) \<and>
         (\<forall>n. unat n \<le> 0x3FFFFFE0 \<longrightarrow> (\<exists>p h'. kmalloc L n h = Some (p, h'))) \<and>
         (\<forall>p n. held r p = Some n \<longrightarrow> (\<exists>h'. kfree L p h = Some h')) \<and>
         ((\<exists>s'. scheduler_irqCallback s = Some s') \<longleftrightarrow>
            \<not> schedulerEnabled s \<or> spawned r = [] \<or> (\<exists>t \<in> set ts. runnable (s\<lparr>m_timeMs := m_timeMs s + 1\<rparr>) t)))"

lemma run_ok_safe:
  assumes ok: "run_ok L r"
  shows "kernel_safe L r"
proof -
  note live = run_okD(1) [OF ok]
  have "\<exists>h. kfree L p (rheap r) = Some h" if "held r p = Some n" for p n
  proof -
    have "p \<notin> set (spawned r)" using run_okD(2) [OF ok] that by auto
    then show ?thesis using kernel_heap.put_ok [OF live, of p n] that by (auto simp: blocks_def)
  qed
  moreover have "\<exists>p h. kmalloc L n (rheap r) = Some (p, h)" if "unat n \<le> 0x3FFFFFE0" for n
    using kernel_heap.get_ok [OF live that] by blast
  ultimately show ?thesis
    unfolding kernel_safe_def Let_def
    using run_okD(3,4) [OF ok] heap_live_inv(1) [OF live] kernel_heap.apart [OF live] heap_live_mapped [OF live]
      tick_returns_iff [OF run_okD(3) [OF ok]]
    by (intro conjI allI impI) (simp_all, blast+)
qed

end
