(* ===== verification/Boot_Run.thy ===== *)
theory Boot_Run
  imports Boot_Paging Kernel_Run
begin

text \<open>
  \<open>kernel_main\<close> as a whole: the console comes up, the memory manager sets up the kernel's address space,
  the scheduler starts and the console's task is created. The state it leaves is a start of the
  runs of \<open>Kernel_Run\<close>, so what holds of them holds of the kernel that was booted.
\<close>

section \<open>Facts\<close>

subsection \<open>The global constructors\<close>

text \<open>
  The constructors in the \<open>.ctors\<close> section are collected by the linker; they run once there are paging
  and the heap, and may use both. A constructor asks for blocks, gives back blocks it holds, and
  stores to any byte that is mapped, the page tables and the directory apart.
\<close>

inductive heap_use :: "layout \<Rightarrow> kheap \<times> (addr \<rightharpoonup> u32) \<Rightarrow> kheap \<times> (addr \<rightharpoonup> u32) \<Rightarrow> bool" for L where
  get: "kmalloc L n h = Some (p, h') \<Longrightarrow> unat n \<le> 0x3FFFFFE0 \<Longrightarrow>
     heap_use L (h, lv) (h', if p = 0 then lv else lv(p \<mapsto> n))"
| put: "lv p = Some n \<Longrightarrow> kfree L p h = Some h' \<Longrightarrow> heap_use L (h, lv) (h', lv(p := None))"
| store: "xlate (hmachine h) a = Some pa \<Longrightarrow> unat pa div 4096 \<notin> reserved_pages L \<Longrightarrow> vstore8 a b (hmachine h) = Some s \<Longrightarrow>
     heap_use L (h, lv) (h\<lparr>hmachine := s\<rparr>, lv)"

text \<open>What such a run keeps: the heap's invariant, the directory in use, and the scheduler up to its flag.\<close>

definition use_ok :: "layout \<Rightarrow> nat set \<Rightarrow> scheduler \<Rightarrow> kheap \<times> (addr \<rightharpoonup> u32) \<Rightarrow> bool" where
  "use_ok L Z sc hl \<longleftrightarrow> heap_live_off L Z (fst hl) (snd hl) \<and> cr3_reg (hmachine (fst hl)) = kernelPageDirectory L \<and>
     sched_enable (hsched (fst hl)) = sched_enable sc"

lemma store_pages_ok:
  assumes P: "pages_ok L Z s B" and cr3: "cr3_reg s = kernelPageDirectory L" and pa: "unat pa div 4096 \<notin> reserved_pages L"
  shows "pages_ok L Z (s\<lparr>ram := (ram s)(pa := b)\<rparr>) B"
proof -
  let ?p = "unat (kernelPageDirectory L) div 4096"
  have "?p \<in> reserved_pages L" by (simp add: reserved_pages_def)
  have inv: "kspace L s" "pd_ok L s (kernelPageDirectory L)" using P by (auto simp: pages_ok_def mm_inv_def)
  have "?p < 1048576" using unsigned_less [of "kernelPageDirectory L", where ?'a = nat] by simp
  then have "unat (of_nat ?p :: u32) = ?p" by (intro unat_of_nat32) simp
  moreover have "drop_bit 12 (kentry L s ?p) = of_nat ?p"
    using inv(1) \<open>?p \<in> reserved_pages L\<close> by (simp add: kspace_def entry_frame_def)
  then have "unat (drop_bit 12 (kentry L s ?p)) = unat (of_nat ?p :: u32)" by simp
  ultimately have e: "unat (kentry L s ?p) div 4096 = ?p" by (simp add: drop_bit_eq_div unat_div)
  have "frames_differ L {unat pa div 4096} s (s\<lparr>ram := (ram s)(pa := b)\<rparr>)"
    using pa by (auto simp: frames_differ_def reserved_pages_def)
  moreover have "unat pa div 4096 \<noteq> ?p" using pa \<open>?p \<in> reserved_pages L\<close> by metis
  ultimately show ?thesis using pages_ok_frames [OF P] e cr3 by simp
qed

interpretation heap_uses: transition_system "heap_use L" "use_ok L Z sc"
proof
  fix hl hl' assume use: "heap_use L hl hl'" and ok: "use_ok L Z sc hl"
  have en: "sched_enable (sched_enable s) = sched_enable s" for s by (simp add: sched_enable_def)
  from use show "use_ok L Z sc hl'"
  proof cases
    case (get n h p h' lv)
    then have "heap_live_off L Z h lv" using ok by (simp add: use_ok_def)
    from bounded_heap.get_ok [OF this get(4)] show ?thesis
      using ok get kmalloc_mode [OF get(3)] kmalloc_sched [OF get(3)] by (auto simp: use_ok_def same_mode_def en)
  next
    case (put lv p n h h')
    then have "heap_live_off L Z h lv" using ok by (simp add: use_ok_def)
    from bounded_heap.put_ok [OF this put(3)] show ?thesis
      using ok put kfree_rest [OF put(4)] by (cases "p = 0") (auto simp: use_ok_def same_mode_def en)
  next
    case (store h a pa b s lv)
    have s: "s = (hmachine h)\<lparr>ram := (ram (hmachine h))(pa := b)\<rparr>" using store(3,5) by (simp add: vstore8_def)
    have h: "heap_live_off L Z h lv" "cr3_reg (hmachine h) = kernelPageDirectory L" using ok store(1) by (simp_all add: use_ok_def)
    have "pages_ok L Z s B" if "pages_ok L Z (hmachine h) B" for B
      unfolding s by (rule store_pages_ok [OF that h(2) store(4)])
    then have "heap_live_off L Z (h\<lparr>hmachine := s\<rparr>) lv"
      by (rule heap_live_off_machine [OF h(1)]) (simp_all add: s)
    moreover have "cr3_reg s = kernelPageDirectory L" using h(2) s by simp
    ultimately show ?thesis using ok store(1,2) by (simp add: use_ok_def)
  qed
qed

text \<open>
  What is asked of the constructors, called with the memory manager set up and the heap not yet
  used: they return, use the memory in this way only, start no task, and leave seventeen free pages in a
  row, of addresses and of frames, for the first task. What they do to the console and the devices is
  left open.
\<close>

definition constructors_ok ::
  "layout \<Rightarrow> mmap_entry list \<Rightarrow> (addr \<times> addr) list \<Rightarrow> machine \<Rightarrow> (kernel \<Rightarrow> kernel option) list \<Rightarrow> bool" where
  "constructors_ok L es ms s ctors \<longleftrightarrow>
     (\<forall>k. memory_ready L es ms s (hmachine (heap k)) \<and> \<not> l_initialized (heap k) \<longrightarrow>
       (\<exists>k' lv. initGlobalConstructors ctors k = Some k' \<and> (heap_use L)\<^sup>*\<^sup>* (heap k, \<lambda>_. None) (heap k', lv) \<and>
          memory_room L 17 (hmachine (heap k'))))"

lemma memory_ready_interrupts [simp]: "memory_ready L es ms (s\<lparr>interrupts := b\<rparr>) s' = memory_ready L es ms s s'"
  by (simp add: memory_ready_def mapped_in_def kentry_def)

text \<open>The state after the constructors, with the page of the main task off limits to the heap.\<close>

lemma constructors_run:
  assumes ctors: "constructors_ok L es ms s ctors" and ready: "memory_ready L es ms s (hmachine (heap k))"
    and fresh: "\<not> l_initialized (heap k)" and bound: "unat (TotalMemory (memManData (hmachine (heap k))) div PAGE_SIZE) \<le> 786424"
    and Z: "Z \<subseteq> taken_pages L ms" "Z \<subseteq> {..< 262144}"
  shows "\<exists>k' lv. initGlobalConstructors ctors k = Some k' \<and> use_ok L Z (hsched (heap k)) (heap k', lv) \<and>
    memory_room L 17 (hmachine (heap k'))"
proof -
  let ?s = "hmachine (heap k)"
  have m: "mapped_in L (taken_pages L ms) s ?s" using ready by (simp add: memory_ready_def)
  then have inv: "mm_inv L (kernelPageDirectory L) ?s" "cr3_reg ?s = kernelPageDirectory L" by (simp_all add: mapped_in_def)
  have "entry_present (kentry L ?s p)" if "p \<in> Z" for p
  proof -
    have p: "p < 262144" "p \<in> taken_pages L ms" using Z that by auto
    note a = page_number_address [OF p(1)]
    have "xlate ?s (of_nat p * 4096) \<noteq> None" using m p(2) a(2) by (simp add: mapped_in_def)
    then show ?thesis using xlate_kernel [of L ?s, OF _ a(4)] inv(1) a(2) by (auto simp: mm_inv_def split: if_splits)
  qed
  then have "pages_ok L Z ?s {}" using inv(1) Z(2) by (auto simp: pages_ok_def blocks_ok_def)
  then have "heap_live_off L Z (heap k) (\<lambda>_. None)"
    using fresh bound unfolding heap_live_off_def heap_inv_def by (intro conjI exI [of _ "{}"]) (simp_all add: live_def)
  then have "use_ok L Z (hsched (heap k)) (heap k, \<lambda>_. None)" using inv(2) by (simp add: use_ok_def)
  with ctors ready fresh heap_uses.reachable show ?thesis unfolding constructors_ok_def by blast
qed

subsection \<open>The first task\<close>

text \<open>
  Room for \<open>n\<close> pages after boot: \<open>n\<close> frames of usable memory in a row and \<open>n\<close> pages of the
  kernel's gigabyte, none of them taken; pages that are not taken have no entry yet.
\<close>

definition boot_room :: "layout \<Rightarrow> nat \<Rightarrow> mmap_entry list \<Rightarrow> (addr \<times> addr) list \<Rightarrow> machine \<Rightarrow> bool" where
  "boot_room L n es ms s \<longleftrightarrow>
     (let A = taken_pages L ms; tot = (\<Sum>e \<leftarrow> usable es. region_length e)
      in tot div 4096 \<le> 786424 \<and>
         (\<exists>f. f + n \<le> tot div 4096 \<and> {f ..< f + n} \<subseteq> (\<Union>e \<in> set (usable es). region_pages e) - A) \<and>
         (\<exists>q \<ge> 256. q + n \<le> 262144 \<and> {q ..< q + n} \<inter> A = {}) \<and>
         (\<forall>p < 262144. p \<notin> A \<longrightarrow> \<not> entry_present (kentry L s p)))"

lemma memory_ready_room:
  assumes ready: "memory_ready L es ms s s'" and room: "boot_room L n es ms s"
  shows "memory_room L n s' \<and> unat (TotalMemory (memManData s') div PAGE_SIZE) \<le> 786424"
proof -
  let ?A = "taken_pages L ms" and ?t = "\<Sum>e \<leftarrow> usable es. region_length e"
  obtain f q where f: "f + n \<le> ?t div 4096" "{f ..< f + n} \<subseteq> (\<Union>e \<in> set (usable es). region_pages e) - ?A"
    and q: "256 \<le> q" "q + n \<le> 262144" "{q ..< q + n} \<inter> ?A = {}"
    and t: "?t div 4096 \<le> 786424" and zero: "\<forall>p < 262144. p \<notin> ?A \<longrightarrow> \<not> entry_present (kentry L s p)"
    using room unfolding boot_room_def Let_def by blast
  have m: "mapped_in L ?A s s'" "TotalMemory (memManData s') = of_nat ?t"
      "used_pages (memManData s') = ({..< NPAGES} - (\<Union>e \<in> set (usable es). region_pages e)) \<union> ?A"
    using ready by (simp_all add: memory_ready_def)
  have "?t < 786425 * 4096" using t by (intro div_less_iff_less_mult [THEN iffD1]) simp_all
  then have T: "unat (TotalMemory (memManData s') div PAGE_SIZE) = ?t div 4096"
    unfolding m(2) by (simp add: unat_div unat_of_nat32)
  have "\<not> entry_present (kentry L s' r)" if "r \<in> {q ..< q + n}" for r
  proof -
    have "r < 262144" "r \<notin> ?A" using that q by auto
    then show ?thesis using m(1) zero by (simp add: mapped_in_def)
  qed
  then have "free_run L s' n q" using q(2) by (simp add: free_run_def)
  moreover have "{f ..< f + n} \<inter> used_pages (memManData s') = {}" using f(2) m(3) by blast
  ultimately show ?thesis using q(1) f(1) t T unfolding memory_room_def by auto
qed

text \<open>The main task is a static object of the image, not yet in a ring, and the heap was never used.\<close>

definition boot_tasks_ok :: "layout \<Rightarrow> kernel \<Rightarrow> bool" where
  "boot_tasks_ok L k \<longleftrightarrow> (let main = mainTask (hsched (heap k))
     in main \<noteq> 0 \<and> unat main < unat (kernel_end L) \<and> next_task (tasks (hsched (heap k)) main) = 0 \<and> \<not> l_initialized (heap k))"

text \<open>
  Two tasks run: the main task, which has the processor, and the console's, at \<open>proc\<close> with the
  argument \<open>this\<close>. The blocks \<open>lv\<close> are those the constructors kept.
\<close>

definition console_started :: "layout \<Rightarrow> addr \<Rightarrow> addr \<Rightarrow> addr \<Rightarrow> kheap \<Rightarrow> (addr \<rightharpoonup> u32) \<Rightarrow> addr \<Rightarrow> bool" where
  "console_started L this proc main h lv task \<longleftrightarrow>
     run_ok L \<lparr>rheap = h, held = lv, spawned = [task]\<rparr> \<and>
     mainTask (hsched h) = main \<and> m_runningTask (hsched h) = main \<and>
     task_state (tasks (hsched h) main) = Running \<and> task_state (tasks (hsched h) task) = Running \<and>
     eip (regs (tasks (hsched h) task)) = proc \<and> vload32 (hmachine h) (esp (regs (tasks (hsched h) task))) = Some this"

lemma taskStart_fields:
  "mainTask (taskStart t e s) = mainTask s" "m_runningTask (taskStart t e s) = m_runningTask s"
  "task_state (tasks (taskStart t e s) t) = Running" "eip (regs (tasks (taskStart t e s) t)) = e"
  "esp (regs (tasks (taskStart t e s) t)) = esp (regs (tasks s t))"
  "a \<noteq> t \<Longrightarrow> task_state (tasks (taskStart t e s) a) = task_state (tasks s a)"
  by (simp_all add: taskStart_def Let_def upd_task_def)

lemma tty_open_starts_task:
  fixes k :: kernel
  defines "main \<equiv> mainTask (hsched (heap k))"
  assumes start: "heap_live_off L {unat main div 4096} (heap k) lv" "main \<noteq> 0" "next_task (tasks (hsched (heap k)) main) = 0"
      "cr3_reg (hmachine (heap k)) = kernelPageDirectory L" "cr3 (cpu (hsched (heap k))) = kernelPageDirectory L"
    and room: "memory_room L 17 (hmachine (heap k))"
  shows "\<exists>t' k' task. tty_open L this proc t (scheduler_start flags k) = Some (t', k') \<and>
    console_started L this proc main (heap k') lv task"
proof -
  let ?k = "scheduler_start flags k"
  let ?h = "heap ?k" and ?r = "\<lparr>rheap = heap ?k, held = lv, spawned = []\<rparr>"
  have ok: "run_ok L ?r" using scheduler_start_ok [OF heap_live_off_live [OF start(1)]] start(2-5) by (simp add: main_def)
  have k: "hmachine ?h = hmachine (heap k)" "mainTask (hsched ?h) = main" "m_runningTask (hsched ?h) = main"
      "task_state (tasks (hsched ?h) main) = Running" "tags ?h = tags (heap k)" "l_freePages ?h = l_freePages (heap k)"
      "l_completePages ?h = l_completePages (heap k)" "l_initialized ?h = l_initialized (heap k)"
    by (simp_all add: scheduler_start_def upd_heap_def Let_def upd_regs_def upd_task_def main_def)
  have off: "heap_live_off L {unat main div 4096} ?h lv" by (rule heap_live_off_machine [OF start(1) _ _ k(5-8,1)]) simp_all
  have run: "cr3 (regs (getRunningTask (hsched ?h))) = kernelPageDirectory L"
    using run_okD(6) [OF ok, of main] k(2,3) by (simp add: getRunningTask_def)
  obtain task stk h1 h' where t: "kmalloc L 92 ?h = Some (task, h1)" "createTask L False this ?h = Some (task, h')" "task \<noteq> 0"
      "stk \<noteq> 0" "heap_live L h' (lv(task \<mapsto> 92))" "task_ready L task stk this ?h h'"
    using task_room [OF heap_live_off_live [OF off] _ run, of this] room k(1) by auto
  have "heap_live_off L {unat main div 4096} h1 (lv(task \<mapsto> 92))"
    using bounded_heap.get_ok [OF off, of 92] t(1,3) by auto
  then have tm: "task \<noteq> main" using heap_live_off_page [of L "{unat main div 4096}" h1 "lv(task \<mapsto> 92)" task 92] by auto
  let ?h' = "h'\<lparr>hsched := taskStart task proc (hsched h')\<rparr>"
  have esp: "esp (regs (tasks (hsched h') task)) = stk + 0xFFC" using t(6) by (simp add: task_ready_def Let_def)
  then have "esp (regs (tasks (hsched h') task)) \<noteq> 0xFFC" using t(4) by simp
  then have "run_ok L \<lparr>rheap = ?h', held = lv, spawned = [task]\<rparr>"
    using run_ok_spawn [OF ok, of this task h' proc] t(2,3) tm k(2) by simp
  moreover have "m_taskTail (hsched h') = m_taskTail (hsched ?h)" "mainTask (hsched h') = main" "m_runningTask (hsched h') = main"
      "tasks (hsched h') main = tasks (hsched ?h) main" "vload32 (hmachine h') (stk + 0xFFC) = Some this"
    using t(6) k(2,3) tm esp by (simp_all add: task_ready_def Let_def)
  ultimately have "console_started L this proc main ?h' lv task"
    using tm esp k(4) taskStart_fields [where t = task and e = proc and s = "hsched h'"] by (simp add: console_started_def)
  then show ?thesis using t(2) by (auto simp: tty_open_def Let_def)
qed

lemma sched_enable_fields:
  "mainTask (sched_enable s) = mainTask s" "tasks (sched_enable s) = tasks s" "cpu (sched_enable s) = cpu s"
  by (simp_all add: sched_enable_def)

lemma boot_ready_interrupts [simp]: "boot_ready L mb es ms (s\<lparr>interrupts := b\<rparr>) = boot_ready L mb es ms s"
proof -
  have "memory_map (s\<lparr>interrupts := b\<rparr>) limit a es = memory_map s limit a es" for limit a
    by (induction es arbitrary: a) (simp_all add: vload64_def vload32_def xlate_def Let_def)
  then show ?thesis by (simp add: boot_ready_def)
qed

lemma main_task_page:
  assumes "boot_tasks_ok L k" "boot_ready L mb es ms s"
  shows "{unat (mainTask (hsched (heap k))) div 4096} \<subseteq> taken_pages L ms" "{unat (mainTask (hsched (heap k))) div 4096} \<subseteq> {..< 262144}"
proof -
  let ?main = "mainTask (hsched (heap k))"
  have "unat ?main < unat (kernel_end L)" "image_ok L" using assms by (simp_all add: boot_tasks_ok_def boot_ready_def Let_def)
  then have "unat ?main div 4096 \<le> unat (kernel_end L) div 4096" "unat (kernel_end L) div 4096 + 2 \<le> 262144"
    by (auto simp: image_ok_def intro: div_le_mono)
  then show "{unat ?main div 4096} \<subseteq> taken_pages L ms" "{unat ?main div 4096} \<subseteq> {..< 262144}" by (auto simp: taken_pages_def)
qed

lemma kernel_main_boots:
  fixes env :: boot_env and k :: kernel
  defines "L \<equiv> env_layout env" and "s \<equiv> hmachine (heap k)" and "main \<equiv> mainTask (hsched (heap k))"
  assumes ready: "boot_ready L mb es ms s" and bound: "(\<Sum>e \<leftarrow> usable es. region_length e) div 4096 \<le> 786424"
    and tasks: "boot_tasks_ok L k" and ctors: "constructors_ok L es ms s (env_ctors env)" and buf: "env_buf env \<noteq> 0"
  shows "\<exists>t' k' lv task. kernel_main fp env 0x2BADB002 mb t k =
      Some (Started (gdt_init (env_tss env) (env_gdt env)) (idt_init (env_irq env) (env_idt env) (serial_Init (kports k))) t' k') \<and>
    console_started L (env_tty env) (env_tty_process env) main (heap k') lv task"
proof -
  let ?buf = "env_buf env" and ?t = "\<Sum>e \<leftarrow> usable es. region_length e" and ?Z = "{unat main div 4096}"
  define k1 where "k1 = (keyboard_construct k)\<lparr>kports := serial_Init (kports k)\<rparr>"
  define idt where "idt = idt_init (env_irq env) (env_idt env) (kports k1)"
  define k2 where "k2 = upd_heap (\<lambda>h. h\<lparr>hmachine := (hmachine h)\<lparr>interrupts := idt_interrupts idt\<rparr>\<rparr>)
      (k1\<lparr>kports := idt_ports idt\<rparr>)"
  have h2: "heap k2 = (heap k)\<lparr>hmachine := s\<lparr>interrupts := True\<rparr>\<rparr>"
    by (simp add: k2_def k1_def keyboard_construct_def upd_heap_def s_def idt_def idt_init_def)
  obtain s3 where s3: "memoryManager_init fp ?buf L mb k2 = Some (initialised L ?buf (of_nat ?t) s3 k2)" "memory_ready L es ms s s3"
    using memoryManager_init_ready [of L mb es ms k2 ?buf fp] ready buf h2 by auto
  define k3 where "k3 = initialised L ?buf (of_nat ?t) s3 k2"
  have k3: "hmachine (heap k3) = s3" "l_initialized (heap k3) = l_initialized (heap k)"
      "hsched (heap k3) = (hsched (heap k))\<lparr>cpu := (cpu (hsched (heap k)))\<lparr>cr3 := kernelPageDirectory L\<rparr>\<rparr>"
    by (simp_all add: k3_def initialised_def h2)
  have main: "main \<noteq> 0" "next_task (tasks (hsched (heap k)) main) = 0" "\<not> l_initialized (heap k)"
    using tasks by (simp_all add: boot_tasks_ok_def Let_def main_def)
  have "?t < 786425 * 4096" using bound by (intro div_less_iff_less_mult [THEN iffD1]) simp_all
  then have T: "unat (TotalMemory (memManData s3) div PAGE_SIZE) \<le> 786424"
    using s3(2) bound by (simp add: memory_ready_def unat_div unat_of_nat32)
  obtain k4 lv where k4: "initGlobalConstructors (env_ctors env) k3 = Some k4" "use_ok L ?Z (hsched (heap k3)) (heap k4, lv)"
      "memory_room L 17 (hmachine (heap k4))"
    using constructors_run [OF ctors, of k3 ?Z] s3(2) main(3) k3 T main_task_page [OF tasks ready] by (auto simp: main_def)
  have "sched_enable (hsched (heap k4)) = sched_enable (hsched (heap k3))" using k4(2) by (simp add: use_ok_def)
  then have same: "mainTask (hsched (heap k4)) = mainTask (hsched (heap k3))" "tasks (hsched (heap k4)) = tasks (hsched (heap k3))"
      "cpu (hsched (heap k4)) = cpu (hsched (heap k3))"
    by (metis sched_enable_fields)+
  obtain t' k6 task where k6: "tty_open L (env_tty env) (env_tty_process env) t (scheduler_start (env_eflags env) k4) = Some (t', k6)"
    "console_started L (env_tty env) (env_tty_process env) main (heap k6) lv task"
    using tty_open_starts_task [of L k4 lv "env_tty env" "env_tty_process env" t "env_eflags env"] k4(2,3) main same k3(3)
    by (auto simp: use_ok_def main_def)
  have "kernel_printk fp ?buf (ascii ''Sakura 1.0.0'' @ [13]) [] k' = Some (shown ?buf (ascii ''Sakura 1.0.0'' @ [13]) k')" for k'
  proof (rule kernel_printk_shown [OF _ buf])
    show "vsnprintf_loop fp n (ascii ''Sakura 1.0.0'' @ [13]) [] st = Some (put_all n (ascii ''Sakura 1.0.0'' @ [13]) st)" for n st
      using vsnprintf_loop_literal [of "ascii ''Sakura 1.0.0'' @ [13]" fp n "[]" "[]" st] by (simp add: ascii_def)
  qed (simp add: ascii_def)
  then have "kernel_main fp env 0x2BADB002 mb t k =
      Some (Started (gdt_init (env_tss env) (env_gdt env)) idt t'
        (shown ?buf (ascii ''Sakura 1.0.0'' @ [13]) (k6\<lparr>console := (fst (console k6), Some t')\<rparr>)))"
    using s3(1) [folded k3_def] k4(1) k6(1)
    unfolding kernel_main_def Let_def k1_def [symmetric] idt_def [symmetric] k2_def [symmetric] L_def by simp
  moreover have "heap (shown ?buf cs (k6\<lparr>console := c\<rparr>)) = heap k6" for cs c by (simp add: shown_def)
  moreover have "kports k1 = serial_Init (kports k)" by (simp add: k1_def)
  ultimately show ?thesis using k6(2) by (fastforce simp: idt_def)
qed

text \<open>Another loader's magic number stops the kernel: it says so, and memory and tasks are as they were.\<close>

lemma other_loader_stops:
  assumes "magic_number \<noteq> 0x2BADB002" "env_buf env \<noteq> 0"
  shows "\<exists>k'. kernel_main fp env magic_number mb t k = Some (Stopped (gdt_init (env_tss env) (env_gdt env)) k') \<and> heap k' = heap k \<and>
    console k' = console (shown (env_buf env) (ascii ''Booted with an unsupported bootloader '' @ decimal magic_number @ [13, 10]) k)"
proof -
  let ?k1 = "(keyboard_construct k)\<lparr>kports := serial_Init (kports k)\<rparr>"
  have fmt: "ascii ''Booted with an unsupported bootloader %d'' @ [13, 10] = ascii ''Booted with an unsupported bootloader '' @ 37 # 100 # [13, 10]"
    by (simp add: ascii_def)
  have "kernel_printk fp (env_buf env) (ascii ''Booted with an unsupported bootloader %d'' @ [13, 10]) [VWord magic_number] ?k1 =
      Some (shown (env_buf env) (ascii ''Booted with an unsupported bootloader '' @ decimal magic_number @ [13, 10]) ?k1)"
    unfolding fmt by (rule kernel_printk_decimal) (simp_all add: ascii_def assms(2))
  then show ?thesis using assms(1) by (simp add: kernel_main_def Let_def shown_def keyboard_construct_def)
qed

subsection \<open>A machine that boots\<close>

text \<open>Its one constructor takes an object of 100 bytes from the heap and keeps it.\<close>

definition new_object :: "kernel \<Rightarrow> kernel option" where
  "new_object k = map_option (\<lambda>(p, h). k\<lparr>heap := h\<rparr>) (kmalloc boot_layout 100 (heap k))"

definition pc_env :: boot_env where
  "pc_env = \<lparr>env_layout = boot_layout, env_buf = 0x900, env_tty = 0x3000, env_tty_process = 0x101000, env_irq = (\<lambda>_. 0),
     env_idt = 0x180000, env_tss = 0x181000, env_gdt = 0x182000, env_eflags = 2, env_ctors = [new_object]\<rparr>"

lemma pc_room: "boot_room boot_layout 50 pc_entries [(0x500000, 0x501800)] pc_loaded"
proof -
  have zero: "kentry boot_layout pc_loaded p = 0" if "p < 262144" for p
  proof -
    have "layout_ok boot_layout" by (simp add: layout_ok_def boot_layout_def)
    then have a: "unat (kentry_addr boot_layout p) = 0x300000 + 4 * p"
      using kentry_addr_aligned [OF _ that] by (simp add: boot_layout_def)
    have "ram pc_loaded (kentry_addr boot_layout p + j) = 0" if j: "j < 4" for j
    proof -
      have "unat (kentry_addr boot_layout p + j) = 0x300000 + 4 * p + unat j"
        using a j \<open>p < 262144\<close> by (simp add: unat_word_ariths word_less_nat_alt)
      then show ?thesis by (simp add: pc_loaded_def pc_table_def table_machine_def)
    qed
    from this [of 0] this [of 1] this [of 2] this [of 3] show ?thesis by (simp add: kentry_def load32_def)
  qed
  have "{2000 ..< 2000 + 50} \<subseteq> {0 ..< 159} \<union> {256 ..< 4352} - ({..< 1026} \<union> {1280 ..< 1282 :: nat})" by auto
  moreover have "{2000 ..< 2000 + 50} \<inter> ({..< 1026} \<union> {1280 ..< 1282 :: nat}) = {}" by auto
  ultimately show ?thesis
    unfolding boot_room_def Let_def pc_usable(2,3) pc_taken using zero
    by (intro conjI exI [of _ 2000]) (simp_all add: entry_present_def)
qed

text \<open>What an allocation of \<open>n\<close> pages leaves of a longer run: \<open>k\<close> pages before it or after it.\<close>

lemma room_left_run:
  assumes room: "memory_room L (n + 2 * k) s" and al: "allocated L n q f s s'"
  shows "memory_room L k s'"
proof -
  obtain v g where v: "256 \<le> v" "free_run L s (n + 2 * k) v"
    and g: "g + (n + 2 * k) \<le> unat (TotalMemory (memManData s) div PAGE_SIZE)" "{g ..< g + (n + 2 * k)} \<inter> used_pages (memManData s) = {}"
    using room by (auto simp: memory_room_def)
  have "free_run L s n v" using v(2) by (simp add: free_run_def)
  then have "q \<le> v" using al v(1) unfolding allocated_def first_run_def by (meson not_le)
  then have "kentry L s' r = kentry L s r" if "r \<in> {v + n ..< v + n + k}" for r
    using al v(2) that by (simp add: allocated_def free_run_def)
  then have "free_run L s' k (v + n)" using v(2) by (auto simp: free_run_def)
  moreover define r where "r = (if f < g + k then g + k + n else g)"
  have "{r ..< r + k} \<inter> {f ..< f + n} = {}" "{r ..< r + k} \<subseteq> {g ..< g + (n + 2 * k)}" by (auto simp: r_def)
  then have "{r ..< r + k} \<inter> used_pages (memManData s') = {}" using g(2) al unfolding allocated_def by blast
  moreover have "r + k \<le> unat (TotalMemory (memManData s') div PAGE_SIZE)" using g(1) al by (auto simp: r_def allocated_def)
  ultimately show ?thesis using v(1) unfolding memory_room_def by (meson trans_le_add1)
qed

lemma pc_constructors: "constructors_ok boot_layout pc_entries [(0x500000, 0x501800)] pc_loaded (env_ctors pc_env)"
  unfolding constructors_ok_def
proof (intro allI impI, elim conjE)
  fix k :: kernel
  let ?L = boot_layout and ?s = "hmachine (heap k)"
  assume ready: "memory_ready ?L pc_entries [(0x500000, 0x501800)] pc_loaded ?s" and fresh: "\<not> l_initialized (heap k)"
  note room = memory_ready_room [OF ready pc_room]
  have "mm_inv ?L (kernelPageDirectory ?L) ?s" using ready by (simp add: memory_ready_def mapped_in_def)
  then have live: "heap_live ?L (heap k) (\<lambda>_. None)" using heap_live_empty [of ?L "heap k"] fresh room by simp
  have "memory_room ?L 16 ?s" using room memory_room_mono [of ?L 50 ?s 16] by simp
  then obtain p h where h: "kmalloc ?L 100 (heap k) = Some (p, h)" "p \<noteq> 0"
      "hmachine h = ?s \<or> (\<exists>q f. allocated ?L 16 q f ?s (hmachine h))"
    using kmalloc_room [OF live, of 100] by (auto simp: new_block_pages_def)
  have "memory_room ?L 17 (hmachine h)" using h(3)
  proof (elim disjE exE)
    fix q f assume "allocated ?L 16 q f ?s (hmachine h)"
    then show ?thesis using room_left_run [of ?L 16 17 ?s q f "hmachine h"] room by simp
  qed (use room memory_room_mono [of ?L 50 _ 17] in simp)
  moreover have "heap_use ?L (heap k, \<lambda>_. None) (h, [p \<mapsto> 100])" using heap_use.get [OF h(1), of "\<lambda>_. None"] h(2) by simp
  ultimately show "\<exists>k' lv. initGlobalConstructors (env_ctors pc_env) k = Some k' \<and> (heap_use ?L)\<^sup>*\<^sup>* (heap k, \<lambda>_. None) (heap k', lv) \<and>
      memory_room ?L 17 (hmachine (heap k'))"
    using h(1) by (intro exI [of _ "k\<lparr>heap := h\<rparr>"] exI [of _ "[p \<mapsto> 100]"])
      (auto simp: initGlobalConstructors_def pc_env_def new_object_def)
qed

section \<open>Properties\<close>



end
