(* ===== verification/Program_Run.thy ===== *)
theory Program_Run
  imports Loader Boot_Run
begin

text \<open>
  Programs in a running kernel: \<open>load\<close> of \<open>Elf.cpp\<close> as a whole, from the header to the started task, and
  what it leaves of the heap, the tasks and the address space of the kernel that runs it.
\<close>

section \<open>Facts\<close>

lemma resident_kept:
  assumes inv: "mm_inv L (kernelPageDirectory L) s" and P: "resident L s P" and keeps: "keeps_used L s s'"
  shows "resident L s' P"
proof -
  let ?p = "unat (kernelPageDirectory L) div 4096"
  note dir = mm_inv_directory_page [OF inv]
  have K: "cr3_reg s' = cr3_reg s" "used_pages (memManData s) \<subseteq> used_pages (memManData s')"
      "\<And>r. r < 262144 \<Longrightarrow> entry_present (kentry L s r) \<Longrightarrow> kentry L s' r = kentry L s r"
    using keeps by (auto simp: keeps_used_def)
  have "kentry L s' ?p = kentry L s ?p" using K(3) dir by blast
  then show ?thesis using P K unfolding resident_def by auto
qed

text \<open>Mapping pages that were not mapped takes nothing from the heap.\<close>

lemma heap_live_grown:
  assumes live: "heap_live L h lv" and inv: "mm_inv L (kernelPageDirectory L) s'" and g: "grown Q L (hmachine h) s'"
    and Q: "\<And>r. r \<in> Q \<Longrightarrow> \<not> entry_present (kentry L (hmachine h) r)"
    and h': "tags h' = tags h" "l_freePages h' = l_freePages h" "l_completePages h' = l_completePages h"
      "l_initialized h' = l_initialized h" "hmachine h' = s'"
  shows "heap_live L h' lv"
proof (rule heap_live_machine [OF live _ _ h'])
  let ?s = "hmachine h"
  show "TotalMemory (memManData s') = TotalMemory (memManData ?s)" using g by (simp add: grown_def)
  fix B assume P: "pages_ok L {} ?s B"
  have same: "kentry L s' r = kentry L ?s r" if "r < 262144" "entry_present (kentry L ?s r)" for r
    using g Q that unfolding grown_def by blast
  have "owns L s' bn" if bn: "bn \<in> B" for bn
  proof -
    have own: "owns L ?s bn" using P bn by (simp add: pages_ok_def)
    have "owns L s' bn = owns L ?s bn"
    proof (rule owns_cong)
      fix r assume r: "r \<in> insert (unat (kernelPageDirectory L) div 4096) {unat (fst bn) div 4096 ..< unat (fst bn) div 4096 + snd bn}"
      show "kentry L s' r = kentry L ?s r"
      proof (cases "r = unat (kernelPageDirectory L) div 4096")
        case False
        then obtain k where "r = unat (fst bn) div 4096 + k" "k < snd bn"
          using r by (metis insertE atLeastLessThan_iff le_Suc_ex add_less_cancel_left)
        then show ?thesis using own by (intro same) (auto simp: owns_def Let_def)
      qed (use same mm_inv_directory_page [where L = L and s = ?s] P in \<open>simp add: pages_ok_def\<close>)
    qed (use g in \<open>simp add: grown_def\<close>)
    then show ?thesis using own by simp
  qed
  then show "pages_ok L {} s' B" using P inv by (simp add: pages_ok_def)
qed

lemma run_ok_machine:
  assumes ok: "run_ok L r" and live: "heap_live L h' (blocks r)" and h': "hsched h' = hsched (rheap r)"
    "cr3_reg (hmachine h') = cr3_reg (hmachine (rheap r))"
  shows "run_ok L (r\<lparr>rheap := h'\<rparr>)"
proof (rule run_okI)
  have "blocks (r\<lparr>rheap := h'\<rparr>) = blocks r" by (simp add: blocks_def fun_eq_iff)
  then show "heap_live L (rheap (r\<lparr>rheap := h'\<rparr>)) (blocks (r\<lparr>rheap := h'\<rparr>))" using live by simp
qed (use ok h' run_ok_all_on [OF ok] in \<open>simp_all add: run_okD\<close>)

text \<open>A program that \<open>load\<close> can take on: an accepted file whose segments go to pages nobody uses.\<close>

definition program_at :: "layout \<Rightarrow> nat set \<Rightarrow> addr \<Rightarrow> machine \<Rightarrow> bool" where
  "program_at L P elf s \<longleftrightarrow> elf \<noteq> 0 \<and> resident L s P \<and> loadable L P (ram s) elf \<and>
     elf_error (map (\<lambda>i. ram s (elf + of_nat i)) [0 ..< 20]) = None"

definition room_for_program :: "layout \<Rightarrow> memory \<Rightarrow> addr \<Rightarrow> machine \<Rightarrow> bool" where
  "room_for_program L m elf s \<longleftrightarrow>
     (\<forall>j < phnum m elf. \<forall>q \<in> seg_pages m elf j. \<not> entry_present (kentry L s q)) \<and>
     (\<exists>F. F + (\<Sum>j < phnum m elf. seg_count m elf j) \<le> unat (TotalMemory (memManData s) div PAGE_SIZE) \<and>
       {F ..< F + (\<Sum>j < phnum m elf. seg_count m elf j)} \<inter> used_pages (memManData s) = {})"

lemma file_accepted:
  assumes inv: "mm_inv L (kernelPageDirectory L) (hmachine (heap k))" and prog: "program_at L P elf (hmachine (heap k))" and buf: "buf \<noteq> 0"
  shows "verifyElfHeader fp buf elf k = Some (True, k)"
proof -
  let ?s = "hmachine (heap k)"
  let ?bs = "map (\<lambda>i. ram ?s (elf + of_nat i)) [0 ..< 20]"
  have P: "resident L ?s P" "loadable L P (ram ?s) elf" "elf \<noteq> 0" "elf_error ?bs = None"
    using prog by (simp_all add: program_at_def)
  have "kspace L ?s" using inv by (simp add: mm_inv_def)
  then have "vload8 ?s (elf + of_nat i) = Some (?bs ! i)" if "i < 20" for i
    using resident_self [OF _ P(1), of "elf + of_nat i"] loadableD(7) [OF P(2), of i] that by (simp add: vload8_def)
  then show ?thesis using verifyElfHeader_result [OF P(3) buf, of k ?bs] P(4) by simp
qed

text \<open>The new task leaves the file alone, so the segments are loaded from it as they were.\<close>

lemma file_loaded:
  assumes inv: "mm_inv L (kernelPageDirectory L) s" "mm_inv L (kernelPageDirectory L) t" and prog: "program_at L P elf s"
    and keeps: "keeps_used L s t" and T: "unat (TotalMemory (memManData t) div PAGE_SIZE) \<le> 786424"
    and room: "room_for_program L (ram s) elf t"
  shows "\<exists>s'. load_segments (kernelPageDirectory L) elf 0 t = Some s' \<and> loaded_upto L P (ram s) elf (phnum (ram s) elf) s' \<and>
    grown (\<Union>j \<in> {0 ..< phnum (ram s) elf}. seg_pages (ram s) elf j) L t s' \<and>
    vload32 s' (elf + 24) = Some (load32 (ram s) (elf + 24))"
proof -
  let ?m = "ram s"
  have P: "resident L s P" "loadable L P ?m elf" using prog by (simp_all add: program_at_def)
  have "ram t a = ?m a" if "unat a div 4096 \<in> P" for a
  proof -
    have "unat a div 4096 \<in> used_pages (memManData s) - table_pages L" using P(1) that by (auto simp: resident_def)
    then show ?thesis using keeps by (simp add: keeps_used_def)
  qed
  then have "loaded_upto L P ?m elf 0 t"
    using inv(2) T resident_kept [OF inv(1) P(1) keeps] room
    unfolding room_for_program_def by (auto simp: loaded_upto_def lessThan_atLeast0)
  then obtain s' where s': "load_segments (kernelPageDirectory L) elf 0 t = Some s'" "loaded_upto L P ?m elf (phnum ?m elf) s'"
      "grown (\<Union>j \<in> {0 ..< phnum ?m elf}. seg_pages ?m elf j) L t s'"
    using load_segments_from [OF P(2), of 0 t] by auto
  note U = loaded_uptoD [OF s'(2)]
  have K: "kspace L s'" using U(1) by (simp add: mm_inv_def)
  have "load32 (ram s') (elf + of_nat 24) = load32 ?m (elf + of_nat 24)"
    by (rule load32_bytewise, rule U(5)) (use loadableD(7) [OF P(2)] header_field_kept(1) [OF P(2) le_refl] in auto)
  then have "vload32 s' (elf + 24) = Some (load32 ?m (elf + 24))"
    using vload_resident(1) [OF K U(2), of "elf + 24"] loadableD(7) [OF P(2), of 24] by simp
  then show ?thesis using s' by blast
qed

lemma load_program:
  assumes ok: "run_ok L r" and k: "rheap r = heap k" and prog: "program_at L P elf (hmachine (heap k))" and buf: "buf \<noteq> 0"
    and mem: "createTask L False 0 (heap k) = Some (task, h2)" "task \<noteq> 0" "task \<noteq> mainTask (hsched (heap k))"
      "esp (regs (tasks (hsched h2) task)) \<noteq> 0xFFC"
    and room: "room_for_program L (ram (hmachine (heap k))) elf (hmachine h2)"
  defines "m \<equiv> ram (hmachine (heap k))"
  shows "\<exists>k' s'. load fp buf L elf len k = Some (True, k') \<and>
    heap k' = h2\<lparr>hmachine := s', hsched := taskStart task (load32 m (elf + 24)) (hsched h2)\<rparr> \<and>
    run_ok L (r\<lparr>rheap := heap k', spawned := spawned r @ [task]\<rparr>) \<and> loaded_upto L P m elf (phnum m elf) s'"
proof -
  let ?s = "hmachine (heap k)" and ?pd = "kernelPageDirectory L"
  have live: "heap_live L (heap k) (blocks r)" using run_okD(1) [OF ok] k by simp
  note inv = heap_live_inv [OF live]
  have run: "cr3 (regs (getRunningTask (hsched (heap k)))) = ?pd"
    using run_okD(3) [OF ok] run_ok_all_on [OF ok] k by (auto simp: getRunningTask_def ring_def all_on_def)
  have made: "heap_live L h2 ((blocks r)(task \<mapsto> 92))" "\<exists>stack. task_ready L task stack 0 (heap k) h2" "keeps_used L ?s (hmachine h2)"
    using createTask_outcomes [OF live run, of 0] mem createTask_no_stack [OF mem(1) _ run] createTask_frame [OF mem(1)] by auto
  note inv2 = heap_live_inv [OF made(1)]
  obtain s' where s': "load_segments ?pd elf 0 (hmachine h2) = Some s'" "loaded_upto L P m elf (phnum m elf) s'"
      "grown (\<Union>j \<in> {0 ..< phnum m elf}. seg_pages m elf j) L (hmachine h2) s'" "vload32 s' (elf + 24) = Some (load32 m (elf + 24))"
    using file_loaded [OF inv(1) inv2(1) prog made(3) inv2(2) room] unfolding m_def by blast
  let ?e = "load32 m (elf + 24)"
  let ?h' = "h2\<lparr>hmachine := s', hsched := taskStart task ?e (hsched h2)\<rparr>" and ?h3 = "h2\<lparr>hsched := taskStart task ?e (hsched h2)\<rparr>"
  let ?r3 = "r\<lparr>rheap := ?h3, spawned := spawned r @ [task]\<rparr>"
  have ok3: "run_ok L ?r3" using run_ok_spawn [OF ok, of 0 task h2 ?e] mem k by simp
  have "\<not> entry_present (kentry L (hmachine (rheap ?r3)) q)" if "q \<in> (\<Union>j \<in> {0 ..< phnum m elf}. seg_pages m elf j)" for q
    using that room by (auto simp: room_for_program_def m_def)
  then have "heap_live L ?h' (blocks ?r3)"
    using heap_live_grown [OF run_okD(1) [OF ok3] loaded_uptoD(1) [OF s'(2)], of "\<Union>j \<in> {0 ..< phnum m elf}. seg_pages m elf j" ?h'] s'(3) by simp
  then have "run_ok L (?r3\<lparr>rheap := ?h'\<rparr>)"
    using run_ok_machine [OF ok3, of ?h'] s'(3) by (simp add: grown_def)
  moreover have "?r3\<lparr>rheap := ?h'\<rparr> = r\<lparr>rheap := ?h', spawned := spawned r @ [task]\<rparr>" by simp
  moreover have "cr3 (regs (tasks (hsched h2) task)) = ?pd" using made(2) by (auto simp: task_ready_def Let_def)
  then have "load fp buf L elf len k = Some (True, k\<lparr>heap := ?h'\<rparr>)"
    using file_accepted [OF inv(1) prog buf] mem(1) s'(1,4) by (simp add: load_def)
  ultimately show ?thesis using s'(2) by (intro exI [of _ "k\<lparr>heap := ?h'\<rparr>"] exI [of _ s']) simp
qed

section \<open>The example module, loaded\<close>

text \<open>What the first task takes of the machine: sixteen pages for the heap and one for the stack.\<close>

lemma createTask_machine:
  assumes "createTask L False arg h = Some (t, h')" "cr3 (regs (getRunningTask (hsched h))) = kernelPageDirectory L"
  shows "\<exists>h1 stack s4. kmalloc L 92 h = Some (t, h1) \<and>
    memoryAllocate (kernelPageDirectory L) TASK_STACK_SIZE False (hmachine h1) = Some (stack, s4) \<and>
    vstore32 (stack + 0xFFC) arg s4 = Some (hmachine h')"
proof -
  from assms(1) obtain h1 where h1: "kmalloc L 92 h = Some (t, h1)"
    by (auto simp: createTask_def bind_eq_Some_conv Let_def memoryAllocate_running_def)
  then have "tasks (hsched h1) = tasks (hsched h)" "m_runningTask (hsched h1) = m_runningTask (hsched h)"
    by (simp_all add: kmalloc_sched [OF h1] sched_enable_def)
  then show ?thesis using assms h1
    by (cases "m_runningTask (hsched h) = t")
      (auto simp: createTask_def bind_eq_Some_conv Let_def memoryAllocate_running_def getRunningTask_def upd_task_def add.commute)
qed

lemma first_task_takes:
  assumes live: "heap_live L h (\<lambda>_. None)" and fresh: "\<not> l_initialized h" and room: "memory_room L 17 (hmachine h)"
    and create: "createTask L False arg h = Some (t, h')" "cr3 (regs (getRunningTask (hsched h))) = kernelPageDirectory L"
  shows "\<exists>s1 s2 q f q' f'. allocated L 16 q f (hmachine h) s1 \<and> allocated L 1 q' f' s1 s2 \<and> frames_differ L {f'} s2 (hmachine h')"
proof -
  obtain p h1 q f where k: "kmalloc L 92 h = Some (p, h1)" "allocated L 16 q f (hmachine h) (hmachine h1)"
      "mm_inv L (kernelPageDirectory L) (hmachine h1)"
    using first_kmalloc [OF live fresh room] by blast
  have T: "unat (TotalMemory (memManData (hmachine h)) div PAGE_SIZE) \<le> 786424" "TotalMemory (memManData (hmachine h1)) = TotalMemory (memManData (hmachine h))"
    using heap_live_inv(2) [OF live] k(2) by (simp_all add: allocated_def)
  have "num_pages 0x1000 = 1" by (simp add: num_pages_def)
  moreover have "memory_room L 1 (hmachine h1)" using room_left [OF _ k(2) T(1)] room by simp
  ultimately obtain q' f' s2 where s2: "memoryAllocate (kernelPageDirectory L) 0x1000 False (hmachine h1) = Some (of_nat q' * 4096, s2)"
      "allocated L 1 q' f' (hmachine h1) s2" "mm_inv L (kernelPageDirectory L) s2"
    using room_allocates [OF k(3), of "0x1000"] T by auto
  have "table_pages L \<subseteq> used_pages (memManData (hmachine h1))" using k(3) by (simp add: mm_inv_def)
  note st = stack_store [OF s2(3,2) this, of arg]
  have "vstore32 (of_nat q' * 4096 + 0xFFC) arg s2 = Some (hmachine h')"
    using createTask_machine [OF create] k(1) s2(1) by auto
  then have "frames_differ L {f'} s2 (hmachine h')" using st(1,2) by simp
  then show ?thesis using k(2) s2(2) by blast
qed

definition module_kernel :: kernel where
  "module_kernel = (demo_kernel [])\<lparr>heap := boot_heap\<lparr>hmachine := module_machine, hsched := booted\<lparr>cpu := idle_regs\<lparr>cr3 := 0x200000\<rparr>\<rparr>\<rparr>\<rparr>"

lemma module_machine_facts:
  "unat (TotalMemory (memManData module_machine) div PAGE_SIZE) = 4096" "used_pages (memManData module_machine) = {..< 1024}"
  "cr3_reg module_machine = 0x200000" "r < 262144 \<Longrightarrow> r \<noteq> 0x280 \<Longrightarrow> kentry boot_layout module_machine r = kentry boot_layout boot_machine r"
proof -
  show "unat (TotalMemory (memManData module_machine) div PAGE_SIZE) = 4096" "used_pages (memManData module_machine) = {..< 1024}"
    "cr3_reg module_machine = 0x200000"
    using boot_frames by (simp_all add: module_machine_def Let_def boot_machine_def)
  let ?s = "put_entry boot_layout 0x280 (set_entry 0 False 0x280) boot_machine"
  have L: "layout_ok boot_layout" by (simp add: layout_ok_def boot_layout_def)
  have fd: "frames_differ boot_layout {0x280} ?s module_machine"
    by (simp add: frames_differ_def module_machine_def Let_def boot_pages)
  assume "r < 262144" "r \<noteq> 0x280"
  then show "kentry boot_layout module_machine r = kentry boot_layout boot_machine r"
    using kentry_frames [OF L fd] kentry_put_entry [OF L _ \<open>r < 262144\<close>, of "0x280"] by simp
qed

lemma module_room: "memory_room boot_layout 17 module_machine"
proof -
  have "kentry boot_layout module_machine r = 0" if "r \<in> {256 ..< 256 + 17}" for r
    using that module_machine_facts(4) [of r] boot_entries(4) [of r]
    by (auto simp: kentry_def kentry_addr_def boot_machine_def boot_layout_def)
  then have "free_run boot_layout module_machine 17 256" unfolding free_run_def by (simp add: entry_present_def)
  moreover have "{1024 ..< 1024 + 17} \<inter> used_pages (memManData module_machine) = {}" by (auto simp: module_machine_facts)
  ultimately show ?thesis
    unfolding memory_room_def by (intro conjI exI [of _ 256] exI [of _ 1024]) (simp_all add: module_machine_facts(1))
qed

lemma module_program: "program_at boot_layout {0x280} 0x280000 module_machine"
proof -
  have "map (\<lambda>i. ram module_machine (0x280000 + of_nat i)) [0 ..< 20] = map module_byte [0 ..< 20]"
    using module_page(2) by (intro map_cong) simp_all
  moreover have "elf_error (map module_byte [0 ..< 20]) = None"
    by (simp add: elf_error_def elf_checks_def module_byte_def)
  ultimately have "elf_error (map (\<lambda>i. ram module_machine (0x280000 + of_nat i)) [0 ..< 20]) = None" by (simp only:)
  then show ?thesis using module_inv(2) module_loadable unfolding program_at_def by simp
qed

text \<open>The heap and the stack of the first task lie below the segments.\<close>

lemma module_segments_fit:
  assumes al: "allocated boot_layout 16 q f module_machine s1" "allocated boot_layout 1 q' f' s1 s2" and fd: "frames_differ boot_layout {f'} s2 s"
  shows "room_for_program boot_layout (ram module_machine) 0x280000 s"
proof -
  let ?L = boot_layout and ?m = "ram module_machine"
  have L: "layout_ok ?L" by (simp add: layout_ok_def boot_layout_def)
  have zero: "kentry ?L module_machine r = 0" if "256 \<le> r" "r < 262144" "r \<notin> insert 0x200 (insert 0x280 {0x300 ..< 0x400})" for r
    using that module_machine_facts(4) [of r] boot_entries(4) [of r]
    by (auto simp: kentry_def kentry_addr_def boot_machine_def boot_layout_def)
  have "free_run ?L module_machine 16 256" using zero by (auto simp: free_run_def entry_present_def)
  then have q: "q \<le> 256" using al(1) unfolding allocated_def first_run_def by (meson le_refl not_le)
  have s1: "kentry ?L s1 r = kentry ?L module_machine r" if "r < 262144" "272 \<le> r" for r
    using al(1) q that by (simp add: allocated_def)
  then have "\<not> entry_present (kentry ?L s1 272)" using zero [of 272] by (simp add: entry_present_def)
  moreover have "{272 ..< 272 + 1} = {272 :: nat}" by auto
  ultimately have "free_run ?L s1 1 272" unfolding free_run_def by simp
  moreover have "\<forall>r. 256 \<le> r \<and> r < q' \<longrightarrow> \<not> free_run ?L s1 1 r" using al(2) unfolding allocated_def first_run_def by blast
  then have "272 < q' \<longrightarrow> \<not> free_run ?L s1 1 272" by simp
  ultimately have q': "q' \<le> 272" by simp
  have "kentry ?L s r = kentry ?L module_machine r" if "r < 262144" "273 \<le> r" for r
    using kentry_frames [OF L fd that(1)] al(2) q' s1 that by (simp add: allocated_def)
  then have "\<not> entry_present (kentry ?L s 0x600)" "\<not> entry_present (kentry ?L s 0x700)"
    using zero [of "0x600"] zero [of "0x700"] by (simp_all add: entry_present_def)
  moreover have pages: "seg_pages ?m 0x280000 0 = {0x600}" "seg_pages ?m 0x280000 (Suc 0) = {0x700}"
    by (auto simp: seg_pages_def module_segments)
  ultimately have "\<forall>j < phnum ?m 0x280000. \<forall>q \<in> seg_pages ?m 0x280000 j. \<not> entry_present (kentry ?L s q)"
    using pages by (auto simp: module_segments(1) less_2_cases_iff)
  moreover have sum: "(\<Sum>j < phnum ?m 0x280000. seg_count ?m 0x280000 j) = 2"
    by (simp add: module_segments lessThan_Suc numeral_2_eq_2)
  have U: "used_pages (memManData s) = {..< 1024} \<union> {f ..< f + 16} \<union> {f' ..< f' + 1}"
    using al fd module_machine_facts(2) by (simp add: allocated_def frames_differ_def)
  have T: "unat (TotalMemory (memManData s) div PAGE_SIZE) = 4096"
    using al fd module_machine_facts(1) by (simp add: allocated_def frames_differ_def)
  define ok where "ok F \<longleftrightarrow> (F + 2 \<le> f \<or> f + 16 \<le> F) \<and> (F + 2 \<le> f' \<or> f' < F)" for F
  have "ok 2000 \<or> ok 2100 \<or> ok 2200" unfolding ok_def by linarith
  then obtain F where F: "ok F" "F + 2 \<le> 4096" "1024 \<le> F" by auto
  have "{F ..< F + 2} \<inter> used_pages (memManData s) = {}" unfolding U using F(1,3) by (auto simp: ok_def)
  moreover have "F + 2 \<le> 4096" by (rule F(2))
  ultimately show ?thesis unfolding room_for_program_def sum T by blast
qed

section \<open>Properties\<close>

text \<open>
  Property C15: in any state of a run, \<open>load\<close> of an accepted file whose segments go to pages that are not
  mapped returns true, given memory for the task and frames for the segments. The new task is the
  last of the ring, running, at the entry point of the file; every byte of every segment is at its
  address, rounded down to the page; and the kernel stays safe in every run from there.
\<close>

theorem load_starts_program:
  assumes "run_ok L r" and "rheap r = heap k" and "program_at L P elf (hmachine (heap k))" and "buf \<noteq> 0"
    and "createTask L False 0 (heap k) = Some (task, h2)" and "task \<noteq> 0" and "task \<noteq> mainTask (hsched (heap k))"
    and "esp (regs (tasks (hsched h2) task)) \<noteq> 0xFFC"
    and "room_for_program L (ram (hmachine (heap k))) elf (hmachine h2)"
  shows "\<exists>k' r' m. load fp buf L elf len k = Some (True, k') \<and> r' = r\<lparr>rheap := heap k', spawned := spawned r @ [task]\<rparr> \<and>
    m = ram (hmachine (heap k)) \<and>
    task_state (tasks (hsched (heap k')) task) = Running \<and> eip (regs (tasks (hsched (heap k')) task)) = load32 m (elf + 24) \<and>
    (\<forall>j < phnum m elf. \<forall>i < unat (seg_size m elf j). seg_data m elf j + of_nat i \<notin> rewritten m elf (phnum m elf) \<longrightarrow>
       vload8 (hmachine (heap k')) (seg_addr m elf j - seg_addr m elf j mod PAGE_SIZE + of_nat i) = Some (m (seg_data m elf j + of_nat i))) \<and>
    (\<forall>r''. (kernel_step L)\<^sup>*\<^sup>* r' r'' \<longrightarrow> kernel_safe L r'')"
proof -
  define m where "m = ram (hmachine (heap k))"
  obtain k' s' where k': "load fp buf L elf len k = Some (True, k')"
      "heap k' = h2\<lparr>hmachine := s', hsched := taskStart task (load32 m (elf + 24)) (hsched h2)\<rparr>"
      "run_ok L (r\<lparr>rheap := heap k', spawned := spawned r @ [task]\<rparr>)" "loaded_upto L P m elf (phnum m elf) s'"
    using load_program [OF assms] unfolding m_def by blast
  have "kernel_safe L r''" if "(kernel_step L)\<^sup>*\<^sup>* (r\<lparr>rheap := heap k', spawned := spawned r @ [task]\<rparr>) r''" for r''
    using run_ok_safe [OF kernel_runs.reachable [OF that k'(3)]] .
  moreover have "hmachine (heap k') = s'" "hsched (heap k') = taskStart task (load32 m (elf + 24)) (hsched h2)" by (simp_all add: k'(2))
  ultimately show ?thesis
    using k'(1) loaded_uptoD(7) [OF k'(4)] page_start(2) taskStart_fields(3,4)
    by (intro exI [of _ k'] exI [of _ m] exI conjI) (auto simp: m_def seg_page_def)
qed

theorem load_starts_program_witness:
  "\<exists>k k' task. hmachine (heap k) = module_machine \<and> load blank_fpu 0x900 boot_layout 0x280000 4096 k = Some (True, k') \<and>
     eip (regs (tasks (hsched (heap k')) task)) = 0x600000 \<and> task_state (tasks (hsched (heap k')) task) = Running \<and>
     vload8 (hmachine (heap k')) 0x600001 = Some 20"
proof -
  let ?L = boot_layout and ?k = "scheduler_start 2 module_kernel" and ?m = "ram module_machine"
  let ?r = "\<lparr>rheap = heap ?k, held = (\<lambda>_. None), spawned = []\<rparr>"
  have mk: "hmachine (heap module_kernel) = module_machine" "\<not> l_initialized (heap module_kernel)" "mainTask (hsched (heap module_kernel)) = 16"
      "next_task (tasks (hsched (heap module_kernel)) 16) = 0" "cr3 (cpu (hsched (heap module_kernel))) = 0x200000" "kernelPageDirectory ?L = 0x200000"
    by (simp_all add: module_kernel_def boot_heap_def booted_def boot_layout_def)
  have live0: "heap_live ?L (heap module_kernel) (\<lambda>_. None)"
    using heap_live_empty [of ?L "heap module_kernel"] module_inv(1) mk module_machine_facts(1) by simp
  have ok: "run_ok ?L ?r" using mk module_machine_facts(3) by (intro scheduler_start_ok live0) simp_all
  have k: "hmachine (heap ?k) = module_machine" "l_initialized (heap ?k) = l_initialized (heap module_kernel)" "mainTask (hsched (heap ?k)) = 16"
      "m_runningTask (hsched (heap ?k)) = 16"
    by (simp_all add: scheduler_start_def upd_heap_def Let_def upd_regs_def upd_task_def mk)
  have "blocks ?r = (\<lambda>_. None)" by (simp add: blocks_def fun_eq_iff)
  then have live: "heap_live ?L (heap ?k) (\<lambda>_. None)" using run_okD(1) [OF ok] by simp
  have run: "cr3 (regs (getRunningTask (hsched (heap ?k)))) = kernelPageDirectory ?L"
    using run_okD(6) [OF ok, of 16] k(3,4) by (simp add: getRunningTask_def)
  obtain task stk h2 where t: "createTask ?L False 0 (heap ?k) = Some (task, h2)" "task \<noteq> 0" "stk \<noteq> 0" "task_ready ?L task stk 0 (heap ?k) h2"
      "unat task < 0x40000000" "\<not> entry_present (kentry ?L (hmachine (heap ?k)) (unat task div 4096))"
    using createTask_succeeds [OF live _ _ run, of 0] mk(2) k(1,2) module_room by auto
  have "\<exists>p h1 q f. kmalloc ?L 92 (heap ?k) = Some (p, h1) \<and> unat p = q * 4096 + 32"
    using first_kmalloc [OF live] mk(2) k(1,2) module_room by metis
  then obtain q where "unat task = q * 4096 + 32" using createTask_frame [OF t(1)] by auto
  then have "unat task \<noteq> unat (16 :: u32)" by simp
  then have main: "task \<noteq> mainTask (hsched (heap ?k))" unfolding k(3) by metis
  obtain s1 s2 q f q' f' where al: "allocated ?L 16 q f module_machine s1" "allocated ?L 1 q' f' s1 s2" "frames_differ ?L {f'} s2 (hmachine h2)"
    using first_task_takes [OF live _ _ t(1) run] mk(2) k(1,2) module_room by auto
  have prog: "program_at ?L {0x280} 0x280000 (hmachine (heap ?k))" "(0x900 :: addr) \<noteq> 0"
      "room_for_program ?L (ram (hmachine (heap ?k))) 0x280000 (hmachine h2)" "rheap ?r = heap ?k"
    using module_program module_segments_fit [OF al] k(1) by simp_all
  have esp: "esp (regs (tasks (hsched h2) task)) \<noteq> 0xFFC" using t(3,4) by (simp add: task_ready_def Let_def)
  obtain k' where k': "load blank_fpu 0x900 ?L 0x280000 4096 ?k = Some (True, k')" "task_state (tasks (hsched (heap k')) task) = Running"
      "eip (regs (tasks (hsched (heap k')) task)) = load32 ?m (0x280000 + 24)"
      "\<forall>j < phnum ?m 0x280000. \<forall>i < unat (seg_size ?m 0x280000 j). seg_data ?m 0x280000 j + of_nat i \<notin> rewritten ?m 0x280000 (phnum ?m 0x280000) \<longrightarrow>
         vload8 (hmachine (heap k')) (seg_addr ?m 0x280000 j - seg_addr ?m 0x280000 j mod PAGE_SIZE + of_nat i) = Some (?m (seg_data ?m 0x280000 j + of_nat i))"
    using load_starts_program [OF ok prog(4,1,2) t(1,2) main esp prog(3), of blank_fpu 4096] unfolding k(1) by blast
  have "load32 ?m (0x280000 + 24) = 0x600000" using module_words(1) [of 24] by (simp add: module_byte_def)
  moreover have "vload8 (hmachine (heap k')) 0x600001 = Some 20"
    using k'(4) [rule_format, of 0 1] module_page(2) [of 129] module_rewritten [of "0x280081"] by (auto simp: module_segments module_byte_def)
  ultimately show ?thesis using k'(1-3) k(1) by metis
qed

end
