(* ===== verification/Spec2Isabelle.thy ===== *)
theory Spec2Isabelle
  imports Prelude Libk_String Scheduler RingBuffer Printf_Text Kernel_Space Arch Devices Heap Newlib_Words Program_Run
begin

text \<open>
  A verification development for SakuraOS, a small i386 kernel (\<open>src/Kernel\<close>), and for the parts of
  its C library (\<open>src/newlib\<close>) that the kernel's programs reach it through.

  \<^bold>\<open>The program.\<close> The boot loader starts \<open>kernel_main\<close> (\<open>Kernel.cpp\<close>), which sets up the descriptor and
  interrupt tables (\<open>Arch/i386\<close>), reads the boot loader's memory map (\<open>Multiboot.cpp\<close>) into a bitmap of
  physical pages (\<open>PhysicalAllocator.cpp\<close>), maps the kernel (\<open>VirtualMemoryManager.cpp\<close>,
  \<open>MemoryManager.cpp\<close>), starts the scheduler (\<open>Scheduler.cpp\<close>) and opens the console (\<open>TTY.cpp\<close>), whose
  task echoes what the keyboard driver (\<open>Keyboard.cpp\<close>) queues in a ring buffer (\<open>RingBuffer.h\<close>). The
  kernel heap (\<open>kmalloc.cpp\<close>) takes pages from the memory manager; the C++ runtime (\<open>CPP.cpp\<close>) and the
  creation of tasks take memory from the heap. User programs enter through interrupt 128
  (\<open>IDT.cpp\<close>, \<open>Syscalls.cpp\<close>) from the stubs of the C library port (\<open>libc/sys/sakura\<close>).

  \<^bold>\<open>Modelling.\<close> Machine integers are words of their width and wrap as in the code. Pointers are 32-bit
  words. \<open>None\<close> is an access outside an array or to an unmapped page, a loop that does not return, or
  a variadic argument that was not passed. The processor is the record \<open>machine\<close> (\<open>Virtual\<close>): physical
  memory, the page allocator's data, CR3, the paging and the interrupt flag; \<open>xlate\<close> is its page walk.
  Input and output ports are a log of writes and a stream of read values. Static variables are fields
  of the records \<open>scheduler\<close>, \<open>kheap\<close> and \<open>kernel\<close>. The boundary tags of the heap and the task objects
  are kept in stores of their own, apart from the bytes of \<open>ram\<close>; that the client's blocks and the
  tags do not overlap is part of what is proved. So is the static buffer of \<open>printk\<close>: what a text of 100 or
  more characters overwrites behind it is not followed into the other stores. Linker symbols are the record
  \<open>layout\<close>. Floating point is the parameter \<open>fpu\<close> of the formatter, and the functions in the \<open>.ctors\<close> section are the
  parameter \<open>env_ctors\<close> of \<open>kernel_main\<close>. Interrupts come between the operations, or between the turns of
  the loop that reads the keyboard, and none is taken before \<open>kernel_main\<close> has reached its endless loop.

  \<^bold>\<open>Theories.\<close>

  \<^item> \<open>Prelude\<close>: counted loops and their invariant rules, the 32-bit view of byte memory, words.
  \<^item> \<open>Libk_String\<close>: the memory and string functions of \<open>Libk.cpp\<close>; \<open>memmove\<close> copies overlapping ranges.
  \<^item> \<open>RingBuffer\<close>: the class of \<open>RingBuffer.h\<close>, a refinement of a bounded queue (locale \<open>bounded_queue\<close>'s
    interpretation).
  \<^item> \<open>Printf\<close>, \<open>Printf_Text\<close>: \<open>vsnprintf.c\<close>; the text does not depend on the destination, the buffer is
    never overrun by \<open>snprintf\<close>, \<open>%d\<close> prints every integer, digits decode in every base up to the 32
    that fit the conversion buffer.
  \<^item> \<open>Physical\<close>: \<open>PhysicalAllocator.cpp\<close>; first fit, blocks are disjoint, freeing restores (locale
    \<open>page_pool\<close>).
  \<^item> \<open>Virtual\<close>, \<open>Kernel_Space\<close>: page tables, mapping, allocation and freeing of kernel memory and user
    directories, under the invariant \<open>mm_inv\<close> of the kernel's address space. \<open>VirtualMap\<close> is proved once, in
    the locale \<open>directory_walk\<close>, for every way to reach the kernel's tables: through the page tables (here)
    and, before paging is on, directly (in \<open>Boot_Paging\<close>).
  \<^item> \<open>Kmalloc\<close>, \<open>Heap_Lists\<close>, \<open>Heap_Tiling\<close>, \<open>Heap\<close>: \<open>kmalloc.cpp\<close>. The invariant: the chunks tile the page
    blocks, every free chunk hangs exactly once in the list of its class, the counters of whole blocks
    are right. It is kept by every call, so that blocks never overlap (locale \<open>allocator\<close>), pages that
    were mapped before stay out of the heap, and a client that gives everything back leaves whole blocks only.
  \<^item> \<open>Scheduler\<close>: the ring of tasks, the switch, sleeping and the timer; every running task is reached.
  \<^item> \<open>Arch\<close>, \<open>Devices\<close>: descriptors, gates, the interrupt controllers and dispatch, keyboard, console,
    serial line and \<open>printk\<close>.
  \<^item> \<open>CxxRuntime\<close>, \<open>Syscalls\<close>: destructors, guards, \<open>new\<close> and \<open>delete\<close>; the interrupt entry, the system calls
    and the library's stubs, followed from the user program to the screen.
  \<^item> \<open>Boot\<close>, \<open>Boot_Memory\<close>, \<open>Tasks\<close>, \<open>Loader\<close>: \<open>createTask\<close>, the ELF loader, the boot loader's tables,
    initialisation and \<open>kernel_main\<close>; which pages the memory map frees, what a new task gets, which files
    the loader accepts and where it puts their segments.
  \<^item> \<open>Boot_Paging\<close>: \<open>MemoryManager::init\<close>, from the machine the boot loader hands over to paging: it
    establishes the invariant that the theorems on the memory manager start from.
  \<^item> \<open>Kernel_Run\<close>: the components together. A run of the started kernel is a sequence of steps (inductive
    relation \<open>kernel_step\<close>): allocations, frees, creation and start of tasks, timer ticks and sleeping, in
    any order. The invariant \<open>run_ok\<close> holds after every run (locale \<open>transition_system\<close>): the heap and the
    ring of tasks are well formed together, the page directory is intact, the next request returns, and
    it is known exactly when the next timer interrupt does (\<open>kernel_safe\<close>).
  \<^item> \<open>Boot_Run\<close>: \<open>kernel_main\<close> from its entry to its endless loop. It reaches \<open>run_ok\<close> with two tasks, so that
    every later run is safe. The hypothesis \<open>constructors_ok\<close> on the linker's constructors lets them use the
    heap and store to memory (relation \<open>heap_use\<close>), but not start tasks, and asks that they return and
    leave room for the first task; the witness has one that keeps a block of the heap.
  \<^item> \<open>Program_Run\<close>: \<open>load\<close> as a whole in a running kernel: the program is in place, its task runs, and the
    kernel stays safe.
  \<^item> \<open>Newlib_String\<close>, \<open>Newlib_Words\<close>: the C library's memory and string routines; the routines that work a
    word at a time agree with byte loops.

  \<^bold>\<open>Fuel.\<close> \<open>VirtualMap\<close> and \<open>identityMap\<close> call each other when a page table is missing: \<open>MAP_FUEL\<close> (8)
  bounds the depth, and in the kernel's gigabyte, where all tables exist, depth 1 suffices, which
  \<open>VirtualMap_translates\<close> shows. \<open>FTOA_FUEL\<close> (4) bounds the depth at which \<open>_ftoa\<close> and
  \<open>_etoa\<close> call each other, which is at most three on a conforming unit. Loops that may
  run for ever are partial functions, and returning is proved.

  \<^bold>\<open>Not modelled.\<close> The assembly files other than the task switch and the linker script, whose effects are
  parameters; the exception handler and the virtual file system, which have no code; the test module;
  the build system; the vendored C library other than the routines above.
\<close>

end
